(* ===== verification/Osxie_Prelude.thy ===== *)
theory Osxie_Prelude
  imports Main "HOL-Library.Word"
begin

text \<open>
  What the component theories share: the machine types of the C sources, the collections
  of simplification rules, fallible operations, and the locales for the shapes of argument
  that recur.
  \<^item> \<open>inductive_invariant\<close>: a predicate that holds initially and is kept by every step
    holds in every reachable state;
  \<^item> \<open>mutex_contract\<close>: such an invariant that admits one holder at a time;
  \<^item> \<open>step_simulation\<close>: every concrete step is a step of an abstract machine or leaves the
    abstraction alone, so that concrete runs are abstract runs.
  The component that provides the steps interprets them.
\<close>

unbundle bit_operations_syntax

type_synonym u8 = "8 word"
type_synonym u16 = "16 word"
type_synonym u32 = "32 word"
type_synonym u64 = "64 word"
type_synonym tid = nat

named_theorems atomics \<open>the atomic operations of stdatomic.h, unfolded\<close>
named_theorems states \<open>the named values of a state word, unfolded\<close>
named_theorems inv_defs \<open>the parts of an invariant, unfolded\<close>

section \<open>Atomic operations\<close>

text \<open>
  An atomic operation takes the current value of the atomic object; a compare-and-exchange
  answers the value the object holds afterwards and the value it held before, which is what
  C11 leaves in the \<open>expected\<close> argument.
\<close>

definition atomic_cas :: "'a \<Rightarrow> 'a \<Rightarrow> 'a \<Rightarrow> 'a \<times> 'a" where
  "atomic_cas cur expected desired = (if cur = expected then (desired, cur) else (cur, cur))"

lemma atomic_cas_hit [atomics]: "atomic_cas e e d = (d, e)"
  by (simp add: atomic_cas_def)

lemma atomic_cas_miss [atomics]: "cur \<noteq> e \<Longrightarrow> atomic_cas cur e d = (cur, cur)"
  by (simp add: atomic_cas_def)

section \<open>Bits of machine words\<close>

lemma bit_nat_less: "n < 2 ^ k \<Longrightarrow> bit (n::nat) i \<Longrightarrow> i < k"
  by (metis bit_take_bit_iff take_bit_nat_eq_self)

lemma bit_push_one: "bit (push_bit k 1 :: 'a::len word) i \<longleftrightarrow> i = k \<and> k < LENGTH('a)"
  unfolding bit_push_bit_iff by (auto simp: bit_1_iff)

lemma and_eq_0_iff: "w AND m = 0 \<longleftrightarrow> (\<forall>i. \<not> (bit w i \<and> bit m i))" for w m :: "'a::len word"
  using bit_imp_le_length [of w] by (fastforce simp: bit_eq_iff bit_and_iff)

section \<open>Operations that may fail\<close>

text \<open>Results are \<open>Inl\<close> an error or \<open>Inr\<close> a value; \<open>res_bind\<close> stops at the first error.\<close>

definition res_bind :: "'e + 'a \<Rightarrow> ('a \<Rightarrow> 'e + 'b) \<Rightarrow> 'e + 'b" where
  "res_bind r f = (case r of Inl e \<Rightarrow> Inl e | Inr x \<Rightarrow> f x)"

lemma res_bind_simps [simp]: "res_bind (Inl e) f = Inl e" "res_bind (Inr x) f = f x"
  by (simp_all add: res_bind_def)

lemma res_bind_Inr: "res_bind r f = Inr y \<longleftrightarrow> (\<exists>x. r = Inr x \<and> f x = Inr y)"
  by (cases r) simp_all

lemma res_bind_cong [fundef_cong]:
  "r = r' \<Longrightarrow> (\<And>x. r' = Inr x \<Longrightarrow> f x = g x) \<Longrightarrow> res_bind r f = res_bind r' g"
  by (cases r') simp_all

section \<open>Threads at a program counter\<close>

text \<open>
  Whether some thread, or some thread other than \<open>t\<close>, is at a program counter with property
  \<open>P\<close>. With the two rewrite rules an update of one thread's counter becomes a propositional
  matter.
\<close>

definition some_at :: "(tid \<Rightarrow> 'pc) \<Rightarrow> ('pc \<Rightarrow> bool) \<Rightarrow> bool" where
  "some_at f P \<longleftrightarrow> (\<exists>u. P (f u))"

definition other_at :: "(tid \<Rightarrow> 'pc) \<Rightarrow> tid \<Rightarrow> ('pc \<Rightarrow> bool) \<Rightarrow> bool" where
  "other_at f t P \<longleftrightarrow> (\<exists>u. u \<noteq> t \<and> P (f u))"

lemma some_at_split: "some_at f P \<longleftrightarrow> P (f t) \<or> other_at f t P"
  by (auto simp: some_at_def other_at_def)

lemma some_at_upd: "some_at (f(t := pc)) P \<longleftrightarrow> P pc \<or> other_at f t P"
  by (auto simp: some_at_def other_at_def)

lemma some_at_mono: "some_at f P \<Longrightarrow> (\<And>pc. P pc \<Longrightarrow> Q pc) \<Longrightarrow> some_at f Q"
  by (auto simp: some_at_def)

section \<open>Reachability and invariants\<close>

locale inductive_invariant =
  fixes init :: "'s \<Rightarrow> bool"
    and step :: "'s \<Rightarrow> 's \<Rightarrow> bool"
    and inv :: "'s \<Rightarrow> bool"
  assumes init_inv: "init s \<Longrightarrow> inv s"
    and step_inv: "inv s \<Longrightarrow> step s t \<Longrightarrow> inv t"
begin

lemma run_inv:
  assumes "step\<^sup>*\<^sup>* s t" and "inv s"
  shows "inv t"
  using assms by (induction rule: rtranclp_induct) (auto intro: step_inv)

lemma reachable_inv:
  assumes "init s" and "step\<^sup>*\<^sup>* s t"
  shows "inv t"
  using assms by (blast intro: run_inv init_inv)

end

locale mutex_contract = inductive_invariant init step inv
  for init :: "'s \<Rightarrow> bool" and step :: "'s \<Rightarrow> 's \<Rightarrow> bool" and inv :: "'s \<Rightarrow> bool" +
  fixes holds :: "'s \<Rightarrow> tid \<Rightarrow> bool"
  assumes inv_excl: "inv s \<Longrightarrow> holds s t \<Longrightarrow> holds s u \<Longrightarrow> t = u"
begin

lemma reachable_excl:
  assumes "init s" and "step\<^sup>*\<^sup>* s s'" and "holds s' t" and "holds s' u"
  shows "t = u"
  using assms by (blast intro: inv_excl reachable_inv)

end

locale step_simulation = inductive_invariant init step inv
  for init :: "'s \<Rightarrow> bool" and step :: "'s \<Rightarrow> 's \<Rightarrow> bool" and inv :: "'s \<Rightarrow> bool" +
  fixes astep :: "'a \<Rightarrow> 'a \<Rightarrow> bool"
    and abs :: "'s \<Rightarrow> 'a"
  assumes step_sim: "inv s \<Longrightarrow> step s t \<Longrightarrow> abs t = abs s \<or> astep (abs s) (abs t)"
begin

lemma run_sim:
  assumes "step\<^sup>*\<^sup>* s t" and "inv s"
  shows "astep\<^sup>*\<^sup>* (abs s) (abs t)"
  using assms(1)
proof (induction rule: rtranclp_induct)
  case base
  show ?case by simp
next
  case (step t u)
  from step.hyps(1) assms(2) have "inv t" by (rule run_inv)
  from step_sim [OF this step.hyps(2)] step.IH show ?case by auto
qed

lemma reachable_sim:
  assumes "init s" and "step\<^sup>*\<^sup>* s t"
  shows "astep\<^sup>*\<^sup>* (abs s) (abs t)"
  using assms by (blast intro: run_sim init_inv)

end

section \<open>What a lock promises\<close>

text \<open>
  The abstract lock is the set of its holders: empty or one thread. A lock is taken when no
  thread has it and given up by the thread that has it.
\<close>

inductive alock_step :: "tid set \<Rightarrow> tid set \<Rightarrow> bool" where
  take: "alock_step {} {t}"
| give: "alock_step {t} {}"

inductive_simps alock_step_iff: "alock_step H H'"

section \<open>What an allocator of numbers promises\<close>

text \<open>
  A pool hands out numbers that are not in use and takes back numbers that are. Clients keep
  the list of the numbers they hold; a request picks one of them by its position.
\<close>

datatype pool_op = PoolGet | PoolPut nat

fun pool_run :: "('s \<Rightarrow> (nat \<times> 's) option) \<Rightarrow> ('s \<Rightarrow> nat \<Rightarrow> 's option) \<Rightarrow> pool_op list \<Rightarrow>
    's \<times> nat list \<Rightarrow> ('s \<times> nat list) option" where
  "pool_run get put [] (s, held) = Some (s, held)"
| "pool_run get put (PoolGet # ops) (s, held) =
     (case get s of Some (i, s') \<Rightarrow> pool_run get put ops (s', i # held) | None \<Rightarrow> None)"
| "pool_run get put (PoolPut k # ops) (s, held) =
     (if k < length held then
        (case put s (held ! k) of
           Some s' \<Rightarrow> pool_run get put ops (s', remove1 (held ! k) held)
         | None \<Rightarrow> None)
      else None)"

locale number_pool =
  fixes inv :: "'s \<Rightarrow> bool"
    and used :: "'s \<Rightarrow> nat set"
    and get :: "'s \<Rightarrow> (nat \<times> 's) option"
    and put :: "'s \<Rightarrow> nat \<Rightarrow> 's option"
  assumes get_law: "inv s \<Longrightarrow> get s = Some (i, s') \<Longrightarrow> inv s' \<and> i \<notin> used s \<and> used s' = insert i (used s)"
    and put_law: "inv s \<Longrightarrow> i \<in> used s \<Longrightarrow> put s i = Some s' \<Longrightarrow> inv s' \<and> used s' = used s - {i}"
begin

lemma run_distinct:
  assumes "inv s" and "used s = set held" and "distinct held"
    and "pool_run get put ops (s, held) = Some (s', held')"
  shows "inv s' \<and> used s' = set held' \<and> distinct held'"
  using assms
proof (induction ops arbitrary: s held)
  case Nil
  then show ?case by simp
next
  case (Cons op ops)
  show ?case
  proof (cases op)
    case PoolGet
    with Cons.prems(4) obtain i s1 where "get s = Some (i, s1)"
      and run: "pool_run get put ops (s1, i # held) = Some (s', held')"
      by (auto split: option.splits)
    with get_law [OF Cons.prems(1)] Cons.prems(2,3) Cons.IH [OF _ _ _ run] show ?thesis by simp
  next
    case (PoolPut k)
    with Cons.prems(4) obtain s1 where k: "k < length held" and s1: "put s (held ! k) = Some s1"
      and run: "pool_run get put ops (s1, remove1 (held ! k) held) = Some (s', held')"
      by (auto split: if_splits option.splits)
    from k Cons.prems(2) have "held ! k \<in> used s" by simp
    from put_law [OF Cons.prems(1) this s1] Cons.prems(2,3) Cons.IH [OF _ _ _ run]
    show ?thesis by simp
  qed
qed

end

section \<open>What a bounded queue promises\<close>

text \<open>
  A put appends to the contents unless they have reached the capacity; a get takes the first
  element, if there is one.
\<close>

locale bounded_fifo =
  fixes inv :: "'s \<Rightarrow> bool"
    and contents :: "'s \<Rightarrow> 'a list"
    and cap :: nat
    and put :: "'a \<Rightarrow> 's \<Rightarrow> 's"
    and get :: "'s \<Rightarrow> ('a \<times> 's) option"
  assumes put_law: "inv s \<Longrightarrow> inv (put x s) \<and>
      contents (put x s) = (if length (contents s) < cap then contents s @ [x] else contents s)"
    and get_nil: "inv s \<Longrightarrow> contents s = [] \<Longrightarrow> get s = None"
    and get_cons: "inv s \<Longrightarrow> contents s = x # xs \<Longrightarrow> \<exists>s'. get s = Some (x, s') \<and> inv s' \<and> contents s' = xs"
    and bound: "inv s \<Longrightarrow> length (contents s) \<le> cap"
begin

lemma put_list:
  assumes "inv s"
  shows "inv (fold put xs s) \<and> contents (fold put xs s) = take cap (contents s @ xs)"
  using assms
proof (induction xs arbitrary: s)
  case Nil
  with bound show ?case by simp
next
  case (Cons x xs)
  from put_law [OF Cons.prems, of x] Cons.IH [of "put x s"] bound [OF Cons.prems]
  show ?case by (cases "length (contents s) < cap") auto
qed

end

section \<open>What a table promises\<close>

text \<open>
  A table holds at most \<open>cap\<close> values under keys. New keys are inserted with the value that
  \<open>mk\<close> makes of the key and the argument, values are changed by \<open>ap\<close>, keys are deleted.
\<close>

datatype ('k, 'a, 'u) table_op = TInsert 'k 'a | TUpdate 'k 'u | TDelete 'k

fun map_op :: "('k \<Rightarrow> 'a \<Rightarrow> 'v) \<Rightarrow> ('u \<Rightarrow> 'v \<Rightarrow> 'v) \<Rightarrow> ('k, 'a, 'u) table_op \<Rightarrow> ('k \<rightharpoonup> 'v) \<Rightarrow> 'k \<rightharpoonup> 'v" where
  "map_op mk ap (TInsert k x) m = m(k \<mapsto> mk k x)"
| "map_op mk ap (TUpdate k u) m = m(k := map_option (ap u) (m k))"
| "map_op mk ap (TDelete k) m = m(k := None)"

fun map_op_ok :: "nat \<Rightarrow> ('k, 'a, 'u) table_op \<Rightarrow> ('k \<rightharpoonup> 'v) \<Rightarrow> bool" where
  "map_op_ok cap (TInsert k x) m \<longleftrightarrow> m k = None \<and> card (dom m) < cap"
| "map_op_ok cap _ m \<longleftrightarrow> True"

fun map_ops_ok :: "nat \<Rightarrow> ('k \<Rightarrow> 'a \<Rightarrow> 'v) \<Rightarrow> ('u \<Rightarrow> 'v \<Rightarrow> 'v) \<Rightarrow> ('k, 'a, 'u) table_op list \<Rightarrow> ('k \<rightharpoonup> 'v) \<Rightarrow> bool" where
  "map_ops_ok cap mk ap [] m \<longleftrightarrow> True"
| "map_ops_ok cap mk ap (opn # ops) m \<longleftrightarrow> map_op_ok cap opn m \<and> map_ops_ok cap mk ap ops (map_op mk ap opn m)"

locale keyed_table =
  fixes inv :: "'t \<Rightarrow> bool"
    and view :: "'t \<Rightarrow> 'k \<rightharpoonup> 'v"
    and cap :: nat
    and mk :: "'k \<Rightarrow> 'a \<Rightarrow> 'v"
    and ap :: "'u \<Rightarrow> 'v \<Rightarrow> 'v"
    and exec :: "('k, 'a, 'u) table_op \<Rightarrow> 't \<Rightarrow> 't"
  assumes exec_law: "inv t \<Longrightarrow> map_op_ok cap opn (view t) \<Longrightarrow>
      inv (exec opn t) \<and> view (exec opn t) = map_op mk ap opn (view t)"
begin

lemma run_law:
  assumes "inv t" and "map_ops_ok cap mk ap ops (view t)"
  shows "inv (fold exec ops t) \<and> view (fold exec ops t) = fold (map_op mk ap) ops (view t)"
  using assms
proof (induction ops arbitrary: t)
  case Nil
  then show ?case by simp
next
  case (Cons opn ops)
  from Cons.prems(2) have ok: "map_op_ok cap opn (view t)" by simp
  with Cons.IH [of "exec opn t"] Cons.prems exec_law [OF Cons.prems(1) ok] show ?case by simp
qed

end

section \<open>Rectangles\<close>

text \<open>Rectangles of CoreGraphics over the type \<open>'f\<close> of coordinates (\<open>CGFloat\<close>).\<close>

record 'f cg_rect =
  origin :: "'f \<times> 'f"
  rect_size :: "'f \<times> 'f"

definition CGRectZero :: "'f::zero cg_rect" where
  "CGRectZero = \<lparr>origin = (0, 0), rect_size = (0, 0)\<rparr>"

section \<open>Bytes of integers and strings\<close>

text \<open>The \<open>k\<close> low bytes of a number, least significant first, and the number of such bytes.\<close>

primrec le_bytes :: "nat \<Rightarrow> nat \<Rightarrow> char list" where
  "le_bytes 0 n = []"
| "le_bytes (Suc k) n = char_of n # le_bytes k (n div 256)"

primrec le_val :: "char list \<Rightarrow> nat" where
  "le_val [] = 0"
| "le_val (c # cs) = of_char c + 256 * le_val cs"

lemma length_le_bytes [simp]: "length (le_bytes k n) = k"
  by (induction k arbitrary: n) simp_all

lemma le_val_bytes [simp]: "le_val (le_bytes k n) = n mod 256 ^ k"
proof (induction k arbitrary: n)
  case 0
  show ?case by simp
next
  case (Suc k)
  have "n mod 256 ^ Suc k = 256 * (n div 256 mod 256 ^ k) + n mod 256"
    by (simp add: mod_mult2_eq)
  with Suc show ?case by simp
qed

lemma le_bytes_mod: "le_bytes k (n mod 256 ^ k) = le_bytes k n"
proof (induction k arbitrary: n)
  case 0
  show ?case by simp
next
  case (Suc k)
  have "n mod 256 ^ Suc k = 256 * (n div 256 mod 256 ^ k) + n mod 256"
    by (simp add: mod_mult2_eq)
  moreover have "char_of (256 * (n div 256 mod 256 ^ k) + n mod 256) = (char_of n :: char)"
    by (metis char_of_mod_256 mod_mult_self4 mod_mod_trivial)
  ultimately show ?case using Suc [of "n div 256"] by simp
qed

text \<open>A C \<open>int\<close> of 32 bits in memory.\<close>

definition int32_bytes :: "int \<Rightarrow> char list" where
  "int32_bytes i = le_bytes 4 (nat (i mod 2 ^ 32))"

definition int32_val :: "char list \<Rightarrow> int" where
  "int32_val bs = (let n = int (le_val bs) in if n < 2 ^ 31 then n else n - 2 ^ 32)"

lemma length_int32_bytes [simp]: "length (int32_bytes i) = 4"
  by (simp add: int32_bytes_def)

lemma int32_val_bytes:
  assumes "- (2 ^ 31) \<le> i" and "i < 2 ^ 31"
  shows "int32_val (int32_bytes i) = i"
proof -
  have "nat (i mod 2 ^ 32) < 256 ^ 4" by (simp add: nat_less_iff)
  then have le: "int (le_val (int32_bytes i)) = i mod 2 ^ 32"
    by (simp add: int32_bytes_def)
  show ?thesis
  proof (cases "0 \<le> i")
    case True
    with assms(2) le show ?thesis by (simp add: int32_val_def)
  next
    case False
    with assms(1) have "(i + 2 ^ 32) mod 2 ^ 32 = i + 2 ^ 32" by (intro mod_pos_pos_trivial) simp_all
    then have "i mod 2 ^ 32 = i + 2 ^ 32" by simp
    with False assms le show ?thesis by (simp add: int32_val_def)
  qed
qed

text \<open>The string at the start of a block of memory, and the strings that have no byte 0.\<close>

definition cstr :: "char list \<Rightarrow> string" where
  "cstr bs = takeWhile (\<lambda>c. c \<noteq> CHR 0x00) bs"

definition c_string :: "string \<Rightarrow> bool" where
  "c_string s \<longleftrightarrow> CHR 0x00 \<notin> set s"

lemma cstr_terminated [simp]: "c_string s \<Longrightarrow> cstr (s @ CHR 0x00 # rest) = s"
  by (auto simp: cstr_def c_string_def takeWhile_append)

lemma c_string_simps [simp]: "c_string []" "c_string (c # s) \<longleftrightarrow> c \<noteq> CHR 0x00 \<and> c_string s"
    "c_string (s @ t) \<longleftrightarrow> c_string s \<and> c_string t"
  by (auto simp: c_string_def)

lemma c_string_take: "c_string s \<Longrightarrow> c_string (take n s)"
  by (auto simp: c_string_def dest: in_set_takeD)

end
