(* ===== verification/Futex_Lock.thy ===== *)
theory Futex_Lock
  imports Osxie_Prelude
begin

text \<open>
  The mutex of src/libsimple/src/lock.c: one 32-bit word, compare-and-exchange on it, and
  the futex system call to sleep. Any number of threads run the four functions of the file
  in any interleaving of their atomic operations; a thread's program counter names the next
  atomic operation it performs. The kernel's side of the futex is the documented one:
  \<open>FUTEX_WAIT\<close> sleeps exactly when the word still holds the expected value, \<open>FUTEX_WAKE 1\<close>
  wakes one sleeper when there is one, and a sleeper may wake without being woken (a signal).
\<close>

section \<open>The lock word and the four functions\<close>

definition libsimple_lock_state_unlocked :: u32 where
  [states]: "libsimple_lock_state_unlocked = 0"

definition libsimple_lock_state_locked_uncontended :: u32 where
  [states]: "libsimple_lock_state_locked_uncontended = 1"

definition libsimple_lock_state_locked_contended :: u32 where
  [states]: "libsimple_lock_state_locked_contended = 2"

definition cmpxchg_wrapper_u32 :: "u32 \<Rightarrow> u32 \<Rightarrow> u32 \<Rightarrow> u32 \<times> u32" where
  [atomics]: "cmpxchg_wrapper_u32 atom expected desired = atomic_cas atom expected desired"

text \<open>
  \<open>LkLoop prev\<close> is the condition of the \<open>if\<close> in the loop, \<open>LkWait\<close> the futex call,
  \<open>LkRetry\<close> the exchange in the loop's own condition. \<open>LkHeld\<close> is a thread whose call has
  returned with the lock; \<open>UnFirst\<close> still has it, \<open>UnWake\<close> no longer does.
\<close>

datatype lock_pc =
    LkIdle | LkHeld
  | LkFirst | LkLoop u32 | LkWait | LkSleep | LkRetry
  | SlFirst | SlWait | SlSleep
  | UnFirst | UnWake
  | TrFirst

text \<open>\<open>linux_futex(&state, FUTEX_WAIT, expected)\<close>: does the caller go to sleep?\<close>

definition futex_wait :: "u32 \<Rightarrow> u32 \<Rightarrow> bool" where
  [atomics]: "futex_wait cur expected \<longleftrightarrow> cur = expected"

fun libsimple_lock_lock :: "lock_pc \<Rightarrow> u32 \<Rightarrow> (lock_pc \<times> u32) option" where
  "libsimple_lock_lock LkFirst st =
     (let (st', prev) = cmpxchg_wrapper_u32 st libsimple_lock_state_unlocked
                          libsimple_lock_state_locked_uncontended
      in Some (if prev \<noteq> libsimple_lock_state_unlocked then LkLoop prev else LkHeld, st'))"
| "libsimple_lock_lock (LkLoop prev) st =
     (if prev = libsimple_lock_state_locked_contended then Some (LkWait, st)
      else let (st', r) = cmpxchg_wrapper_u32 st libsimple_lock_state_locked_uncontended
                            libsimple_lock_state_locked_contended
           in Some (if r \<noteq> libsimple_lock_state_unlocked then LkWait else LkRetry, st'))"
| "libsimple_lock_lock LkWait st =
     Some (if futex_wait st libsimple_lock_state_locked_contended then LkSleep else LkRetry, st)"
| "libsimple_lock_lock LkRetry st =
     (let (st', prev) = cmpxchg_wrapper_u32 st libsimple_lock_state_unlocked
                          libsimple_lock_state_locked_contended
      in Some (if prev \<noteq> libsimple_lock_state_unlocked then LkLoop prev else LkHeld, st'))"
| "libsimple_lock_lock _ st = None"

text \<open>The exchange before the loop and the one that ends its body are the same operation.\<close>

fun libsimple_lock_lock_slow :: "lock_pc \<Rightarrow> u32 \<Rightarrow> (lock_pc \<times> u32) option" where
  "libsimple_lock_lock_slow SlFirst st =
     Some (if st \<noteq> libsimple_lock_state_unlocked then SlWait else LkHeld,
           libsimple_lock_state_locked_contended)"
| "libsimple_lock_lock_slow SlWait st =
     Some (if futex_wait st libsimple_lock_state_locked_contended then SlSleep else SlFirst, st)"
| "libsimple_lock_lock_slow _ st = None"

fun libsimple_lock_unlock :: "lock_pc \<Rightarrow> u32 \<Rightarrow> (lock_pc \<times> u32) option" where
  "libsimple_lock_unlock UnFirst st =
     Some (if st = libsimple_lock_state_locked_contended then UnWake else LkIdle,
           libsimple_lock_state_unlocked)"
| "libsimple_lock_unlock _ st = None"

fun libsimple_lock_try_lock :: "lock_pc \<Rightarrow> u32 \<Rightarrow> (lock_pc \<times> u32) option" where
  "libsimple_lock_try_lock TrFirst st =
     (let (st', prev) = cmpxchg_wrapper_u32 st libsimple_lock_state_unlocked
                          libsimple_lock_state_locked_uncontended
      in Some (if prev = libsimple_lock_state_unlocked then LkHeld else LkIdle, st'))"
| "libsimple_lock_try_lock _ st = None"

section \<open>Threads sharing a lock\<close>

record lock_sys =
  lk_word :: u32
  lk_pc :: "tid \<Rightarrow> lock_pc"

definition libsimple_lock_init :: lock_sys where
  "libsimple_lock_init = \<lparr>lk_word = 0, lk_pc = (\<lambda>_. LkIdle)\<rparr>"

fun lk_wakes :: "lock_pc \<Rightarrow> lock_pc option" where
  "lk_wakes LkSleep = Some LkRetry"
| "lk_wakes SlSleep = Some SlFirst"
| "lk_wakes _ = None"

text \<open>The call that puts a program counter at the first operation of a function.\<close>

fun lock_call :: "lock_pc \<Rightarrow> lock_pc \<Rightarrow> bool" where
  "lock_call LkIdle LkFirst = True"
| "lock_call LkIdle SlFirst = True"
| "lock_call LkIdle TrFirst = True"
| "lock_call LkHeld UnFirst = True"
| "lock_call _ _ = False"

definition lock_local :: "lock_pc \<Rightarrow> u32 \<Rightarrow> (lock_pc \<times> u32) option" where
  "lock_local pc st =
     (case libsimple_lock_lock pc st of Some r \<Rightarrow> Some r
      | None \<Rightarrow> (case libsimple_lock_lock_slow pc st of Some r \<Rightarrow> Some r
      | None \<Rightarrow> (case libsimple_lock_unlock pc st of Some r \<Rightarrow> Some r
      | None \<Rightarrow> libsimple_lock_try_lock pc st)))"

inductive lock_step :: "lock_sys \<Rightarrow> lock_sys \<Rightarrow> bool" where
  call: "lock_call (lk_pc s t) pc \<Longrightarrow> lock_step s (s\<lparr>lk_pc := (lk_pc s)(t := pc)\<rparr>)"
| run: "lock_local (lk_pc s t) (lk_word s) = Some (pc, w) \<Longrightarrow>
     lock_step s (s\<lparr>lk_word := w, lk_pc := (lk_pc s)(t := pc)\<rparr>)"
| wake_one: "lk_pc s t = UnWake \<Longrightarrow> lk_wakes (lk_pc s u) = Some pc \<Longrightarrow>
     lock_step s (s\<lparr>lk_pc := (lk_pc s)(t := LkIdle, u := pc)\<rparr>)"
| wake_none: "lk_pc s t = UnWake \<Longrightarrow> \<forall>u. lk_wakes (lk_pc s u) = None \<Longrightarrow>
     lock_step s (s\<lparr>lk_pc := (lk_pc s)(t := LkIdle)\<rparr>)"
| spurious: "lk_wakes (lk_pc s u) = Some pc \<Longrightarrow>
     lock_step s (s\<lparr>lk_pc := (lk_pc s)(u := pc)\<rparr>)"

text \<open>
  A thread holds the lock from the operation that takes it to the exchange of its unlock.
  A contending thread is awake inside a locking loop: it leaves the loop only with the word
  contended, or goes to sleep on a contended word.
\<close>

definition pc_holds :: "lock_pc \<Rightarrow> bool" where
  "pc_holds pc \<longleftrightarrow> pc \<in> {LkHeld, UnFirst}"

definition pc_asleep :: "lock_pc \<Rightarrow> bool" where
  "pc_asleep pc \<longleftrightarrow> pc \<in> {LkSleep, SlSleep}"

fun pc_contends :: "lock_pc \<Rightarrow> bool" where
  "pc_contends (LkLoop _) = True"
| "pc_contends LkWait = True"
| "pc_contends LkRetry = True"
| "pc_contends SlFirst = True"
| "pc_contends SlWait = True"
| "pc_contends _ = False"

definition lk_holds :: "lock_sys \<Rightarrow> tid \<Rightarrow> bool" where
  [simp]: "lk_holds s t \<longleftrightarrow> pc_holds (lk_pc s t)"

definition lock_excl :: "lock_sys \<Rightarrow> bool" where
  [inv_defs]: "lock_excl s \<longleftrightarrow>
     (lk_word s = libsimple_lock_state_unlocked \<longrightarrow> (\<forall>t. \<not> lk_holds s t)) \<and>
     (lk_word s \<noteq> libsimple_lock_state_unlocked \<longrightarrow> (\<exists>!t. lk_holds s t))"

definition lock_wakeup :: "lock_sys \<Rightarrow> bool" where
  [inv_defs]: "lock_wakeup s \<longleftrightarrow> ((\<exists>t. pc_asleep (lk_pc s t)) \<longrightarrow>
     lk_word s = libsimple_lock_state_locked_contended \<or> (\<exists>u. lk_pc s u = UnWake) \<or>
     (\<exists>u. pc_contends (lk_pc s u)))"

text \<open>
  A schedule: a thread calls a function (\<open>Some\<close> the counter of its first operation) or performs
  its next operation (\<open>None\<close>). Schedules evaluate, so runs can be exhibited.
\<close>

fun lock_sched :: "lock_sys \<Rightarrow> (tid \<times> lock_pc option) list \<Rightarrow> lock_sys option" where
  "lock_sched s [] = Some s"
| "lock_sched s ((t, Some pc) # as) =
     (if lock_call (lk_pc s t) pc then lock_sched (s\<lparr>lk_pc := (lk_pc s)(t := pc)\<rparr>) as else None)"
| "lock_sched s ((t, None) # as) =
     (case lock_local (lk_pc s t) (lk_word s) of
        Some (pc, w) \<Rightarrow> lock_sched (s\<lparr>lk_word := w, lk_pc := (lk_pc s)(t := pc)\<rparr>) as
      | None \<Rightarrow> None)"

text \<open>A thread that runs alone for \<open>n\<close> operations.\<close>

fun lock_solo :: "nat \<Rightarrow> lock_pc \<Rightarrow> u32 \<Rightarrow> lock_pc \<times> u32" where
  "lock_solo 0 pc w = (pc, w)"
| "lock_solo (Suc n) pc w =
     (case lock_local pc w of Some (pc', w') \<Rightarrow> lock_solo n pc' w' | None \<Rightarrow> (pc, w))"

definition lock_inv :: "lock_sys \<Rightarrow> bool" where
  "lock_inv s \<longleftrightarrow> lock_excl s \<and> lock_wakeup s"

section \<open>Every step keeps the invariant\<close>

lemmas lock_local_simps = lock_local_def atomic_cas_def cmpxchg_wrapper_u32_def futex_wait_def
  states Let_def

text \<open>
  What one atomic operation does to the word, by whether the thread holds the lock before
  and after it: the word is zero when an operation takes the lock, and becomes zero exactly
  when one gives it up.
\<close>

lemma lock_local_word:
  assumes "lock_local pc st = Some (pc', st')"
  shows "(\<not> pc_holds pc \<and> \<not> pc_holds pc' \<and> (st' = 0 \<longleftrightarrow> st = 0)) \<or>
         (\<not> pc_holds pc \<and> pc_holds pc' \<and> st = 0 \<and> st' \<noteq> 0) \<or>
         (pc_holds pc \<and> \<not> pc_holds pc' \<and> st' = 0)"
  using assms by (cases pc) (auto simp: lock_local_simps pc_holds_def split: if_splits)

lemma lk_wakes_holds: "lk_wakes pc = Some pc' \<Longrightarrow> \<not> pc_holds pc \<and> \<not> pc_holds pc'"
  by (cases pc) (auto simp: pc_holds_def)

lemma lock_call_holds: "lock_call pc pc' \<Longrightarrow> pc_holds pc' = pc_holds pc"
  by (induction pc pc' rule: lock_call.induct) (auto simp: pc_holds_def)

lemma UnWake_not_holds [simp]: "\<not> pc_holds UnWake" "\<not> pc_holds LkIdle"
  by (simp_all add: pc_holds_def)

lemma lock_excl_frame:
  assumes "lock_excl s" and "\<And>t. lk_holds s' t = lk_holds s t"
    and "lk_word s' = 0 \<longleftrightarrow> lk_word s = 0"
  shows "lock_excl s'"
  using assms unfolding lock_excl_def states by presburger

lemma lock_excl_take:
  assumes "lock_excl s" and "lk_word s = 0" and "lk_word s' \<noteq> 0"
    and "\<And>u. lk_holds s' u \<longleftrightarrow> u = t \<or> lk_holds s u"
  shows "lock_excl s'"
  using assms(1-3) by (auto simp: lock_excl_def states assms(4) simp del: lk_holds_def)

lemma lock_excl_give:
  assumes "lock_excl s" and "lk_holds s t" and "lk_word s' = 0"
    and "\<And>u. lk_holds s' u \<longleftrightarrow> u \<noteq> t \<and> lk_holds s u"
  shows "lock_excl s'"
  using assms(1-3) by (auto simp: lock_excl_def states assms(4) simp del: lk_holds_def)

lemma lock_step_excl:
  assumes "lock_step s s'" and "lock_excl s"
  shows "lock_excl s'"
  using assms
proof (induction rule: lock_step.induct)
  case (call s t pc)
  with lock_call_holds [OF call.hyps] show ?case
    by (intro lock_excl_frame [OF call.prems]) simp_all
next
  case (run s t pc w)
  from lock_local_word [OF run.hyps] consider
      (keep) "\<not> pc_holds (lk_pc s t)" "\<not> pc_holds pc" "w = 0 \<longleftrightarrow> lk_word s = 0"
    | (take) "\<not> pc_holds (lk_pc s t)" "pc_holds pc" "lk_word s = 0" "w \<noteq> 0"
    | (give) "pc_holds (lk_pc s t)" "\<not> pc_holds pc" "w = 0"
    by blast
  then show ?case
  proof cases
    case keep
    then show ?thesis by (intro lock_excl_frame [OF run.prems]) simp_all
  next
    case take
    then show ?thesis by (intro lock_excl_take [OF run.prems, of _ t]) simp_all
  next
    case give
    then show ?thesis by (intro lock_excl_give [OF run.prems, of t]) simp_all
  qed
next
  case (wake_one s t u pc)
  with lk_wakes_holds [OF wake_one.hyps(2)] show ?case
    by (intro lock_excl_frame [OF wake_one.prems]) simp_all
next
  case (wake_none s t)
  then show ?case by (intro lock_excl_frame [OF wake_none.prems]) simp_all
next
  case (spurious s u pc)
  with lk_wakes_holds [OF spurious.hyps] show ?case
    by (intro lock_excl_frame [OF spurious.prems]) simp_all
qed

text \<open>
  The same for the wake-up half. An operation that leaves the loop, or makes the word other
  than contended, leaves a waker behind.
\<close>

lemma lock_local_wakeup:
  assumes "lock_local pc st = Some (pc', st')"
  shows "st' = 2 \<or> pc' = UnWake \<or> pc_contends pc' \<or>
         (\<not> pc_asleep pc' \<and> \<not> pc_contends pc \<and> pc \<noteq> UnWake \<and> st \<noteq> 2)"
  using assms by (cases pc) (auto simp: lock_local_simps pc_asleep_def split: if_splits)

lemma lk_wakes_contends: "lk_wakes pc = Some pc' \<Longrightarrow> pc_contends pc'"
  by (cases pc) auto

lemma lk_wakes_None: "lk_wakes pc = None \<longleftrightarrow> \<not> pc_asleep pc"
  by (cases pc) (auto simp: pc_asleep_def)

lemma lock_call_wakeup:
  "lock_call pc pc' \<Longrightarrow> \<not> pc_asleep pc' \<and> pc \<noteq> UnWake \<and> \<not> pc_contends pc"
  by (induction pc pc' rule: lock_call.induct) (auto simp: pc_asleep_def)

lemma pc_asleep_not [simp]: "\<not> pc_asleep LkIdle" "\<not> pc_asleep UnWake"
  by (simp_all add: pc_asleep_def)

lemma lock_wakeupI:
  assumes "lk_word s = 2 \<or> lk_pc s u = UnWake \<or> pc_contends (lk_pc s u)"
  shows "lock_wakeup s"
  using assms by (auto simp: lock_wakeup_def states)

text \<open>A thread that is neither a waker nor a contender moves to a state where it does not sleep.\<close>

lemma lock_wakeup_frame:
  assumes "lock_wakeup s" and "\<not> pc_asleep pc" and "lk_pc s t \<noteq> UnWake"
    and "\<not> pc_contends (lk_pc s t)" and "lk_word s = 2 \<Longrightarrow> w = 2"
  shows "lock_wakeup (s\<lparr>lk_word := w, lk_pc := (lk_pc s)(t := pc)\<rparr>)"
proof -
  let ?s = "s\<lparr>lk_word := w, lk_pc := (lk_pc s)(t := pc)\<rparr>"
  have "w = 2 \<or> (\<exists>u. u \<noteq> t \<and> (lk_pc s u = UnWake \<or> pc_contends (lk_pc s u)))"
    if "pc_asleep (((lk_pc s)(t := pc)) v)" for v
  proof -
    from that assms(2) have "pc_asleep (lk_pc s v)" by (auto split: if_splits)
    with assms(1) have "lk_word s = 2 \<or> (\<exists>u. lk_pc s u = UnWake \<or> pc_contends (lk_pc s u))"
      by (auto simp: lock_wakeup_def states)
    with assms(3-5) show ?thesis by metis
  qed
  then have "lock_wakeup ?s" if "pc_asleep (lk_pc ?s v)" for v
    using that lock_wakeupI [of ?s] by fastforce
  then show ?thesis unfolding lock_wakeup_def by blast
qed

lemma lock_step_wakeup:
  assumes "lock_step s s'" and "lock_wakeup s"
  shows "lock_wakeup s'"
  using assms
proof (induction rule: lock_step.induct)
  case (call s t pc)
  with lock_call_wakeup [OF call.hyps] lock_wakeup_frame [OF call.prems, of pc t "lk_word s"]
  show ?case by simp
next
  case (run s t pc w)
  from lock_local_wakeup [OF run.hyps] consider
      (helps) "w = 2 \<or> pc = UnWake \<or> pc_contends pc"
    | (frame) "\<not> pc_asleep pc" "\<not> pc_contends (lk_pc s t)" "lk_pc s t \<noteq> UnWake" "lk_word s \<noteq> 2"
    by blast
  then show ?case
  proof cases
    case helps
    then show ?thesis by (intro lock_wakeupI [of _ t]) simp
  next
    case frame
    then show ?thesis by (intro lock_wakeup_frame [OF run.prems]) simp_all
  qed
next
  case (wake_one s t u pc)
  with lk_wakes_contends [OF wake_one.hyps(2)] show ?case
    by (intro lock_wakeupI [of _ u]) simp
next
  case (wake_none s t)
  then show ?case by (simp add: lock_wakeup_def lk_wakes_None)
next
  case (spurious s u pc)
  with lk_wakes_contends [OF spurious.hyps] show ?case
    by (intro lock_wakeupI [of _ u]) simp
qed

lemma lock_sched_run: "lock_sched s as = Some s' \<Longrightarrow> lock_step\<^sup>*\<^sup>* s s'"
proof (induction s as rule: lock_sched.induct)
  case (2 s t pc as)
  then show ?case by (auto split: if_splits intro: converse_rtranclp_into_rtranclp lock_step.call)
next
  case (3 s t as)
  then show ?case
    by (auto split: option.splits prod.splits
        intro: converse_rtranclp_into_rtranclp lock_step.run)
qed simp

text \<open>Seen as a set of holders, every step is a step of the abstract lock or none at all.\<close>

lemma lock_step_sim:
  assumes "lock_excl s" and "lock_step s s'"
  shows "{t. lk_holds s' t} = {t. lk_holds s t} \<or> alock_step {t. lk_holds s t} {t. lk_holds s' t}"
  using assms(2,1)
proof (induction rule: lock_step.induct)
  case (call s t pc)
  from lock_call_holds [OF call.hyps] have "{u. pc_holds (((lk_pc s)(t := pc)) u)} = {u. lk_holds s u}"
    by auto
  then show ?case by simp
next
  case (run s t pc w)
  from lock_local_word [OF run.hyps] consider
      (keep) "\<not> pc_holds (lk_pc s t)" "\<not> pc_holds pc"
    | (take) "\<not> pc_holds (lk_pc s t)" "pc_holds pc" "lk_word s = 0"
    | (give) "pc_holds (lk_pc s t)" "\<not> pc_holds pc"
    by blast
  then show ?case
  proof cases
    case keep
    then have "{u. pc_holds (((lk_pc s)(t := pc)) u)} = {u. lk_holds s u}" by auto
    then show ?thesis by simp
  next
    case take
    with run.prems have "{u. lk_holds s u} = {}" by (auto simp: lock_excl_def states)
    moreover from this take have "{u. pc_holds (((lk_pc s)(t := pc)) u)} = {t}" by auto
    ultimately show ?thesis by (simp add: alock_step.take)
  next
    case give
    with run.prems have "{u. lk_holds s u} = {t}" by (auto simp: lock_excl_def states)
    moreover from this give have "{u. pc_holds (((lk_pc s)(t := pc)) u)} = {}" by auto
    ultimately show ?thesis by (simp add: alock_step.give)
  qed
next
  case (wake_one s t u pc)
  with lk_wakes_holds [OF wake_one.hyps(2)]
  have "{v. pc_holds (((lk_pc s)(t := LkIdle, u := pc)) v)} = {v. lk_holds s v}" by auto
  then show ?case by simp
next
  case (wake_none s t)
  then have "{v. pc_holds (((lk_pc s)(t := LkIdle)) v)} = {v. lk_holds s v}" by auto
  then show ?case by simp
next
  case (spurious s u pc)
  with lk_wakes_holds [OF spurious.hyps]
  have "{v. pc_holds (((lk_pc s)(u := pc)) v)} = {v. lk_holds s v}" by auto
  then show ?case by simp
qed

interpretation lk: mutex_contract "\<lambda>s. s = libsimple_lock_init" lock_step lock_inv lk_holds
proof unfold_locales
  show "lock_inv s" if "s = libsimple_lock_init" for s
    using that by (simp add: lock_inv_def inv_defs libsimple_lock_init_def states pc_holds_def
        pc_asleep_def)
  show "lock_inv t" if "lock_inv s" "lock_step s t" for s t
    using that lock_step_excl lock_step_wakeup by (auto simp: lock_inv_def)
  show "t = u" if "lock_inv s" "lk_holds s t" "lk_holds s u" for s t u
    using that by (auto simp: lock_inv_def lock_excl_def simp del: lk_holds_def)
qed

interpretation lka: step_simulation "\<lambda>s. s = libsimple_lock_init" lock_step lock_inv
  alock_step "\<lambda>s. {t. lk_holds s t}"
proof unfold_locales
  show "{u. lk_holds t u} = {u. lk_holds s u} \<or> alock_step {u. lk_holds s u} {u. lk_holds t u}"
    if "lock_inv s" "lock_step s t" for s t
    using that by (intro lock_step_sim) (simp_all add: lock_inv_def)
qed

section \<open>Properties\<close>

text \<open>C1. Mutual exclusion: in every interleaving of lock, slow lock, try-lock and unlock calls,
  with spurious wake-ups, at most one thread holds the lock at any time.\<close>

theorem libsimple_lock_mutual_exclusion:
  assumes "lock_step\<^sup>*\<^sup>* libsimple_lock_init s" and "lk_holds s t" and "lk_holds s u"
  shows "t = u"
  using assms by (intro lk.reachable_excl [of libsimple_lock_init s]) simp_all

definition lock_example :: "(tid \<times> lock_pc option) list" where
  "lock_example = [(0, Some LkFirst), (0, None), (1, Some LkFirst), (1, None), (1, None), (1, None)]"

lemma lock_example_run:
  "lock_sched libsimple_lock_init lock_example =
     Some \<lparr>lk_word = 2, lk_pc = (\<lambda>_. LkIdle)(0 := LkHeld, 1 := LkSleep)\<rparr>"
  by (simp add: lock_example_def libsimple_lock_init_def lock_local_simps fun_upd_twist)

theorem libsimple_lock_mutual_exclusion_witness:
  "\<exists>s. lock_step\<^sup>*\<^sup>* libsimple_lock_init s \<and> lk_holds s 0 \<and> (\<forall>u. lk_holds s u \<longrightarrow> u = 0)"
proof -
  let ?s = "\<lparr>lk_word = 2, lk_pc = (\<lambda>_. LkIdle)(0 := LkHeld, 1 := LkSleep)\<rparr>"
  have run: "lock_step\<^sup>*\<^sup>* libsimple_lock_init ?s" by (rule lock_sched_run [OF lock_example_run])
  have "lk_holds ?s 0" by (simp add: pc_holds_def)
  with run libsimple_lock_mutual_exclusion [OF run] show ?thesis by blast
qed

text \<open>C10. No lost wake-up: whenever a thread sleeps in the futex, some thread is bound to wake it
  or to take the lock with the word contended: the holder, whose unlock then reaches the
  wake call, a thread already at the wake call, or an awake contender.\<close>

theorem libsimple_lock_no_lost_wakeup:
  assumes "lock_step\<^sup>*\<^sup>* libsimple_lock_init s" and "pc_asleep (lk_pc s t)"
  shows "\<exists>u. (lk_holds s u \<and> libsimple_lock_unlock UnFirst (lk_word s) = Some (UnWake, 0)) \<or>
             lk_pc s u = UnWake \<or> pc_contends (lk_pc s u)"
proof -
  have "lock_inv s" using assms(1) by (intro lk.reachable_inv [of libsimple_lock_init]) simp_all
  with assms(2) show ?thesis
    by (auto simp: lock_inv_def lock_excl_def lock_wakeup_def states simp del: lk_holds_def)
qed

theorem libsimple_lock_no_lost_wakeup_witness:
  "\<exists>s. lock_step\<^sup>*\<^sup>* libsimple_lock_init s \<and> pc_asleep (lk_pc s 1) \<and>
     (\<exists>u. (lk_holds s u \<and> libsimple_lock_unlock UnFirst (lk_word s) = Some (UnWake, 0)) \<or>
             lk_pc s u = UnWake \<or> pc_contends (lk_pc s u))"
proof -
  let ?s = "\<lparr>lk_word = 2, lk_pc = (\<lambda>_. LkIdle)(0 := LkHeld, 1 := LkSleep)\<rparr>"
  have run: "lock_step\<^sup>*\<^sup>* libsimple_lock_init ?s" by (rule lock_sched_run [OF lock_example_run])
  have "pc_asleep (lk_pc ?s 1)" by (simp add: pc_asleep_def)
  with run libsimple_lock_no_lost_wakeup [OF run this] show ?thesis by blast
qed

text \<open>C31. Progress: a thread anywhere in a locking function that runs alone while the lock is free
  has the lock after at most three of its own atomic operations.\<close>

theorem libsimple_lock_solo_acquires:
  assumes "pc = LkFirst \<or> pc = TrFirst \<or> pc_contends pc"
  shows "\<exists>n \<le> 3. \<exists>w. lock_solo n pc libsimple_lock_state_unlocked = (LkHeld, w) \<and>
           w \<noteq> libsimple_lock_state_unlocked"
proof -
  have one: "\<exists>w. lock_solo 1 pc 0 = (LkHeld, w) \<and> w \<noteq> 0"
    if "pc \<in> {LkFirst, TrFirst, LkRetry, SlFirst}" for pc
    using that by (auto simp: lock_local_simps)
  have two: "\<exists>w. lock_solo 2 pc 0 = (LkHeld, w) \<and> w \<noteq> 0" if "pc \<in> {LkWait, SlWait}" for pc
    using that by (auto simp: lock_local_simps numeral_2_eq_2)
  have loop: "\<exists>n \<le> 3. \<exists>w. lock_solo n (LkLoop p) 0 = (LkHeld, w) \<and> w \<noteq> 0" for p
    by (rule exI [of _ "if p = 2 then 3 else 2"])
       (auto simp: lock_local_simps numeral_2_eq_2 numeral_3_eq_3)
  from assms consider "pc \<in> {LkFirst, TrFirst, LkRetry, SlFirst}" | "pc \<in> {LkWait, SlWait}"
    | p where "pc = LkLoop p"
    by (cases pc) auto
  then show ?thesis
  proof cases
    case 1
    from one [OF this] show ?thesis unfolding states by (intro exI [of _ 1]) simp
  next
    case 2
    from two [OF this] show ?thesis unfolding states by (intro exI [of _ 2]) simp
  next
    case 3
    with loop show ?thesis unfolding states by simp
  qed
qed

theorem libsimple_lock_solo_acquires_witness:
  "pc_contends LkWait \<and> (\<exists>n \<le> 3. \<exists>w. lock_solo n LkWait libsimple_lock_state_unlocked = (LkHeld, w) \<and>
     w \<noteq> libsimple_lock_state_unlocked)"
  using libsimple_lock_solo_acquires [of LkWait] by simp



end
