(* ===== verification/Futex_Once.thy ===== *)
theory Futex_Once
  imports Osxie_Prelude
begin

text \<open>
  \<open>libsimple_once\<close> of src/libsimple/src/lock.c: any number of threads call it on one once
  object; the callback is to run once, and no call is to return before it has. As for the
  lock, a program counter names a thread's next atomic operation, and the futex has its
  documented behaviour (\<open>FUTEX_WAKE\<close> with \<open>INT_MAX\<close> wakes every sleeper).
\<close>

section \<open>The function\<close>

definition libsimple_once_state_untriggered :: u32 where
  [states]: "libsimple_once_state_untriggered = 0"

definition libsimple_once_state_triggered_uncontended :: u32 where
  [states]: "libsimple_once_state_triggered_uncontended = 1"

definition libsimple_once_state_triggered_contended :: u32 where
  [states]: "libsimple_once_state_triggered_contended = 2"

definition libsimple_once_state_completed :: u32 where
  [states]: "libsimple_once_state_completed = 3"

text \<open>
  \<open>OnFirst\<close> is the first exchange, \<open>OnCallback\<close> and \<open>OnFinish\<close> the callback and the exchange
  after it, \<open>OnWake\<close> the wake call; \<open>OnLoop prev\<close> the switch of the waiting loop, \<open>OnWait\<close> its
  futex call and \<open>OnLoad\<close> the load after it.
\<close>

datatype once_pc =
    OnIdle | OnFirst | OnCallback | OnFinish | OnWake
  | OnLoop u32 | OnWait | OnSleep | OnLoad | OnDone

fun libsimple_once :: "once_pc \<Rightarrow> u32 \<Rightarrow> (once_pc \<times> u32) option" where
  "libsimple_once OnFirst st =
     (let (st', prev) = atomic_cas st libsimple_once_state_untriggered
                          libsimple_once_state_triggered_uncontended
      in Some (if prev = libsimple_once_state_untriggered then OnCallback else OnLoop prev, st'))"
| "libsimple_once OnCallback st = Some (OnFinish, st)"
| "libsimple_once OnFinish st =
     Some (if st = libsimple_once_state_triggered_contended then OnWake else OnDone,
           libsimple_once_state_completed)"
| "libsimple_once (OnLoop prev) st =
     (if prev = libsimple_once_state_completed then Some (OnDone, st)
      else if prev = libsimple_once_state_triggered_uncontended then
        let (st', cur) = atomic_cas st prev libsimple_once_state_triggered_contended
        in Some (if cur = prev then OnWait else OnLoop cur, st')
      else if prev = libsimple_once_state_triggered_contended then Some (OnWait, st)
      else Some (OnLoop prev, st))"
| "libsimple_once OnWait st =
     Some (if st = libsimple_once_state_triggered_contended then OnSleep else OnLoad, st)"
| "libsimple_once OnLoad st = Some (OnLoop st, st)"
| "libsimple_once _ st = None"

section \<open>Threads calling it\<close>

text \<open>\<open>on_runs\<close> counts the completed executions of the callback; it is no variable of the code.\<close>

record once_sys =
  on_word :: u32
  on_pc :: "tid \<Rightarrow> once_pc"
  on_runs :: nat

definition libsimple_once_init :: once_sys where
  "libsimple_once_init = \<lparr>on_word = 0, on_pc = (\<lambda>_. OnIdle), on_runs = 0\<rparr>"

definition once_move :: "once_sys \<Rightarrow> tid \<Rightarrow> once_pc \<Rightarrow> u32 \<Rightarrow> once_sys" where
  "once_move s t pc w = s\<lparr>on_word := w, on_pc := (on_pc s)(t := pc),
     on_runs := on_runs s + (if on_pc s t = OnCallback then 1 else 0)\<rparr>"

definition once_wake_all :: "once_sys \<Rightarrow> tid \<Rightarrow> once_sys" where
  "once_wake_all s t = s\<lparr>on_pc := (\<lambda>u. if on_pc s u = OnSleep then OnLoad else on_pc s u)(t := OnDone)\<rparr>"

inductive once_step :: "once_sys \<Rightarrow> once_sys \<Rightarrow> bool" where
  call: "on_pc s t \<in> {OnIdle, OnDone} \<Longrightarrow> once_step s (s\<lparr>on_pc := (on_pc s)(t := OnFirst)\<rparr>)"
| run: "libsimple_once (on_pc s t) (on_word s) = Some (pc, w) \<Longrightarrow> once_step s (once_move s t pc w)"
| wake_all: "on_pc s t = OnWake \<Longrightarrow> once_step s (once_wake_all s t)"
| spurious: "on_pc s u = OnSleep \<Longrightarrow> once_step s (s\<lparr>on_pc := (on_pc s)(u := OnLoad)\<rparr>)"

definition on_performs :: "once_pc \<Rightarrow> bool" where
  "on_performs pc \<longleftrightarrow> pc \<in> {OnCallback, OnFinish}"

text \<open>
  The invariant, by the value of the word: untriggered, nobody is past the first exchange;
  triggered, one thread performs the callback; completed, it has run once. A thread in the
  waiting loop knows a value the word has had since it was triggered.
\<close>

fun once_pc_ok :: "u32 \<Rightarrow> nat \<Rightarrow> once_pc \<Rightarrow> bool" where
  "once_pc_ok w r OnIdle = True"
| "once_pc_ok w r OnFirst = True"
| "once_pc_ok w r OnCallback = (w \<in> {1, 2} \<and> r = 0)"
| "once_pc_ok w r OnFinish = (w \<in> {1, 2} \<and> r = 1)"
| "once_pc_ok w r OnWake = (w = 3)"
| "once_pc_ok w r (OnLoop p) = (w \<noteq> 0 \<and> p \<in> {1, 2, 3} \<and> (p = 3 \<longrightarrow> w = 3) \<and> (p = 2 \<longrightarrow> w \<noteq> 1))"
| "once_pc_ok w r OnWait = (w \<in> {2, 3})"
| "once_pc_ok w r OnSleep = (w \<in> {2, 3})"
| "once_pc_ok w r OnLoad = (w \<noteq> 0)"
| "once_pc_ok w r OnDone = (w = 3)"

definition once_inv :: "once_sys \<Rightarrow> bool" where
  "once_inv s \<longleftrightarrow> on_word s \<in> {0, 1, 2, 3} \<and>
     (\<forall>t. once_pc_ok (on_word s) (on_runs s) (on_pc s t)) \<and>
     (on_word s \<in> {1, 2} \<longrightarrow> (\<exists>t. on_performs (on_pc s t))) \<and>
     (\<forall>t u. on_performs (on_pc s t) \<longrightarrow> on_performs (on_pc s u) \<longrightarrow> t = u) \<and>
     (on_word s = 0 \<longrightarrow> on_runs s = 0) \<and> (on_word s = 3 \<longrightarrow> on_runs s = 1) \<and>
     ((\<exists>t. on_pc s t = OnSleep) \<longrightarrow> on_word s = 2 \<or> (\<exists>u. on_pc s u = OnWake))"

text \<open>
  An executable schedule: \<open>(t, True)\<close> lets thread \<open>t\<close> call the function, \<open>(t, False)\<close> run its
  next operation.
\<close>

fun once_sched :: "once_sys \<Rightarrow> (tid \<times> bool) list \<Rightarrow> once_sys option" where
  "once_sched s [] = Some s"
| "once_sched s ((t, True) # as) =
     (if on_pc s t \<in> {OnIdle, OnDone} then once_sched (s\<lparr>on_pc := (on_pc s)(t := OnFirst)\<rparr>) as
      else None)"
| "once_sched s ((t, False) # as) =
     (if on_pc s t = OnWake then once_sched (once_wake_all s t) as
      else case libsimple_once (on_pc s t) (on_word s) of
        Some (pc, w) \<Rightarrow> once_sched (once_move s t pc w) as
      | None \<Rightarrow> None)"

text \<open>A thread running alone: its next \<open>n\<close> operations.\<close>

fun once_solo :: "nat \<Rightarrow> once_pc \<Rightarrow> u32 \<Rightarrow> once_pc \<times> u32" where
  "once_solo 0 pc w = (pc, w)"
| "once_solo (Suc n) pc w =
     (case libsimple_once pc w of Some (pc', w') \<Rightarrow> once_solo n pc' w' | None \<Rightarrow> (pc, w))"

section \<open>Every step keeps the invariant\<close>

lemma once_invI:
  assumes "w \<in> {0, 1, 2, 3}" and "\<And>t. once_pc_ok w r (f t)"
    and "w \<in> {1, 2} \<Longrightarrow> \<exists>t. on_performs (f t)"
    and "\<And>t u. on_performs (f t) \<Longrightarrow> on_performs (f u) \<Longrightarrow> t = u"
    and "w = 0 \<Longrightarrow> r = 0" and "w = 3 \<Longrightarrow> r = 1"
    and "\<And>t. f t = OnSleep \<Longrightarrow> w = 2 \<or> (\<exists>u. f u = OnWake)"
  shows "once_inv \<lparr>on_word = w, on_pc = f, on_runs = r\<rparr>"
  using assms unfolding once_inv_def once_sys.simps by blast

lemma once_invD:
  assumes "once_inv s"
  shows "on_word s \<in> {0, 1, 2, 3}"
    and "once_pc_ok (on_word s) (on_runs s) (on_pc s t)"
    and "on_word s \<in> {1, 2} \<Longrightarrow> \<exists>t. on_performs (on_pc s t)"
    and "on_performs (on_pc s t) \<Longrightarrow> on_performs (on_pc s u) \<Longrightarrow> t = u"
    and "on_word s = 0 \<Longrightarrow> on_runs s = 0" and "on_word s = 3 \<Longrightarrow> on_runs s = 1"
    and "on_pc s t = OnSleep \<Longrightarrow> on_word s = 2 \<or> (\<exists>u. on_pc s u = OnWake)"
  using assms unfolding once_inv_def by blast+

lemma once_pc_ok_mono:
  assumes "once_pc_ok w r pc" and "\<not> on_performs pc"
    and "(w, w') \<in> {(0, 1), (1, 2), (1, 3), (2, 3)} \<or> w' = w"
  shows "once_pc_ok w' r' pc"
  using assms by (cases pc) (auto simp: on_performs_def)

lemma on_performs_simps [simp]:
  "\<not> on_performs OnIdle" "\<not> on_performs OnFirst" "on_performs OnCallback" "on_performs OnFinish"
  "\<not> on_performs OnWake" "\<not> on_performs (OnLoop p)" "\<not> on_performs OnWait"
  "\<not> on_performs OnSleep" "\<not> on_performs OnLoad" "\<not> on_performs OnDone"
  by (simp_all add: on_performs_def)

text \<open>
  One lemma per kind of step: a move of a thread that does not perform the callback; the
  exchange that starts it; the first waiter; the callback itself; the exchange that ends it.
\<close>

lemma once_move_quiet:
  assumes inv: "once_inv s" and "\<not> on_performs (on_pc s t)" and "on_pc s t \<noteq> OnWake"
    and "\<not> on_performs pc" and "once_pc_ok (on_word s) (on_runs s) pc"
    and "pc = OnSleep \<Longrightarrow> on_word s = 2"
  shows "once_inv (s\<lparr>on_pc := (on_pc s)(t := pc)\<rparr>)"
proof -
  have eq: "s\<lparr>on_pc := (on_pc s)(t := pc)\<rparr> =
      \<lparr>on_word = on_word s, on_pc = (on_pc s)(t := pc), on_runs = on_runs s\<rparr>" by simp
  show ?thesis unfolding eq
  proof (rule once_invI)
    show "\<exists>u. on_performs (((on_pc s)(t := pc)) u)" if "on_word s \<in> {1, 2}"
      using once_invD(3) [OF inv that] assms(2) by (metis fun_upd_other)
    show "on_word s = 2 \<or> (\<exists>v. ((on_pc s)(t := pc)) v = OnWake)"
      if "((on_pc s)(t := pc)) u = OnSleep" for u
      using that once_invD(7) [OF inv, of u] assms(3,6) by (metis fun_upd_apply)
  qed (use once_invD [OF inv] assms(2,4,5) in \<open>auto split: if_splits\<close>)
qed

lemma once_move_start:
  assumes inv: "once_inv s" and "on_word s = 0" and "on_pc s t = OnFirst"
  shows "once_inv (once_move s t OnCallback 1)"
proof -
  have quiet: "\<not> on_performs (on_pc s u) \<and> on_pc s u \<noteq> OnSleep" for u
    using once_invD(2) [OF inv, of u] assms(2) by (cases "on_pc s u") auto
  have eq: "once_move s t OnCallback 1 =
      \<lparr>on_word = 1, on_pc = (on_pc s)(t := OnCallback), on_runs = 0\<rparr>"
    using assms once_invD(5) [OF inv] by (simp add: once_move_def)
  show ?thesis unfolding eq
  proof (rule once_invI)
    show "once_pc_ok 1 0 (((on_pc s)(t := OnCallback)) u)" for u
      using once_pc_ok_mono [OF once_invD(2) [OF inv, of u], of 1 0] quiet [of u] assms(2) by simp
  qed (use quiet in \<open>auto split: if_splits\<close>)
qed

lemma once_move_contend:
  assumes inv: "once_inv s" and "on_word s = 1" and "on_pc s t = OnLoop 1"
  shows "once_inv (once_move s t OnWait 2)"
proof -
  have eq: "once_move s t OnWait 2 =
      \<lparr>on_word = 2, on_pc = (on_pc s)(t := OnWait), on_runs = on_runs s\<rparr>"
    using assms by (simp add: once_move_def)
  have ok: "once_pc_ok 2 (on_runs s) (on_pc s u)" for u
    using once_invD(2) [OF inv, of u] assms(2) by (cases "on_pc s u") auto
  show ?thesis unfolding eq
  proof (rule once_invI)
    show "\<exists>u. on_performs (((on_pc s)(t := OnWait)) u)"
      using once_invD(3) [OF inv] assms(2,3) by (metis fun_upd_other insertI1 on_performs_simps(6))
  qed (use ok once_invD(4) [OF inv] in \<open>auto split: if_splits\<close>)
qed

lemma once_move_callback:
  assumes inv: "once_inv s" and "on_pc s t = OnCallback"
  shows "once_inv (once_move s t OnFinish (on_word s))"
proof -
  from once_invD(2) [OF inv, of t] assms(2) have w: "on_word s \<in> {1, 2}" "on_runs s = 0" by auto
  have eq: "once_move s t OnFinish (on_word s) =
      \<lparr>on_word = on_word s, on_pc = (on_pc s)(t := OnFinish), on_runs = 1\<rparr>"
    using assms w by (simp add: once_move_def)
  have only: "\<not> on_performs (on_pc s u)" if "u \<noteq> t" for u
    using once_invD(4) [OF inv, of t u] assms(2) that by auto
  have ok: "once_pc_ok (on_word s) 1 (on_pc s u)" if "u \<noteq> t" for u
    using once_pc_ok_mono [OF once_invD(2) [OF inv, of u]] only [OF that] by blast
  show ?thesis unfolding eq
  proof (rule once_invI)
    show "on_word s = 2 \<or> (\<exists>v. ((on_pc s)(t := OnFinish)) v = OnWake)"
      if "((on_pc s)(t := OnFinish)) u = OnSleep" for u
    proof -
      from that assms(2) have "on_pc s u = OnSleep" by (simp split: if_splits)
      then have "on_word s \<in> {2, 3}" using once_invD(2) [OF inv, of u] by simp
      with w show ?thesis by auto
    qed
    show "\<exists>u. on_performs (((on_pc s)(t := OnFinish)) u)" by (rule exI [of _ t]) simp
  qed (use w only ok in \<open>auto split: if_splits\<close>)
qed

lemma once_move_finish:
  assumes inv: "once_inv s" and "on_pc s t = OnFinish"
  shows "once_inv (once_move s t (if on_word s = 2 then OnWake else OnDone) 3)"
proof -
  from once_invD(2) [OF inv, of t] assms(2) have w: "on_word s \<in> {1, 2}" "on_runs s = 1" by auto
  let ?pc = "if on_word s = 2 then OnWake else OnDone"
  have eq: "once_move s t ?pc 3 =
      \<lparr>on_word = 3, on_pc = (on_pc s)(t := ?pc), on_runs = 1\<rparr>"
    using assms w by (simp add: once_move_def)
  have only: "\<not> on_performs (on_pc s u)" if "u \<noteq> t" for u
    using once_invD(4) [OF inv, of t u] assms(2) that by auto
  have ok: "once_pc_ok 3 1 (on_pc s u)" if "u \<noteq> t" for u
    using once_pc_ok_mono [OF once_invD(2) [OF inv, of u] only [OF that]] w by auto
  have nowake: "on_pc s u \<noteq> OnWake" for u
    using once_invD(2) [OF inv, of u] w by auto
  show ?thesis unfolding eq
  proof (rule once_invI)
    show "(3::u32) = 2 \<or> (\<exists>v. ((on_pc s)(t := ?pc)) v = OnWake)"
      if "((on_pc s)(t := ?pc)) u = OnSleep" for u
    proof -
      from that have "on_pc s u = OnSleep" by (auto split: if_splits)
      with once_invD(7) [OF inv, of u] nowake have "on_word s = 2" by auto
      then show ?thesis by auto
    qed
  qed (use only ok in \<open>auto split: if_splits\<close>)
qed

lemma once_wake_all_inv:
  assumes inv: "once_inv s" and "on_pc s t = OnWake"
  shows "once_inv (once_wake_all s t)"
proof -
  from once_invD(2) [OF inv, of t] assms(2) have w: "on_word s = 3" by simp
  let ?f = "(\<lambda>u. if on_pc s u = OnSleep then OnLoad else on_pc s u)(t := OnDone)"
  have eq: "once_wake_all s t = \<lparr>on_word = 3, on_pc = ?f, on_runs = 1\<rparr>"
    using w once_invD(6) [OF inv] by (simp add: once_wake_all_def)
  have ok: "once_pc_ok 3 1 (on_pc s u)" for u
    using once_invD(2) [OF inv, of u] w once_invD(6) [OF inv] by simp
  have quiet: "\<not> on_performs (on_pc s u)" for u
    using ok [of u] by (cases "on_pc s u") auto
  show ?thesis unfolding eq
  proof (rule once_invI)
    show "once_pc_ok 3 1 (?f u)" for u using ok [of u] by simp
    show "t = u" if "on_performs (?f t)" "on_performs (?f u)" for t u
      using that quiet by (auto split: if_splits)
  qed (auto split: if_splits)
qed

lemma once_local_inv:
  assumes inv: "once_inv s" and run: "libsimple_once (on_pc s t) (on_word s) = Some (pc, w)"
  shows "once_inv (once_move s t pc w)"
proof -
  have quiet: ?thesis
    if "w = on_word s" "\<not> on_performs (on_pc s t)" "\<not> on_performs pc"
      "once_pc_ok (on_word s) (on_runs s) pc" "pc = OnSleep \<Longrightarrow> on_word s = 2"
  proof -
    have "on_pc s t \<noteq> OnWake" using run by auto
    moreover have "once_move s t pc w = s\<lparr>on_pc := (on_pc s)(t := pc)\<rparr>"
      using that(1,2) by (auto simp: once_move_def)
    ultimately show ?thesis using once_move_quiet [OF inv that(2) _ that(3,4)] that(5) by simp
  qed
  note ok = once_invD(1) [OF inv] once_invD(2) [OF inv, of t]
  show ?thesis
  proof (cases "on_pc s t")
    case OnFirst
    show ?thesis
    proof (cases "on_word s = 0")
      case True
      with OnFirst run once_move_start [OF inv True OnFirst] show ?thesis
        by (simp add: states atomics)
    next
      case False
      with OnFirst run ok show ?thesis by (intro quiet) (auto simp: states atomics)
    qed
  next
    case OnCallback
    with run once_move_callback [OF inv OnCallback] show ?thesis by simp
  next
    case OnFinish
    with run once_move_finish [OF inv OnFinish] show ?thesis by (auto simp: states)
  next
    case (OnLoop p)
    show ?thesis
    proof (cases "p = 1 \<and> on_word s = 1")
      case True
      with OnLoop run once_move_contend [OF inv, of t] show ?thesis by (simp add: states atomics)
    next
      case False
      with OnLoop run ok show ?thesis
        by (intro quiet) (auto simp: states atomic_cas_def split: if_splits)
    qed
  next
    case OnWait
    with run ok show ?thesis by (intro quiet) (auto simp: states split: if_splits)
  next
    case OnLoad
    with run ok show ?thesis by (intro quiet) auto
  qed (use run in auto)
qed

lemma once_step_inv: "once_step s s' \<Longrightarrow> once_inv s \<Longrightarrow> once_inv s'"
proof (induction rule: once_step.induct)
  case (call s t)
  then show ?case by (intro once_move_quiet) auto
next
  case (run s t pc w)
  then show ?case by (intro once_local_inv)
next
  case (wake_all s t)
  then show ?case by (intro once_wake_all_inv)
next
  case (spurious s u)
  from once_invD(2) [OF spurious.prems, of u] spurious.hyps have "on_word s \<noteq> 0" by auto
  with spurious show ?case by (intro once_move_quiet) auto
qed

interpretation once: mutex_contract "\<lambda>s. s = libsimple_once_init" once_step once_inv
  "\<lambda>s t. on_performs (on_pc s t)"
proof unfold_locales
  show "once_inv s" if "s = libsimple_once_init" for s
    unfolding that libsimple_once_init_def by (intro once_invI) simp_all
  show "once_inv t" if "once_inv s" "once_step s t" for s t
    using that by (blast intro: once_step_inv)
  show "t = u" if "once_inv s" "on_performs (on_pc s t)" "on_performs (on_pc s u)" for s t u
    using once_invD(4) [OF that] .
qed

lemma once_sched_run: "once_sched s as = Some s' \<Longrightarrow> once_step\<^sup>*\<^sup>* s s'"
proof (induction s as rule: once_sched.induct)
  case (2 s t as)
  then show ?case
    by (auto split: if_splits intro: converse_rtranclp_into_rtranclp once_step.call)
next
  case (3 s t as)
  then show ?case
    by (auto split: if_splits option.splits prod.splits
        intro: converse_rtranclp_into_rtranclp once_step.run once_step.wake_all)
qed simp

section \<open>Properties\<close>

text \<open>C13. Exactly once: in every interleaving, at most one thread is performing the callback, the
  callback has completed at most once, and when any call of \<open>libsimple_once\<close> has returned it
  has completed exactly once and nobody is performing it.\<close>

theorem libsimple_once_exactly_once:
  assumes "once_step\<^sup>*\<^sup>* libsimple_once_init s"
  shows "on_runs s \<le> 1 \<and>
         (\<forall>t u. on_performs (on_pc s t) \<longrightarrow> on_performs (on_pc s u) \<longrightarrow> t = u) \<and>
         (\<forall>t. on_pc s t = OnDone \<longrightarrow> on_runs s = 1 \<and> (\<forall>u. \<not> on_performs (on_pc s u)))"
proof -
  have inv: "once_inv s" using once.reachable_inv [OF refl assms] .
  have "on_runs s \<le> 1"
  proof (cases "on_word s \<in> {1, 2}")
    case True
    then obtain u where "on_performs (on_pc s u)" using once_invD(3) [OF inv] by blast
    with once_invD(2) [OF inv, of u] show ?thesis by (cases "on_pc s u") auto
  next
    case False
    with once_invD(1,5,6) [OF inv] show ?thesis by auto
  qed
  moreover have "on_runs s = 1 \<and> \<not> on_performs (on_pc s u)" if "on_pc s t = OnDone" for t u
  proof -
    have w: "on_word s = 3" using once_invD(2) [OF inv, of t] that by simp
    with once_invD(2) [OF inv, of u] once_invD(6) [OF inv] show ?thesis
      by (cases "on_pc s u") auto
  qed
  ultimately show ?thesis using once_invD(4) [OF inv] by blast
qed

definition once_example :: "(tid \<times> bool) list" where
  "once_example = [(0, True), (0, False), (1, True), (1, False), (1, False), (1, False)]"

lemma once_example_run:
  "once_sched libsimple_once_init once_example =
     Some \<lparr>on_word = 2, on_pc = (\<lambda>_. OnIdle)(0 := OnCallback, 1 := OnSleep), on_runs = 0\<rparr>"
  by (simp add: once_example_def libsimple_once_init_def once_move_def states atomics fun_upd_twist)

lemma once_example_done:
  "once_sched libsimple_once_init
     (once_example @ [(0, False), (0, False), (0, False), (1, False), (1, False)]) =
     Some \<lparr>on_word = 3, on_pc = (\<lambda>_. OnIdle)(0 := OnDone, 1 := OnDone), on_runs = 1\<rparr>"
  by (simp add: once_example_def libsimple_once_init_def once_move_def once_wake_all_def
      states atomics fun_eq_iff)

theorem libsimple_once_exactly_once_witness:
  "\<exists>s. once_step\<^sup>*\<^sup>* libsimple_once_init s \<and> on_pc s 1 = OnDone \<and> on_runs s = 1 \<and>
     (\<forall>u. \<not> on_performs (on_pc s u))"
proof -
  let ?s = "\<lparr>on_word = 3, on_pc = (\<lambda>_. OnIdle)(0 := OnDone, 1 := OnDone), on_runs = 1\<rparr>"
  have run: "once_step\<^sup>*\<^sup>* libsimple_once_init ?s" by (rule once_sched_run [OF once_example_done])
  have "on_pc ?s 1 = OnDone" by simp
  with run libsimple_once_exactly_once [OF run] show ?thesis by blast
qed

text \<open>C27. No waiter is forgotten: while a thread sleeps in the futex, either a thread is performing
  the callback with the word contended, so that its final exchange leads to the wake call, or
  a thread is at the wake call. Once the word is completed, every other thread inside the
  function returns after at most four of its own operations.\<close>

theorem libsimple_once_waiters_return:
  assumes "once_step\<^sup>*\<^sup>* libsimple_once_init s"
  shows "(on_pc s t = OnSleep \<longrightarrow>
            (\<exists>u. on_performs (on_pc s u) \<and> libsimple_once OnFinish (on_word s) = Some (OnWake, 3)) \<or>
            (\<exists>u. on_pc s u = OnWake)) \<and>
         (on_word s = 3 \<and> on_pc s t \<notin> {OnIdle, OnSleep, OnWake} \<longrightarrow>
            once_solo 4 (on_pc s t) 3 = (OnDone, 3))"
proof -
  have inv: "once_inv s" using once.reachable_inv [OF refl assms] .
  have "(\<exists>u. on_performs (on_pc s u) \<and> libsimple_once OnFinish (on_word s) = Some (OnWake, 3)) \<or>
        (\<exists>u. on_pc s u = OnWake)" if "on_pc s t = OnSleep"
    using once_invD(7) [OF inv that] once_invD(3) [OF inv] by (auto simp: states)
  moreover have "once_solo 4 (on_pc s t) 3 = (OnDone, 3)"
    if "on_word s = 3" "on_pc s t \<notin> {OnIdle, OnSleep, OnWake}"
    using once_invD(2) [OF inv, of t] that
    by (cases "on_pc s t") (auto simp: states atomic_cas_def eval_nat_numeral)
  ultimately show ?thesis by blast
qed

theorem libsimple_once_waiters_return_witness:
  "\<exists>s. once_step\<^sup>*\<^sup>* libsimple_once_init s \<and> on_pc s 1 = OnSleep \<and>
     (\<exists>u. on_performs (on_pc s u) \<and> libsimple_once OnFinish (on_word s) = Some (OnWake, 3))"
proof -
  let ?s = "\<lparr>on_word = 2, on_pc = (\<lambda>_. OnIdle)(0 := OnCallback, 1 := OnSleep), on_runs = 0\<rparr>"
  have run: "once_step\<^sup>*\<^sup>* libsimple_once_init ?s" by (rule once_sched_run [OF once_example_run])
  have "on_pc ?s 1 = OnSleep" "\<And>u. on_pc ?s u \<noteq> OnWake" by auto
  with run libsimple_once_waiters_return [OF run, of 1] show ?thesis by blast
qed

end
