(* ===== verification/Futex_RWLock.thy ===== *)
theory Futex_RWLock
  imports Osxie_Prelude
begin

text \<open>
  \<open>libsimple_rwlock\<close> of src/libsimple/src/lock.c: one 32-bit word with a count of readers,
  a bit for a writer (30) and a bit that asks whoever unlocks to wake sleepers (31). The
  functions are cut at their atomic operations and futex calls as for the lock. Weak
  exchanges may fail on equality, sleeps may end for no reason, and \<open>FUTEX_WAKE_BITSET\<close>
  wakes sleepers of the class (readers or writers) it is given.
\<close>

section \<open>The functions\<close>

definition libsimple_rwlock_bit_locked_write :: u32 where
  "libsimple_rwlock_bit_locked_write = push_bit 30 1"

definition libsimple_rwlock_bit_need_to_wake :: u32 where
  "libsimple_rwlock_bit_need_to_wake = push_bit 31 1"

abbreviation LW :: u32 where "LW \<equiv> libsimple_rwlock_bit_locked_write"

abbreviation NW :: u32 where "NW \<equiv> libsimple_rwlock_bit_need_to_wake"

text \<open>
  Readers: \<open>RdLoad\<close>, the loop with its local \<open>state2\<close>, the futex wait and the sleep (class
  \<open>libsimple_rwlock_bit_reader\<close>); \<open>Tr\<close> is the try-lock; \<open>Ur\<close> the unlock with the exchange and
  the wake call of the last reader. Writers likewise, \<open>Uw\<close> with its two wake calls.
\<close>

datatype rw_pc =
    RwIdle | RwReading | RwWriting
  | RdLoad | RdLoop u32 | RdWait u32 | RdSleep | TrLoad | TrCas u32
  | UrSub | UrClear | UrWake
  | WrFirst | WrLoop u32 | WrWait u32 | WrSleep | TwFirst
  | UwXchg | UwWakeR | UwWakeW

fun libsimple_rwlock_lock_read :: "rw_pc \<Rightarrow> u32 \<Rightarrow> (rw_pc \<times> u32) option" where
  "libsimple_rwlock_lock_read RdLoad st = Some (RdLoop st, st)"
| "libsimple_rwlock_lock_read (RdLoop state2) st =
     (if state2 AND (LW OR NW) = 0 then
        let (st', cur) = atomic_cas st state2 (state2 + 1)
        in Some (if cur = state2 then RwReading else RdLoop cur, st')
      else if state2 AND NW = 0 then
        let (st', cur) = atomic_cas st state2 (LW OR NW)
        in Some (if cur = state2 then RdWait (LW OR NW) else RdLoop cur, st')
      else Some (RdWait state2, st))"
| "libsimple_rwlock_lock_read (RdWait state2) st = Some (if st = state2 then RdSleep else RdLoop 0, st)"
| "libsimple_rwlock_lock_read _ st = None"

fun libsimple_rwlock_try_lock_read :: "rw_pc \<Rightarrow> u32 \<Rightarrow> (rw_pc \<times> u32) option" where
  "libsimple_rwlock_try_lock_read TrLoad st =
     Some (if st AND (LW OR NW) \<noteq> 0 then RwIdle else TrCas st, st)"
| "libsimple_rwlock_try_lock_read (TrCas state2) st =
     (let (st', cur) = atomic_cas st state2 (state2 + 1)
      in Some (if cur = state2 then RwReading else RwIdle, st'))"
| "libsimple_rwlock_try_lock_read _ st = None"

fun libsimple_rwlock_unlock_read :: "rw_pc \<Rightarrow> u32 \<Rightarrow> (rw_pc \<times> u32) option" where
  "libsimple_rwlock_unlock_read UrSub st =
     (let count = st AND NOT NW
      in Some (if count = 1 \<and> st AND NW \<noteq> 0 then UrClear else RwIdle, st - 1))"
| "libsimple_rwlock_unlock_read UrClear st = Some (UrWake, fst (atomic_cas st NW 0))"
| "libsimple_rwlock_unlock_read _ st = None"

fun libsimple_rwlock_lock_write :: "rw_pc \<Rightarrow> u32 \<Rightarrow> (rw_pc \<times> u32) option" where
  "libsimple_rwlock_lock_write WrFirst st =
     (let (st', cur) = atomic_cas st 0 LW
      in Some (if cur = 0 then RwWriting else WrLoop cur, st'))"
| "libsimple_rwlock_lock_write (WrLoop state2) st =
     (if state2 AND NOT NW = 0 then
        let (st', cur) = atomic_cas st state2 (LW OR NW)
        in Some (if cur = state2 then RwWriting else WrLoop cur, st')
      else if state2 AND NW = 0 then
        let (st', cur) = atomic_cas st state2 (state2 OR NW)
        in Some (if cur = state2 then WrWait (state2 OR NW) else WrLoop cur, st')
      else Some (WrWait state2, st))"
| "libsimple_rwlock_lock_write (WrWait state2) st = Some (if st = state2 then WrSleep else WrLoop 0, st)"
| "libsimple_rwlock_lock_write _ st = None"

fun libsimple_rwlock_try_lock_write :: "rw_pc \<Rightarrow> u32 \<Rightarrow> (rw_pc \<times> u32) option" where
  "libsimple_rwlock_try_lock_write TwFirst st =
     (let (st', cur) = atomic_cas st 0 LW in Some (if cur = 0 then RwWriting else RwIdle, st'))"
| "libsimple_rwlock_try_lock_write _ st = None"

fun libsimple_rwlock_unlock_write :: "rw_pc \<Rightarrow> u32 \<Rightarrow> (rw_pc \<times> u32) option" where
  "libsimple_rwlock_unlock_write UwXchg st = Some (if st AND NW \<noteq> 0 then UwWakeR else RwIdle, 0)"
| "libsimple_rwlock_unlock_write _ st = None"

section \<open>Threads using the lock\<close>

definition rw_local :: "rw_pc \<Rightarrow> u32 \<Rightarrow> (rw_pc \<times> u32) option" where
  "rw_local pc st =
     (case libsimple_rwlock_lock_read pc st of Some r \<Rightarrow> Some r
      | None \<Rightarrow> (case libsimple_rwlock_try_lock_read pc st of Some r \<Rightarrow> Some r
      | None \<Rightarrow> (case libsimple_rwlock_unlock_read pc st of Some r \<Rightarrow> Some r
      | None \<Rightarrow> (case libsimple_rwlock_lock_write pc st of Some r \<Rightarrow> Some r
      | None \<Rightarrow> (case libsimple_rwlock_try_lock_write pc st of Some r \<Rightarrow> Some r
      | None \<Rightarrow> libsimple_rwlock_unlock_write pc st)))))"

text \<open>The weak exchanges of \<open>lock_read\<close> and \<open>unlock_read\<close>, failing although the value matches.\<close>

fun rw_weak_fail :: "rw_pc \<Rightarrow> u32 \<Rightarrow> rw_pc option" where
  "rw_weak_fail (RdLoop state2) st =
     (if state2 AND (LW OR NW) \<noteq> 0 \<and> state2 AND NW = 0 then Some (RdLoop st) else None)"
| "rw_weak_fail UrClear st = Some UrWake"
| "rw_weak_fail _ st = None"

text \<open>What a thread outside the functions may call, by whether it has the lock and how.\<close>

fun rw_call :: "rw_pc \<Rightarrow> rw_pc \<Rightarrow> bool" where
  "rw_call RwIdle pc \<longleftrightarrow> pc \<in> {RdLoad, TrLoad, WrFirst, TwFirst}"
| "rw_call RwReading pc \<longleftrightarrow> pc = UrSub"
| "rw_call RwWriting pc \<longleftrightarrow> pc = UwXchg"
| "rw_call _ _ = False"

record rw_sys =
  rw_word :: u32
  rw_pc :: "tid \<Rightarrow> rw_pc"

definition libsimple_rwlock_init :: rw_sys where
  "libsimple_rwlock_init = \<lparr>rw_word = 0, rw_pc = (\<lambda>_. RwIdle)\<rparr>"

text \<open>Linux has at most this many threads (\<open>PID_MAX_LIMIT\<close>); the reader count has 30 bits.\<close>

definition rw_max_threads :: nat where
  "rw_max_threads = 2 ^ 22"

inductive rw_step :: "rw_sys \<Rightarrow> rw_sys \<Rightarrow> bool" where
  call: "rw_call (rw_pc s t) pc \<Longrightarrow> t < rw_max_threads \<Longrightarrow> rw_step s (s\<lparr>rw_pc := (rw_pc s)(t := pc)\<rparr>)"
| run: "rw_local (rw_pc s t) (rw_word s) = Some (pc, w) \<Longrightarrow>
     rw_step s (s\<lparr>rw_word := w, rw_pc := (rw_pc s)(t := pc)\<rparr>)"
| weak: "rw_weak_fail (rw_pc s t) (rw_word s) = Some pc \<Longrightarrow>
     rw_step s (s\<lparr>rw_pc := (rw_pc s)(t := pc)\<rparr>)"
| wake_readers: "rw_pc s t = UwWakeR \<Longrightarrow>
     rw_step s (s\<lparr>rw_pc := (\<lambda>u. if rw_pc s u = RdSleep then RdLoop 0 else rw_pc s u)(t := UwWakeW)\<rparr>)"
| wake_writer: "rw_pc s t \<in> {UrWake, UwWakeW} \<Longrightarrow> rw_pc s u = WrSleep \<Longrightarrow>
     rw_step s (s\<lparr>rw_pc := (rw_pc s)(u := WrLoop 0, t := RwIdle)\<rparr>)"
| wake_none: "rw_pc s t \<in> {UrWake, UwWakeW} \<Longrightarrow> \<forall>u. rw_pc s u \<noteq> WrSleep \<Longrightarrow>
     rw_step s (s\<lparr>rw_pc := (rw_pc s)(t := RwIdle)\<rparr>)"
| spurious_read: "rw_pc s u = RdSleep \<Longrightarrow> rw_step s (s\<lparr>rw_pc := (rw_pc s)(u := RdLoop 0)\<rparr>)"
| spurious_write: "rw_pc s u = WrSleep \<Longrightarrow> rw_step s (s\<lparr>rw_pc := (rw_pc s)(u := WrLoop 0)\<rparr>)"

text \<open>An executable schedule: a call, or the next operation of a thread.\<close>

fun rw_sched :: "rw_sys \<Rightarrow> (tid \<times> rw_pc option) list \<Rightarrow> rw_sys option" where
  "rw_sched s [] = Some s"
| "rw_sched s ((t, Some pc) # as) =
     (if rw_call (rw_pc s t) pc \<and> t < rw_max_threads
      then rw_sched (s\<lparr>rw_pc := (rw_pc s)(t := pc)\<rparr>) as else None)"
| "rw_sched s ((t, None) # as) =
     (case rw_local (rw_pc s t) (rw_word s) of
        Some (pc, w) \<Rightarrow> rw_sched (s\<lparr>rw_word := w, rw_pc := (rw_pc s)(t := pc)\<rparr>) as
      | None \<Rightarrow> None)"

section \<open>The word as a count and two flags\<close>

definition rw_enc :: "nat \<Rightarrow> bool \<Rightarrow> bool \<Rightarrow> u32" where
  "rw_enc n a b = of_nat n + (if a then LW else 0) + (if b then NW else 0)"

lemma rw_bits [simp]: "bit LW i \<longleftrightarrow> i = 30" "bit NW i \<longleftrightarrow> i = 31"
  unfolding libsimple_rwlock_bit_locked_write_def libsimple_rwlock_bit_need_to_wake_def bit_push_one
  by simp_all

lemma bit_count: "n < 2 ^ 30 \<Longrightarrow> bit (of_nat n :: u32) i \<longleftrightarrow> i < 30 \<and> bit n i"
  using bit_nat_less [of n 30 i] by (auto simp: bit_of_nat_iff)

lemma rw_enc_or:
  assumes "n < 2 ^ 30"
  shows "rw_enc n a b = of_nat n OR (if a then LW else 0) OR (if b then NW else 0)"
proof -
  have "of_nat n AND LW = 0" and "(of_nat n OR (if a then LW else 0)) AND NW = 0"
    by (auto simp: and_eq_0_iff bit_or_iff bit_count [OF assms])
  then show ?thesis unfolding rw_enc_def by (auto simp: disjunctive_add_eq_or or.assoc)
qed

lemma bit_rw_enc:
  assumes "n < 2 ^ 30"
  shows "bit (rw_enc n a b) i \<longleftrightarrow> (i < 30 \<and> bit n i) \<or> (a \<and> i = 30) \<or> (b \<and> i = 31)"
  by (auto simp: rw_enc_or [OF assms] bit_or_iff bit_count [OF assms])

lemma rw_enc_tests:
  assumes n: "n < 2 ^ 30"
  shows "rw_enc n a b AND (LW OR NW) = 0 \<longleftrightarrow> \<not> a \<and> \<not> b"
    and "rw_enc n a b AND NW = 0 \<longleftrightarrow> \<not> b"
    and "rw_enc n a b AND NOT NW = rw_enc n a False"
    and "rw_enc n a b OR NW = rw_enc n a True"
  by (auto simp: and_eq_0_iff bit_rw_enc [OF n] bit_or_iff)
     (rule bit_eqI; auto simp: bit_rw_enc [OF n] bit_or_iff bit_and_iff bit_not_iff)+

lemma rw_enc_eq_iff:
  assumes n: "n < 2 ^ 30" and n': "n' < 2 ^ 30"
  shows "rw_enc n a b = rw_enc n' a' b' \<longleftrightarrow> n = n' \<and> a = a' \<and> b = b'"
proof
  assume "rw_enc n a b = rw_enc n' a' b'"
  then have "bit (rw_enc n a b) i = bit (rw_enc n' a' b') i" for i by simp
  then have e: "((i < 30 \<and> bit n i) \<or> (a \<and> i = 30) \<or> (b \<and> i = 31)) =
      ((i < 30 \<and> bit n' i) \<or> (a' \<and> i = 30) \<or> (b' \<and> i = 31))" for i
    unfolding bit_rw_enc [OF n] bit_rw_enc [OF n'] .
  have "bit n i = bit n' i" for i
    using e [of i] bit_nat_less [OF n, of i] bit_nat_less [OF n', of i] by (cases "i < 30") auto
  then have "n = n'" by (simp add: bit_eq_iff)
  with e [of 30] e [of 31] show "n = n' \<and> a = a' \<and> b = b'" by simp
qed simp

lemma rw_enc_const:
  "0 = rw_enc 0 False False" "LW = rw_enc 0 True False" "1 = rw_enc 1 False False"
  "LW OR NW = rw_enc 0 True True" "NW = rw_enc 0 False True"
  by (simp_all add: rw_enc_def rw_enc_or)
     (subst disjunctive_add_eq_or; auto simp: and_eq_0_iff)

lemma rw_enc_arith:
  "rw_enc n False False + 1 = rw_enc (Suc n) False False"
  "rw_enc (Suc n) a b - 1 = rw_enc n a b"
  by (simp_all add: rw_enc_def)

section \<open>What each operation does to the count and the flags\<close>

definition pc_reads :: "rw_pc \<Rightarrow> bool" where
  "pc_reads pc \<longleftrightarrow> pc \<in> {RwReading, UrSub}"

definition pc_writes :: "rw_pc \<Rightarrow> bool" where
  "pc_writes pc \<longleftrightarrow> pc \<in> {RwWriting, UwXchg}"

definition pc_pending :: "rw_pc \<Rightarrow> bool" where
  "pc_pending pc \<longleftrightarrow> (\<exists>s2. pc = WrLoop s2 \<or> pc = WrWait s2)"

definition pc_wakes_writer :: "rw_pc \<Rightarrow> bool" where
  "pc_wakes_writer pc \<longleftrightarrow> pc \<in> {UrWake, UwWakeW}"

lemmas rw_classes = pc_reads_def pc_writes_def pc_pending_def pc_wakes_writer_def

fun rw_pc_ok :: "rw_pc \<Rightarrow> bool" where
  "rw_pc_ok (TrCas s2) \<longleftrightarrow> s2 AND (LW OR NW) = 0"
| "rw_pc_ok (RdWait s2) \<longleftrightarrow> s2 AND NW \<noteq> 0"
| "rw_pc_ok (WrWait s2) \<longleftrightarrow> s2 AND NW \<noteq> 0 \<and> s2 AND NOT NW \<noteq> 0"
| "rw_pc_ok _ \<longleftrightarrow> True"

text \<open>
  The possible effects of one operation of a thread at \<open>pc\<close> on a word with \<open>n\<close> readers, writer
  flag \<open>a\<close> and wake flag \<open>b\<close>.
\<close>

inductive rw_effect :: "rw_pc \<Rightarrow> nat \<times> bool \<times> bool \<Rightarrow> rw_pc \<Rightarrow> nat \<times> bool \<times> bool \<Rightarrow> bool" where
  quiet: "\<not> pc_reads pc \<Longrightarrow> \<not> pc_writes pc \<Longrightarrow> \<not> pc_reads pc' \<Longrightarrow> \<not> pc_writes pc' \<Longrightarrow>
    pc \<notin> {RwIdle, UwWakeR, UwWakeW, UrWake, WrSleep} \<Longrightarrow> (pc = UrClear \<Longrightarrow> pc' = UrWake) \<Longrightarrow>
    (pc_pending pc \<Longrightarrow> pc_pending pc' \<or> pc' = WrSleep) \<Longrightarrow> (pc' = RdSleep \<Longrightarrow> b) \<Longrightarrow>
    (pc' = WrSleep \<Longrightarrow> b \<and> (n \<noteq> 0 \<or> a)) \<Longrightarrow> rw_effect pc (n, a, b) pc' (n, a, b)"
| read_take: "pc \<in> {TrCas s2, RdLoop s2} \<Longrightarrow>
    rw_effect pc (n, False, False) RwReading (Suc n, False, False)"
| read_give: "rw_effect UrSub (Suc n, False, b) (if n = 0 \<and> b then UrClear else RwIdle) (n, False, b)"
| write_take: "pc \<in> {WrFirst, TwFirst} \<Longrightarrow>
    rw_effect pc (0, False, False) RwWriting (0, True, False)"
| write_take_slow: "rw_effect (WrLoop s2) (0, False, b) RwWriting (0, True, True)"
| write_give: "rw_effect UwXchg (0, True, b) (if b then UwWakeR else RwIdle) (0, False, False)"
| read_mark: "rw_effect (RdLoop s2) (0, True, False) (RdWait s3) (0, True, True)"
| write_mark: "rw_effect (WrLoop s2) (n, a, False) (WrWait s3) (n, a, True)"
| clear: "rw_effect UrClear (0, False, True) UrWake (0, False, False)"

lemma rw_enc_eq_const:
  assumes n: "n < 2 ^ 30"
  shows "rw_enc n a b = 0 \<longleftrightarrow> n = 0 \<and> \<not> a \<and> \<not> b"
    and "rw_enc n a b = 1 \<longleftrightarrow> n = 1 \<and> \<not> a \<and> \<not> b"
    and "rw_enc n a b = NW \<longleftrightarrow> n = 0 \<and> \<not> a \<and> b"
  unfolding rw_enc_const(1,3,5) using n by (simp_all add: rw_enc_eq_iff)

lemmas rw_local_defs = rw_local_def atomic_cas_def Let_def

definition rw_effect_ok :: "nat \<Rightarrow> bool \<Rightarrow> bool \<Rightarrow> rw_pc \<Rightarrow> rw_pc \<Rightarrow> u32 \<Rightarrow> bool" where
  "rw_effect_ok n a b pc pc' w' \<longleftrightarrow> rw_pc_ok pc' \<and>
     (\<exists>n' a' b'. w' = rw_enc n' a' b' \<and> rw_effect pc (n, a, b) pc' (n', a', b'))"

lemma rw_effect_upd:
  "w' = rw_enc m c d \<Longrightarrow> rw_pc_ok pc' \<Longrightarrow> rw_effect pc (n, a, b) pc' (m, c, d) \<Longrightarrow>
    rw_effect_ok n a b pc pc' w'"
  by (auto simp: rw_effect_ok_def)

lemma rw_effect_same:
  "w' = rw_enc n a b \<Longrightarrow> rw_pc_ok pc' \<Longrightarrow> rw_effect pc (n, a, b) pc' (n, a, b) \<Longrightarrow>
    rw_effect_ok n a b pc pc' w'"
  by (rule rw_effect_upd)

lemma rd_loop_effect:
  assumes run: "rw_local pc (rw_enc n a b) = Some (pc', w')" and n: "n < 2 ^ 30"
    and RdLoop: "pc = RdLoop s2" and an: "a \<Longrightarrow> n = 0"
  shows "rw_effect_ok n a b pc pc' w'"
proof -
  note tests = rw_enc_tests [OF n] rw_enc_eq_const [OF n] rw_enc_arith
  note same = rw_effect_same [where pc = pc and pc' = pc']
  note upd = rw_effect_upd [where pc = pc and pc' = pc']
  consider (take) "s2 = rw_enc n a b" "\<not> a" "\<not> b" | (mark) "s2 = rw_enc n a b" "a" "\<not> b"
    | (miss) "s2 AND NW = 0" "s2 \<noteq> rw_enc n a b" | (wait) "s2 AND NW \<noteq> 0"
    using tests(2) by blast
  then show ?thesis
  proof cases
    case take
    with run RdLoop tests show ?thesis
      by (intro upd [of _ "Suc n" False False]) (auto simp: rw_local_defs intro: rw_effect.read_take)
  next
    case mark
    with run RdLoop tests an show ?thesis
      by (intro upd [of _ 0 True True])
         (auto simp: rw_local_defs and_eq_0_iff bit_or_iff rw_enc_const(4) intro: rw_effect.read_mark)
  next
    case miss
    with run RdLoop show ?thesis
      by (intro same rw_effect.quiet) (auto simp: rw_local_defs rw_classes split: if_splits)
  next
    case wait
    then have "s2 AND (LW OR NW) \<noteq> 0" by (auto simp: and_eq_0_iff bit_or_iff)
    with wait run RdLoop have "pc' = RdWait s2" "w' = rw_enc n a b" by (simp_all add: rw_local_defs)
    with RdLoop wait show ?thesis by (intro same rw_effect.quiet) (simp_all add: rw_classes)
  qed
qed

lemma ur_sub_effect:
  assumes run: "rw_local pc (rw_enc n a b) = Some (pc', w')" and n: "n < 2 ^ 30"
    and UrSub: "pc = UrSub" and an: "a \<Longrightarrow> n = 0" and rd: "n \<noteq> 0"
  shows "rw_effect_ok n a b pc pc' w'"
proof -
  note tests = rw_enc_tests [OF n] rw_enc_eq_const [OF n] rw_enc_arith
  note same = rw_effect_same [where pc = pc and pc' = pc']
  note upd = rw_effect_upd [where pc = pc and pc' = pc']
  from rd obtain m where m: "n = Suc m" by (cases n) simp_all
  with an have a: "\<not> a" by blast
  have "w' = rw_enc m a b" "pc' = (if m = 0 \<and> b then UrClear else RwIdle)"
    using run UrSub tests(2,3) [of a b] tests(6) [of a False] m a
    by (auto simp: rw_local_defs rw_enc_arith)
  with rw_effect.read_give [of m b] UrSub m a show ?thesis by (intro upd [of _ m False b]) auto
qed

lemma ur_clear_effect:
  assumes run: "rw_local pc (rw_enc n a b) = Some (pc', w')" and n: "n < 2 ^ 30"
    and UrClear: "pc = UrClear"
  shows "rw_effect_ok n a b pc pc' w'"
proof -
  note tests = rw_enc_tests [OF n] rw_enc_eq_const [OF n] rw_enc_arith
  note same = rw_effect_same [where pc = pc and pc' = pc']
  note upd = rw_effect_upd [where pc = pc and pc' = pc']
  show ?thesis
  proof (cases "rw_enc n a b = NW")
    case True
    with run UrClear tests show ?thesis
      by (intro upd [of _ 0 False False])
         (auto simp: rw_local_defs rw_enc_def intro: rw_effect.clear)
  next
    case False
    with run UrClear show ?thesis
      by (intro same rw_effect.quiet) (auto simp: rw_local_defs rw_classes split: if_splits)
  qed
qed

lemma wr_loop_effect:
  assumes run: "rw_local pc (rw_enc n a b) = Some (pc', w')" and n: "n < 2 ^ 30"
    and WrLoop: "pc = WrLoop s2"
  shows "rw_effect_ok n a b pc pc' w'"
proof -
  note tests = rw_enc_tests [OF n] rw_enc_eq_const [OF n] rw_enc_arith
  note same = rw_effect_same [where pc = pc and pc' = pc']
  note upd = rw_effect_upd [where pc = pc and pc' = pc']
  consider (take) "s2 = rw_enc n a b" "s2 AND NOT NW = 0"
    | (mark) "s2 = rw_enc n a b" "s2 AND NOT NW \<noteq> 0" "s2 AND NW = 0"
    | (miss) "s2 AND NOT NW = 0 \<or> s2 AND NW = 0" "s2 \<noteq> rw_enc n a b"
    | (wait) "s2 AND NOT NW \<noteq> 0" "s2 AND NW \<noteq> 0"
    by blast
  then show ?thesis
  proof cases
    case take
    with tests(3) have "n = 0" "\<not> a" using rw_enc_eq_const(1) [OF n, of a False] by auto
    with take run WrLoop show ?thesis
      by (intro upd [of _ 0 True True])
         (auto simp: rw_local_defs simp flip: rw_enc_const intro: rw_effect.write_take_slow)
  next
    case mark
    from mark have s2: "s2 OR NW = rw_enc n a True" "\<not> b" using tests(2,4) by simp_all
    from mark run WrLoop have "pc' = WrWait (s2 OR NW)" "w' = s2 OR NW"
      by (auto simp: rw_local_defs)
    moreover from mark have "rw_enc n a False \<noteq> 0" using tests(3) [of a b] by simp
    ultimately show ?thesis using s2 WrLoop tests(2,3) [of a True] rw_effect.write_mark
      by (intro upd [of _ n a True]) simp_all
  next
    case miss
    with run WrLoop show ?thesis
      by (intro same rw_effect.quiet) (auto simp: rw_local_defs rw_classes split: if_splits)
  next
    case wait
    with run WrLoop have "pc' = WrWait s2" "w' = rw_enc n a b" by (simp_all add: rw_local_defs)
    with WrLoop wait show ?thesis by (intro same rw_effect.quiet) (simp_all add: rw_classes)
  qed
qed

lemma uw_xchg_effect:
  assumes run: "rw_local pc (rw_enc n a b) = Some (pc', w')" and n: "n < 2 ^ 30"
    and UwXchg: "pc = UwXchg" and an: "a \<Longrightarrow> n = 0" and a: "a"
  shows "rw_effect_ok n a b pc pc' w'"
proof -
  note tests = rw_enc_tests [OF n] rw_enc_eq_const [OF n] rw_enc_arith
  note same = rw_effect_same [where pc = pc and pc' = pc']
  note upd = rw_effect_upd [where pc = pc and pc' = pc']
  from a have n0: "n = 0" by (rule an)
  have "pc' = (if b then UwWakeR else RwIdle)" "w' = rw_enc 0 False False"
    using run UwXchg tests(2) [of a b] by (auto simp: rw_local_defs simp flip: rw_enc_const)
  with UwXchg a n0 rw_effect.write_give [of b] show ?thesis
    by (intro upd [of _ 0 False False]) auto
qed

lemma rw_local_effect:
  assumes run: "rw_local pc (rw_enc n a b) = Some (pc', w')" and n: "Suc n < 2 ^ 30"
    and an: "a \<Longrightarrow> n = 0" and ok: "rw_pc_ok pc"
    and rd: "pc_reads pc \<Longrightarrow> n \<noteq> 0" and wr: "pc_writes pc \<Longrightarrow> a"
  shows "rw_effect_ok n a b pc pc' w'"
proof -
  from n have n': "n < 2 ^ 30" by simp
  note tests = rw_enc_tests [OF n'] rw_enc_eq_const [OF n'] rw_enc_arith
  note same = rw_effect_same [where pc = pc and pc' = pc']
  note upd = rw_effect_upd [where pc = pc and pc' = pc']
  show ?thesis
  proof (cases pc)
    case RdLoad
    with run show ?thesis by (intro same rw_effect.quiet) (auto simp: rw_local_defs rw_classes)
  next
    case (RdLoop s2)
    then show ?thesis using rd_loop_effect [OF run n'] an by blast
  next
    case (RdWait s2)
    with run have "pc' = (if rw_enc n a b = s2 then RdSleep else RdLoop 0)" "w' = rw_enc n a b"
      by (auto simp: rw_local_defs)
    with RdWait ok tests(2) [of a b] show ?thesis
      by (intro same rw_effect.quiet) (auto simp: rw_classes split: if_splits)
  next
    case TrLoad
    with run have "pc' = (if rw_enc n a b AND (LW OR NW) \<noteq> 0 then RwIdle else TrCas (rw_enc n a b))"
      "w' = rw_enc n a b"
      by (auto simp: rw_local_defs)
    with TrLoad show ?thesis
      by (intro same rw_effect.quiet) (auto simp: rw_classes split: if_splits)
  next
    case (TrCas s2)
    show ?thesis
    proof (cases "s2 = rw_enc n a b")
      case True
      with run TrCas ok tests show ?thesis
        by (intro upd [of _ "Suc n" False False]) (auto simp: rw_local_defs intro: rw_effect.read_take)
    next
      case False
      with run TrCas show ?thesis
        by (intro same rw_effect.quiet) (auto simp: rw_local_defs rw_classes split: if_splits)
    qed
  next
    case UrSub
    with rd show ?thesis using ur_sub_effect [OF run n'] an by (auto simp: pc_reads_def)
  next
    case UrClear
    then show ?thesis using ur_clear_effect [OF run n'] by blast
  next
    case WrFirst
    show ?thesis
    proof (cases "rw_enc n a b = 0")
      case True
      with run WrFirst tests show ?thesis
        by (intro upd [of _ 0 True False])
           (auto simp: rw_local_defs simp flip: rw_enc_const intro: rw_effect.write_take)
    next
      case False
      with run WrFirst show ?thesis
        by (intro same rw_effect.quiet) (auto simp: rw_local_defs rw_classes split: if_splits)
    qed
  next
    case (WrLoop s2)
    then show ?thesis using wr_loop_effect [OF run n'] by blast
  next
    case (WrWait s2)
    with run have "pc' = (if rw_enc n a b = s2 then WrSleep else WrLoop 0)" "w' = rw_enc n a b"
      by (auto simp: rw_local_defs)
    with WrWait ok tests(2,3) [of a b] rw_enc_eq_const(1) [OF n', of a False] show ?thesis
      by (intro same rw_effect.quiet) (auto simp: rw_classes split: if_splits)
  next
    case TwFirst
    show ?thesis
    proof (cases "rw_enc n a b = 0")
      case True
      with run TwFirst tests show ?thesis
        by (intro upd [of _ 0 True False])
           (auto simp: rw_local_defs simp flip: rw_enc_const intro: rw_effect.write_take)
    next
      case False
      with run TwFirst show ?thesis
        by (intro same rw_effect.quiet) (auto simp: rw_local_defs rw_classes split: if_splits)
    qed
  next
    case UwXchg
    with wr show ?thesis using uw_xchg_effect [OF run n'] an by (auto simp: pc_writes_def)
  qed (use run in \<open>auto simp: rw_local_defs\<close>)
qed

section \<open>Invariant: the word counts the holders\<close>

definition rw_readers :: "(tid \<Rightarrow> rw_pc) \<Rightarrow> tid set" where
  "rw_readers f = {t. pc_reads (f t)}"

definition rw_counts :: "(tid \<Rightarrow> rw_pc) \<Rightarrow> nat \<Rightarrow> bool \<Rightarrow> bool" where
  "rw_counts f n a \<longleftrightarrow> (\<forall>t. f t \<noteq> RwIdle \<longrightarrow> t < rw_max_threads) \<and> (\<forall>t. rw_pc_ok (f t)) \<and>
     card (rw_readers f) = n \<and> (a \<longleftrightarrow> some_at f pc_writes) \<and> (a \<longrightarrow> n = 0) \<and>
     (\<forall>t u. pc_writes (f t) \<longrightarrow> pc_writes (f u) \<longrightarrow> t = u)"

lemma rw_countsD:
  assumes "rw_counts f n a"
  shows "f t \<noteq> RwIdle \<Longrightarrow> t < rw_max_threads" and "rw_pc_ok (f t)"
    and "card (rw_readers f) = n" and "a \<longleftrightarrow> some_at f pc_writes" and "a \<Longrightarrow> n = 0"
    and "pc_writes (f t) \<Longrightarrow> pc_writes (f u) \<Longrightarrow> t = u"
  using assms by (auto simp: rw_counts_def)

lemma rw_readers_bound:
  assumes "\<And>t. f t \<noteq> RwIdle \<Longrightarrow> t < rw_max_threads"
  shows "finite (rw_readers f)" and "card (rw_readers f) \<le> rw_max_threads"
proof -
  have sub: "rw_readers f \<subseteq> {..<rw_max_threads}"
    using assms by (fastforce simp: rw_readers_def pc_reads_def)
  then show "finite (rw_readers f)" by (rule finite_subset) simp
  show "card (rw_readers f) \<le> rw_max_threads" using card_mono [OF _ sub] by simp
qed

lemma rw_counts_finite: "rw_counts f n a \<Longrightarrow> finite (rw_readers f)"
  by (rule rw_readers_bound(1)) (rule rw_countsD)

lemma rw_counts_bound: "rw_counts f n a \<Longrightarrow> Suc n < 2 ^ 30"
  using rw_readers_bound(2) [of f] by (auto simp: rw_counts_def rw_max_threads_def)

lemma rw_counts_reads:
  assumes "rw_counts f n a"
  shows "pc_reads (f t) \<Longrightarrow> n \<noteq> 0" and "pc_writes (f t) \<Longrightarrow> a"
  using rw_counts_finite [OF assms] rw_countsD(3,4) [OF assms]
  by (auto simp: rw_readers_def some_at_def card_gt_0_iff)

lemma rw_readers_upd:
  "rw_readers (f(t := pc)) = (if pc_reads pc then insert t (rw_readers f) else rw_readers f - {t})"
  by (auto simp: rw_readers_def)

text \<open>A move of one thread, by what it does to its hold on the lock.\<close>

lemma rw_counts_upd:
  assumes inv: "rw_counts f n a" and t: "t < rw_max_threads" and ok: "rw_pc_ok pc"
    and n': "n' = (if pc_reads pc then 1 else 0) + (if pc_reads (f t) then n - 1 else n)"
    and a': "a' \<longleftrightarrow> pc_writes pc \<or> (a \<and> \<not> pc_writes (f t))"
    and w: "pc_writes pc \<Longrightarrow> \<not> a \<or> pc_writes (f t)" and an: "a' \<Longrightarrow> n' = 0"
  shows "rw_counts (f(t := pc)) n' a'"
proof -
  note D = rw_countsD [OF inv]
  have "card (rw_readers (f(t := pc))) = n'"
  proof -
    have mem: "t \<in> rw_readers f \<longleftrightarrow> pc_reads (f t)" by (simp add: rw_readers_def)
    show ?thesis using D(3) rw_counts_finite [OF inv] rw_counts_reads(1) [OF inv, of t]
      unfolding rw_readers_upd n'
      by (auto simp: mem card_insert_if card_Diff_singleton_if)
  qed
  moreover have "a' \<longleftrightarrow> some_at (f(t := pc)) pc_writes"
    using D(4,6) unfolding a' some_at_upd some_at_split [of f _ t]
    by (auto simp: other_at_def)
  moreover have "t1 = t2" if "pc_writes ((f(t := pc)) t1)" "pc_writes ((f(t := pc)) t2)" for t1 t2
  proof -
    have one: "\<not> pc_writes pc \<or> \<not> pc_writes (f u)" if "u \<noteq> t" for u
      using w rw_counts_reads(2) [OF inv, of u] D(6) [of t u] that by blast
    show ?thesis
      using that one [of t1] one [of t2] D(6) [of t1 t2] by (cases "t1 = t"; cases "t2 = t") simp_all
  qed
  moreover have "\<forall>u. (f(t := pc)) u \<noteq> RwIdle \<longrightarrow> u < rw_max_threads" using D(1) t by simp
  moreover have "\<forall>u. rw_pc_ok ((f(t := pc)) u)" using D(2) ok by simp
  ultimately show ?thesis using an unfolding rw_counts_def by blast
qed

lemma rw_counts_effect:
  assumes inv: "rw_counts f n a" and eff: "rw_effect (f t) (n, a, b) pc' (n', a', b')"
    and ok: "rw_pc_ok pc'"
  shows "rw_counts (f(t := pc')) n' a'"
proof -
  from eff have "f t \<noteq> RwIdle" by cases (auto simp: rw_classes)
  then have t: "t < rw_max_threads" by (rule rw_countsD [OF inv])
  show ?thesis
  proof (rule rw_counts_upd [OF inv t ok])
    show "n' = (if pc_reads pc' then 1 else 0) + (if pc_reads (f t) then n - 1 else n)"
      using eff by cases (auto simp: pc_reads_def)
    show "a' \<longleftrightarrow> pc_writes pc' \<or> (a \<and> \<not> pc_writes (f t))"
      using eff by cases (auto simp: pc_writes_def)
    show "\<not> a \<or> pc_writes (f t)" if "pc_writes pc'"
      using eff that by cases (auto simp: pc_writes_def)
    show "n' = 0" if "a'" using eff that rw_countsD(5) [OF inv] by cases auto
  qed
qed

section \<open>Invariant: sleepers are woken\<close>

text \<open>
  While anybody sleeps, the wake flag is set, or the unlocking writer is about to wake the
  readers, or a writer is awake in its loop, or a wake call is due while a writer sleeps. The
  flag without a writer in possession means that some writer is in its loop; if there are no
  readers either, that writer is awake or the last reader is still in its unlock.
\<close>

definition rw_wake :: "(tid \<Rightarrow> rw_pc) \<Rightarrow> nat \<Rightarrow> bool \<Rightarrow> bool \<Rightarrow> bool" where
  "rw_wake f n a b \<longleftrightarrow>
     (some_at f (\<lambda>pc. pc = RdSleep) \<or> some_at f (\<lambda>pc. pc = WrSleep) \<longrightarrow>
        b \<or> some_at f (\<lambda>pc. pc = UwWakeR) \<or> some_at f pc_pending \<or>
        (some_at f pc_wakes_writer \<and> some_at f (\<lambda>pc. pc = WrSleep))) \<and>
     (b \<and> \<not> a \<longrightarrow> some_at f pc_pending \<or> some_at f (\<lambda>pc. pc = WrSleep)) \<and>
     (b \<and> \<not> a \<and> n = 0 \<longrightarrow>
        some_at f pc_pending \<or> some_at f pc_wakes_writer \<or> some_at f (\<lambda>pc. pc = UrClear))"

lemma rw_wake_upd:
  "rw_wake (f(t := pc)) n a b \<longleftrightarrow>
     (pc = RdSleep \<or> other_at f t (\<lambda>pc. pc = RdSleep) \<or> pc = WrSleep \<or> other_at f t (\<lambda>pc. pc = WrSleep) \<longrightarrow>
        b \<or> pc = UwWakeR \<or> other_at f t (\<lambda>pc. pc = UwWakeR) \<or> pc_pending pc \<or> other_at f t pc_pending \<or>
        ((pc_wakes_writer pc \<or> other_at f t pc_wakes_writer) \<and>
         (pc = WrSleep \<or> other_at f t (\<lambda>pc. pc = WrSleep)))) \<and>
     (b \<and> \<not> a \<longrightarrow> pc_pending pc \<or> other_at f t pc_pending \<or> pc = WrSleep \<or>
        other_at f t (\<lambda>pc. pc = WrSleep)) \<and>
     (b \<and> \<not> a \<and> n = 0 \<longrightarrow> pc_pending pc \<or> other_at f t pc_pending \<or> pc_wakes_writer pc \<or>
        other_at f t pc_wakes_writer \<or> pc = UrClear \<or> other_at f t (\<lambda>pc. pc = UrClear))"
  unfolding rw_wake_def some_at_upd by blast

lemma rw_wake_effect:
  assumes inv: "rw_wake f n a b" and eff: "rw_effect (f t) (n, a, b) pc' (n', a', b')"
    and an: "a \<Longrightarrow> n = 0"
  shows "rw_wake (f(t := pc')) n' a' b'"
proof -
  have "rw_wake (f(t := f t)) n a b" using inv by simp
  note inv' = this [unfolded rw_wake_upd]
  from eff show ?thesis
  proof cases
    case quiet
    then have "\<not> pc_wakes_writer (f t)" "f t \<noteq> UwWakeR" "f t \<noteq> WrSleep" "f t = UrClear \<Longrightarrow> pc_wakes_writer pc'"
      by (auto simp: pc_wakes_writer_def)
    with quiet inv' show ?thesis unfolding rw_wake_upd by blast
  next
    case read_take
    with inv' show ?thesis unfolding rw_wake_upd by (auto simp: rw_classes)
  next
    case read_give
    with inv' show ?thesis unfolding rw_wake_upd by (simp add: rw_classes)
  next
    case write_take
    with inv' show ?thesis unfolding rw_wake_upd by (auto simp: rw_classes)
  next
    case write_give
    with inv' show ?thesis unfolding rw_wake_upd by (simp add: rw_classes; blast)
  next
    case clear
    with inv' show ?thesis unfolding rw_wake_upd by (simp add: rw_classes; blast)
  qed (use inv' in \<open>simp_all add: rw_wake_upd rw_classes\<close>)
qed

lemma rw_wake_pending: "some_at f pc_pending \<Longrightarrow> rw_wake f n a b"
  by (simp add: rw_wake_def)

section \<open>Every step keeps the invariant\<close>

definition rw_inv :: "rw_sys \<Rightarrow> bool" where
  "rw_inv s \<longleftrightarrow> (\<exists>n a b. rw_word s = rw_enc n a b \<and> rw_counts (rw_pc s) n a \<and> rw_wake (rw_pc s) n a b)"

lemma rw_invE:
  assumes "rw_inv s"
  obtains n a b where "rw_word s = rw_enc n a b" "rw_counts (rw_pc s) n a" "rw_wake (rw_pc s) n a b"
  using assms by (auto simp: rw_inv_def)

lemma rw_inv_move:
  assumes "rw_word s = rw_enc n a b" and "rw_counts (rw_pc s) n a" and "t < rw_max_threads"
    and "rw_pc_ok pc" and "pc_reads pc = pc_reads (rw_pc s t)" and "pc_writes pc = pc_writes (rw_pc s t)"
    and "rw_wake ((rw_pc s)(t := pc)) n a b"
  shows "rw_inv (s\<lparr>rw_pc := (rw_pc s)(t := pc)\<rparr>)"
proof -
  have "rw_counts ((rw_pc s)(t := pc)) n a"
    by (rule rw_counts_upd [OF assms(2,3,4)])
       (use assms(5,6) rw_counts_reads [OF assms(2), of t] rw_countsD(5) [OF assms(2)] in auto)
  with assms(1,7) show ?thesis by (auto simp: rw_inv_def)
qed

lemma rw_inv_effect:
  assumes inv: "rw_word s = rw_enc n a b" "rw_counts (rw_pc s) n a" "rw_wake (rw_pc s) n a b"
    and eff: "rw_effect (rw_pc s t) (n, a, b) pc (n', a', b')" and "rw_pc_ok pc"
  shows "rw_inv (s\<lparr>rw_word := rw_enc n' a' b', rw_pc := (rw_pc s)(t := pc)\<rparr>)"
proof -
  have "rw_counts ((rw_pc s)(t := pc)) n' a'" using rw_counts_effect [OF inv(2) eff assms(5)] .
  moreover have "rw_wake ((rw_pc s)(t := pc)) n' a' b'"
    using rw_wake_effect [OF inv(3) eff] rw_countsD(5) [OF inv(2)] by blast
  ultimately show ?thesis by (auto simp: rw_inv_def)
qed

lemma rw_step_call:
  assumes "rw_inv s" and call: "rw_call (rw_pc s t) pc" and "t < rw_max_threads"
  shows "rw_inv (s\<lparr>rw_pc := (rw_pc s)(t := pc)\<rparr>)"
proof -
  from assms(1) obtain n a b where inv: "rw_word s = rw_enc n a b" "rw_counts (rw_pc s) n a"
    "rw_wake (rw_pc s) n a b" by (rule rw_invE)
  have "rw_wake ((rw_pc s)(t := rw_pc s t)) n a b" using inv(3) by simp
  then have "rw_wake ((rw_pc s)(t := pc)) n a b"
    using call unfolding rw_wake_upd by (cases "rw_pc s t") (auto simp: rw_classes)
  with call show ?thesis
    by (intro rw_inv_move [OF inv(1,2) assms(3)]; cases "rw_pc s t") (auto simp: rw_classes)
qed

lemma rw_step_wake_readers:
  assumes "rw_inv s" and t: "rw_pc s t = UwWakeR"
  shows "rw_inv (s\<lparr>rw_pc := (\<lambda>u. if rw_pc s u = RdSleep then RdLoop 0 else rw_pc s u)(t := UwWakeW)\<rparr>)"
proof -
  from assms(1) obtain n a b where inv: "rw_word s = rw_enc n a b" "rw_counts (rw_pc s) n a"
    "rw_wake (rw_pc s) n a b" by (rule rw_invE)
  let ?g = "(\<lambda>u. if rw_pc s u = RdSleep then RdLoop 0 else rw_pc s u)(t := UwWakeW)"
  have same: "pc_reads (?g u) = pc_reads (rw_pc s u)" "pc_writes (?g u) = pc_writes (rw_pc s u)" for u
    using t by (simp_all add: rw_classes)
  have "rw_counts ?g n a"
  proof -
    have R: "rw_readers ?g = rw_readers (rw_pc s)" unfolding rw_readers_def same ..
    have W: "some_at ?g pc_writes = some_at (rw_pc s) pc_writes" unfolding some_at_def same ..
    have "?g u \<noteq> RwIdle \<Longrightarrow> u < rw_max_threads" "rw_pc_ok (?g u)" for u
      using rw_countsD(1,2) [OF inv(2), of u] t by (auto split: if_splits)
    with rw_countsD(3,4,5,6) [OF inv(2)] show ?thesis unfolding rw_counts_def same R W by blast
  qed
  moreover have "rw_wake ?g n a b"
  proof -
    have "some_at ?g pc_wakes_writer" "\<not> some_at ?g (\<lambda>pc. pc = RdSleep)"
      by (auto simp: some_at_def pc_wakes_writer_def intro: exI [of _ t])
    moreover have "pc_pending (?g u) = pc_pending (rw_pc s u)"
      "(?g u = WrSleep) = (rw_pc s u = WrSleep)" for u
      using t by (simp_all add: pc_pending_def)
    then have "some_at ?g pc_pending = some_at (rw_pc s) pc_pending"
      "some_at ?g (\<lambda>pc. pc = WrSleep) = some_at (rw_pc s) (\<lambda>pc. pc = WrSleep)"
      unfolding some_at_def by presburger+
    ultimately show ?thesis using inv(3) unfolding rw_wake_def by blast
  qed
  ultimately show ?thesis using inv(1) by (auto simp: rw_inv_def)
qed

lemma rw_step_spurious_write:
  assumes "rw_inv s" and u: "rw_pc s u = WrSleep"
  shows "rw_inv (s\<lparr>rw_pc := (rw_pc s)(u := WrLoop 0)\<rparr>)"
proof -
  from assms(1) obtain n a b where inv: "rw_word s = rw_enc n a b" "rw_counts (rw_pc s) n a"
    by (rule rw_invE)
  have "rw_wake ((rw_pc s)(u := WrLoop 0)) n a b"
    by (rule rw_wake_pending) (simp add: some_at_upd pc_pending_def)
  then show ?thesis using rw_countsD(1) [OF inv(2), of u] u
    by (intro rw_inv_move [OF inv]) (simp_all add: rw_classes)
qed

lemma rw_step_wake_end:
  assumes "rw_inv s" and t: "pc_wakes_writer (rw_pc s t)"
    and none: "some_at (rw_pc s) pc_pending \<or> \<not> some_at (rw_pc s) (\<lambda>pc. pc = WrSleep)"
  shows "rw_inv (s\<lparr>rw_pc := (rw_pc s)(t := RwIdle)\<rparr>)"
proof -
  from assms(1) obtain n a b where inv: "rw_word s = rw_enc n a b" "rw_counts (rw_pc s) n a"
    "rw_wake (rw_pc s) n a b" by (rule rw_invE)
  from t have pc: "rw_pc s t \<noteq> WrSleep" "rw_pc s t \<noteq> RdSleep" "\<not> pc_pending (rw_pc s t)"
    "rw_pc s t \<noteq> UwWakeR" "rw_pc s t \<noteq> RwIdle"
    by (auto simp: rw_classes)
  have "rw_wake ((rw_pc s)(t := rw_pc s t)) n a b" using inv(3) by simp
  then have "rw_wake ((rw_pc s)(t := RwIdle)) n a b"
    using none pc unfolding rw_wake_upd some_at_split [of "rw_pc s" _ t] by blast
  with t rw_countsD(1) [OF inv(2) pc(5)] show ?thesis
    by (intro rw_inv_move [OF inv(1,2)]) (auto simp: rw_classes)
qed

lemma rw_weak_effect:
  "rw_weak_fail pc w = Some pc' \<Longrightarrow> rw_effect pc (n, a, b) pc' (n, a, b) \<and> rw_pc_ok pc'"
  by (cases pc) (auto simp: rw_classes split: if_splits intro!: rw_effect.quiet)

lemma rw_step_inv: "rw_step s s' \<Longrightarrow> rw_inv s \<Longrightarrow> rw_inv s'"
proof (induction rule: rw_step.induct)
  case (call s t pc)
  then show ?case by (intro rw_step_call)
next
  case (run s t pc w)
  from run.prems obtain n a b where inv: "rw_word s = rw_enc n a b" "rw_counts (rw_pc s) n a"
    "rw_wake (rw_pc s) n a b" by (rule rw_invE)
  have "rw_effect_ok n a b (rw_pc s t) pc w"
    using rw_local_effect [OF run.hyps [unfolded inv(1)] rw_counts_bound [OF inv(2)]]
      rw_countsD(2,5) [OF inv(2)] rw_counts_reads [OF inv(2)] by blast
  then show ?case using rw_inv_effect [OF inv] by (auto simp: rw_effect_ok_def)
next
  case (weak s t pc)
  from weak.prems obtain n a b where inv: "rw_word s = rw_enc n a b" "rw_counts (rw_pc s) n a"
    "rw_wake (rw_pc s) n a b" by (rule rw_invE)
  from rw_weak_effect [OF weak.hyps] have "rw_inv (s\<lparr>rw_word := rw_enc n a b, rw_pc := (rw_pc s)(t := pc)\<rparr>)"
    using rw_inv_effect [OF inv, of t pc n a b] by blast
  then show ?case unfolding inv(1) [symmetric] by simp
next
  case (wake_readers s t)
  then show ?case by (intro rw_step_wake_readers)
next
  case (wake_writer s t u)
  have "rw_inv (s\<lparr>rw_pc := (rw_pc s)(u := WrLoop 0)\<rparr>)"
    using wake_writer by (intro rw_step_spurious_write)
  from rw_step_wake_end [OF this, of t] wake_writer.hyps show ?case
    by (cases "t = u") (auto simp: pc_wakes_writer_def some_at_upd pc_pending_def)
next
  case (wake_none s t)
  then show ?case by (intro rw_step_wake_end) (auto simp: pc_wakes_writer_def some_at_def)
next
  case (spurious_read s u)
  from spurious_read.prems obtain n a b where inv: "rw_word s = rw_enc n a b"
    "rw_counts (rw_pc s) n a" "rw_wake (rw_pc s) n a b" by (rule rw_invE)
  have "rw_wake ((rw_pc s)(u := rw_pc s u)) n a b" using inv(3) by simp
  then have "rw_wake ((rw_pc s)(u := RdLoop 0)) n a b"
    using spurious_read.hyps unfolding rw_wake_upd by (auto simp: rw_classes)
  with rw_countsD(1) [OF inv(2), of u] spurious_read.hyps show ?case
    by (intro rw_inv_move [OF inv(1,2)]) (simp_all add: rw_classes)
next
  case (spurious_write s u)
  then show ?case by (intro rw_step_spurious_write)
qed

interpretation rw: inductive_invariant "\<lambda>s. s = libsimple_rwlock_init" rw_step rw_inv
proof unfold_locales
  show "rw_inv s" if "s = libsimple_rwlock_init" for s
    unfolding that rw_inv_def libsimple_rwlock_init_def
    by (rule exI [of _ 0], rule exI [of _ False], rule exI [of _ False])
       (simp add: rw_enc_def rw_counts_def rw_readers_def rw_wake_def some_at_def rw_classes)
qed (blast intro: rw_step_inv)

lemma rw_sched_run: "rw_sched s as = Some s' \<Longrightarrow> rw_step\<^sup>*\<^sup>* s s'"
proof (induction s as rule: rw_sched.induct)
  case (2 s t pc as)
  then show ?case by (auto split: if_splits intro: converse_rtranclp_into_rtranclp rw_step.call)
next
  case (3 s t as)
  then show ?case
    by (auto split: option.splits prod.splits intro: converse_rtranclp_into_rtranclp rw_step.run)
qed simp

section \<open>Properties\<close>

text \<open>C8. Readers and writers exclude each other: in every interleaving at most one thread has the
  lock for writing, no thread has it for reading while one has it for writing, and the word
  holds exactly the number of readers and whether there is a writer.\<close>

theorem libsimple_rwlock_exclusion:
  assumes "rw_step\<^sup>*\<^sup>* libsimple_rwlock_init s"
  shows "(\<forall>t u. pc_writes (rw_pc s t) \<longrightarrow> \<not> pc_reads (rw_pc s u) \<and> (pc_writes (rw_pc s u) \<longrightarrow> t = u)) \<and>
    rw_word s AND NOT NW = of_nat (card (rw_readers (rw_pc s))) +
      (if \<exists>t. pc_writes (rw_pc s t) then LW else 0)"
proof -
  from rw.reachable_inv [OF refl assms] obtain n a b where inv: "rw_word s = rw_enc n a b"
    "rw_counts (rw_pc s) n a" by (rule rw_invE)
  have "n < 2 ^ 30" using rw_counts_bound [OF inv(2)] by simp
  then have "rw_word s AND NOT NW = of_nat n + (if a then LW else 0)"
    using rw_enc_tests(3) [of n a b] inv(1) by (simp add: rw_enc_def)
  with rw_countsD(3,4,5,6) [OF inv(2)] rw_counts_reads [OF inv(2)] show ?thesis
    unfolding some_at_def by blast
qed

definition rw_example :: "(tid \<times> rw_pc option) list" where
  "rw_example = [(0, Some RdLoad), (0, None), (0, None), (1, Some TrLoad), (1, None), (1, None),
     (2, Some WrFirst), (2, None), (2, None), (2, None)]"

abbreviation rw_example_state :: rw_sys where
  "rw_example_state \<equiv> \<lparr>rw_word = rw_enc 2 False True,
     rw_pc = (\<lambda>_. RwIdle)(0 := RwReading, 1 := RwReading, 2 := WrSleep)\<rparr>"

lemma rw_example_run: "rw_sched libsimple_rwlock_init rw_example = Some rw_example_state"
  by (simp add: rw_example_def libsimple_rwlock_init_def rw_max_threads_def rw_local_defs rw_enc_def
      libsimple_rwlock_bit_locked_write_def libsimple_rwlock_bit_need_to_wake_def fun_upd_twist)

theorem libsimple_rwlock_exclusion_witness:
  "\<exists>s. rw_step\<^sup>*\<^sup>* libsimple_rwlock_init s \<and> rw_readers (rw_pc s) = {0, 1} \<and>
     (\<forall>t. \<not> pc_writes (rw_pc s t)) \<and> rw_word s AND NOT NW = 2"
proof -
  have run: "rw_step\<^sup>*\<^sup>* libsimple_rwlock_init rw_example_state"
    by (rule rw_sched_run [OF rw_example_run])
  have R: "rw_readers (rw_pc rw_example_state) = {0, 1}" by (auto simp: rw_readers_def pc_reads_def)
  have W: "\<not> pc_writes (rw_pc rw_example_state t)" for t by (simp add: pc_writes_def)
  have "\<not> (\<exists>t. pc_writes (rw_pc rw_example_state t))" using W by blast
  with conjunct2 [OF libsimple_rwlock_exclusion [OF run], unfolded R]
  have "rw_word rw_example_state AND NOT NW = 2" by (simp del: fun_upd_apply)
  with run R W show ?thesis by blast
qed

text \<open>C11. No lost wake-up: while a reader or a writer sleeps, the lock is held and its last holder's
  unlock goes on to wake (it reaches the wake calls, whatever the count), or an unlocking
  thread is already on its way to a wake call, or a writer is awake in its locking loop.\<close>

theorem libsimple_rwlock_no_lost_wakeup:
  assumes "rw_step\<^sup>*\<^sup>* libsimple_rwlock_init s" and "rw_pc s t \<in> {RdSleep, WrSleep}"
  shows "(\<exists>u. pc_writes (rw_pc s u) \<and> libsimple_rwlock_unlock_write UwXchg (rw_word s) = Some (UwWakeR, 0)) \<or>
    (\<exists>u. pc_reads (rw_pc s u) \<and> rw_word s AND NW \<noteq> 0 \<and>
       (rw_readers (rw_pc s) = {u} \<longrightarrow> libsimple_rwlock_unlock_read UrSub (rw_word s) = Some (UrClear, NW))) \<or>
    (\<exists>u. rw_pc s u \<in> {UrClear, UrWake, UwWakeR, UwWakeW} \<or> pc_pending (rw_pc s u))"
proof -
  from rw.reachable_inv [OF refl assms(1)] obtain n a b where inv: "rw_word s = rw_enc n a b"
    "rw_counts (rw_pc s) n a" "rw_wake (rw_pc s) n a b" by (rule rw_invE)
  have n: "n < 2 ^ 30" using rw_counts_bound [OF inv(2)] by simp
  have sleeper: "some_at (rw_pc s) (\<lambda>pc. pc = RdSleep) \<or> some_at (rw_pc s) (\<lambda>pc. pc = WrSleep)"
    using assms(2) by (auto simp: some_at_def)
  consider (writer) "b" "a" | (readers) "b" "\<not> a" "n \<noteq> 0"
    | (waker) "some_at (rw_pc s) (\<lambda>pc. pc \<in> {UrClear, UrWake, UwWakeR, UwWakeW} \<or> pc_pending pc)"
    using inv(3) sleeper unfolding rw_wake_def some_at_def pc_wakes_writer_def insert_iff empty_iff
    by metis
  then show ?thesis
  proof cases
    case writer
    then have "rw_word s AND NW \<noteq> 0" using rw_enc_tests(2) [OF n] inv(1) by simp
    with rw_countsD(4) [OF inv(2)] writer show ?thesis by (auto simp: some_at_def)
  next
    case readers
    then have w: "rw_word s AND NW \<noteq> 0" using rw_enc_tests(2) [OF n] inv(1) by simp
    obtain u where u: "pc_reads (rw_pc s u)"
      using rw_countsD(3) [OF inv(2)] readers(3) by (fastforce simp: rw_readers_def)
    have "libsimple_rwlock_unlock_read UrSub (rw_word s) = Some (UrClear, NW)"
      if "rw_readers (rw_pc s) = {u}"
    proof -
      from that rw_countsD(3) [OF inv(2)] have "n = Suc 0" by simp
      with readers inv(1) rw_enc_tests(2,3) [OF n, of False True] rw_enc_eq_const(2) [OF n, of False False]
      show ?thesis using rw_enc_arith(2) [of 0 False True] by (simp add: Let_def flip: rw_enc_const)
    qed
    with u w show ?thesis by blast
  next
    case waker
    then show ?thesis by (auto simp: some_at_def)
  qed
qed

theorem libsimple_rwlock_no_lost_wakeup_witness:
  "\<exists>s. rw_step\<^sup>*\<^sup>* libsimple_rwlock_init s \<and> rw_pc s 2 = WrSleep \<and> (\<exists>u. pc_reads (rw_pc s u)) \<and>
     rw_word s AND NW \<noteq> 0"
proof -
  have run: "rw_step\<^sup>*\<^sup>* libsimple_rwlock_init rw_example_state"
    by (rule rw_sched_run [OF rw_example_run])
  have pc: "rw_pc rw_example_state 2 = WrSleep" by simp
  have W: "\<not> pc_writes (rw_pc rw_example_state t)" "\<not> pc_pending (rw_pc rw_example_state t)"
    "rw_pc rw_example_state t \<notin> {UrClear, UrWake, UwWakeR, UwWakeW}" for t
    by (simp_all add: rw_classes)
  have "\<exists>u. pc_reads (rw_pc rw_example_state u) \<and> rw_word rw_example_state AND NW \<noteq> 0"
    using libsimple_rwlock_no_lost_wakeup [OF run, of 2] pc W by blast
  with run pc show ?thesis by blast
qed

end
