(* ===== verification/Futex_Condvar.thy ===== *)
theory Futex_Condvar
  imports Osxie_Prelude
begin

text \<open>
  \<open>libsimple_condvar\<close> of src/libsimple/src/lock.c: a word with two bits that say whether a
  notification has to call the futex, and a counter of notifications above them, which
  keeps a thread that is about to sleep from missing one. The lock passed to the functions
  is the abstract lock (its owner), which the futex lock refines; threads that
  \<open>FUTEX_REQUEUE\<close> moves to the lock's queue wait there until the lock wakes them.
\<close>

section \<open>The functions\<close>

definition libsimple_condvar_bit_need_to_wake_one :: u32 where
  [states]: "libsimple_condvar_bit_need_to_wake_one = 1"

definition libsimple_condvar_bit_need_to_wake_all :: u32 where
  [states]: "libsimple_condvar_bit_need_to_wake_all = 2"

definition libsimple_condvar_bit_increment :: u32 where
  [states]: "libsimple_condvar_bit_increment = 4"

abbreviation NW1 :: u32 where "NW1 \<equiv> libsimple_condvar_bit_need_to_wake_one"

abbreviation NWA :: u32 where "NWA \<equiv> libsimple_condvar_bit_need_to_wake_all"

text \<open>
  \<open>Cv\<close>: the wait function (\<open>fetch_or\<close>, unlock, futex wait with the value seen, sleep, requeued
  on the lock, lock again); \<open>No\<close>: notify-one (add, and, wake, or); \<open>Na\<close>: notify-all (add, and,
  requeue).
\<close>

datatype cv_pc =
    CvIdle | CvOr | CvUnlock u32 | CvWait u32 | CvSleep | CvRequeued | CvRelock
  | NoAdd | NoAnd | NoWake | NoSet | NaAdd | NaAnd | NaRequeue

fun libsimple_condvar_wait :: "cv_pc \<Rightarrow> u32 \<Rightarrow> (cv_pc \<times> u32) option" where
  "libsimple_condvar_wait CvOr st =
     (let st' = st OR (NWA OR NW1) in Some (CvUnlock (st OR NWA OR NW1), st'))"
| "libsimple_condvar_wait (CvWait state2) st = Some (if st = state2 then CvSleep else CvRelock, st)"
| "libsimple_condvar_wait _ st = None"

fun libsimple_condvar_notify_one :: "cv_pc \<Rightarrow> u32 \<Rightarrow> (cv_pc \<times> u32) option" where
  "libsimple_condvar_notify_one NoAdd st =
     (let state2 = st + libsimple_condvar_bit_increment
      in Some (if state2 AND NW1 = 0 then CvIdle else NoAnd, state2))"
| "libsimple_condvar_notify_one NoAnd st =
     Some (if st AND NW1 = 0 then CvIdle else NoWake, st AND NOT NW1)"
| "libsimple_condvar_notify_one NoSet st = Some (CvIdle, st OR NW1)"
| "libsimple_condvar_notify_one _ st = None"

fun libsimple_condvar_notify_all :: "cv_pc \<Rightarrow> u32 \<Rightarrow> (cv_pc \<times> u32) option" where
  "libsimple_condvar_notify_all NaAdd st =
     (let state2 = st + libsimple_condvar_bit_increment
      in Some (if state2 AND NWA = 0 then CvIdle else NaAnd, state2))"
| "libsimple_condvar_notify_all NaAnd st = Some (NaRequeue, st AND NOT (NWA OR NW1))"
| "libsimple_condvar_notify_all _ st = None"

section \<open>Threads using it\<close>

record cv_sys =
  cv_word :: u32
  cv_owner :: "tid option"
  cv_pc :: "tid \<Rightarrow> cv_pc"

definition libsimple_condvar_init :: cv_sys where
  "libsimple_condvar_init = \<lparr>cv_word = 0, cv_owner = None, cv_pc = (\<lambda>_. CvIdle)\<rparr>"

definition cv_local :: "cv_pc \<Rightarrow> u32 \<Rightarrow> (cv_pc \<times> u32) option" where
  "cv_local pc st =
     (case libsimple_condvar_wait pc st of Some r \<Rightarrow> Some r
      | None \<Rightarrow> (case libsimple_condvar_notify_one pc st of Some r \<Rightarrow> Some r
      | None \<Rightarrow> libsimple_condvar_notify_all pc st))"

definition cv_goto :: "cv_sys \<Rightarrow> tid \<Rightarrow> cv_pc \<Rightarrow> cv_sys" where
  "cv_goto s t pc = s\<lparr>cv_pc := (cv_pc s)(t := pc)\<rparr>"

text \<open>
  \<open>FUTEX_REQUEUE\<close> with one thread to wake and \<open>INT_MAX\<close> to move: one sleeper (if any) goes on to
  lock, all others are moved to the lock's queue.
\<close>

definition cv_requeue :: "cv_sys \<Rightarrow> tid \<Rightarrow> tid option \<Rightarrow> cv_sys" where
  "cv_requeue s t woken = s\<lparr>cv_pc := (\<lambda>u. if cv_pc s u = CvSleep
     then (if woken = Some u then CvRelock else CvRequeued) else cv_pc s u)(t := CvIdle)\<rparr>"

text \<open>The actions of a thread; the sleeper that a wake call picks is part of the action.\<close>

datatype cv_act =
    Lock | Unlock | Call cv_pc | Run | WakeOne tid | WakeNone | Requeue tid | RequeueNone
  | Spurious | LockWake

fun cv_do :: "cv_sys \<Rightarrow> tid \<Rightarrow> cv_act \<Rightarrow> cv_sys option" where
  "cv_do s t Lock = (if cv_pc s t = CvIdle \<and> cv_owner s = None then Some (s\<lparr>cv_owner := Some t\<rparr>)
     else if cv_pc s t = CvRelock \<and> cv_owner s = None
     then Some (cv_goto (s\<lparr>cv_owner := Some t\<rparr>) t CvIdle) else None)"
| "cv_do s t Unlock = (if cv_pc s t = CvIdle \<and> cv_owner s = Some t then Some (s\<lparr>cv_owner := None\<rparr>)
     else case cv_pc s t of CvUnlock v \<Rightarrow> Some (cv_goto (s\<lparr>cv_owner := None\<rparr>) t (CvWait v)) | _ \<Rightarrow> None)"
| "cv_do s t (Call pc) = (if cv_pc s t = CvIdle \<and>
       (pc = CvOr \<and> cv_owner s = Some t \<or> pc = NoAdd \<or> pc = NaAdd)
     then Some (cv_goto s t pc) else None)"
| "cv_do s t Run = (case cv_local (cv_pc s t) (cv_word s) of
       Some (pc, w) \<Rightarrow> Some (cv_goto (s\<lparr>cv_word := w\<rparr>) t pc) | None \<Rightarrow> None)"
| "cv_do s t (WakeOne u) = (if cv_pc s t = NoWake \<and> cv_pc s u = CvSleep
     then Some (cv_goto (cv_goto s u CvRelock) t NoSet) else None)"
| "cv_do s t WakeNone = (if cv_pc s t = NoWake then Some (cv_goto s t CvIdle) else None)"
| "cv_do s t (Requeue u) = (if cv_pc s t = NaRequeue \<and> cv_pc s u = CvSleep
     then Some (cv_requeue s t (Some u)) else None)"
| "cv_do s t RequeueNone = (if cv_pc s t = NaRequeue then Some (cv_requeue s t None) else None)"
| "cv_do s t Spurious = (if cv_pc s t = CvSleep then Some (cv_goto s t CvRelock) else None)"
| "cv_do s t LockWake = (if cv_pc s t = CvRequeued then Some (cv_goto s t CvRelock) else None)"

text \<open>\<open>FUTEX_WAKE\<close> and \<open>FUTEX_REQUEUE\<close> wake nobody only when nobody sleeps.\<close>

definition cv_allowed :: "cv_sys \<Rightarrow> cv_act \<Rightarrow> bool" where
  "cv_allowed s a \<longleftrightarrow> a \<in> {WakeNone, RequeueNone} \<longrightarrow> \<not> some_at (cv_pc s) (\<lambda>pc. pc = CvSleep)"

inductive cv_step :: "cv_sys \<Rightarrow> cv_sys \<Rightarrow> bool" where
  act: "cv_allowed s a \<Longrightarrow> cv_do s t a = Some s' \<Longrightarrow> cv_step s s'"

fun cv_sched :: "cv_sys \<Rightarrow> (tid \<times> cv_act) list \<Rightarrow> cv_sys option" where
  "cv_sched s [] = Some s"
| "cv_sched s ((t, a) # as) = (if a \<in> {WakeNone, RequeueNone} then None
     else case cv_do s t a of Some s' \<Rightarrow> cv_sched s' as | None \<Rightarrow> None)"

lemma cv_sched_run: "cv_sched s as = Some s' \<Longrightarrow> cv_step\<^sup>*\<^sup>* s s'"
proof (induction s as rule: cv_sched.induct)
  case (2 s t a as)
  then have a: "a \<notin> {WakeNone, RequeueNone}" by (auto split: if_splits)
  with 2(2) obtain s1 where s1: "cv_do s t a = Some s1" "cv_sched s1 as = Some s'"
    by (auto split: option.splits)
  from a have "cv_allowed s a" by (simp add: cv_allowed_def)
  then have "cv_step s s1" using s1(1) by (rule cv_step.act)
  then show ?case using 2(1) [OF a s1] by (rule converse_rtranclp_into_rtranclp)
qed simp

section \<open>The word: two flags below a counter\<close>

lemma cv_unat_add: "unat (w + 4 :: u32) = take_bit 32 (unat w + 4)"
  by (simp add: unat_word_ariths take_bit_eq_mod)

lemma cv_add_low:
  fixes w :: u32
  assumes "i < 2"
  shows "bit (w + 4) i = bit w i"
proof -
  have "take_bit 2 (unat w + 4) = take_bit 2 (unat w)" by (simp add: take_bit_eq_mod)
  then have "bit (unat w + 4) i = bit (unat w) i" using assms by (metis bit_take_bit_iff)
  then have "bit (unat (w + 4)) i = bit (unat w) i"
    using assms unfolding cv_unat_add by (simp add: bit_take_bit_iff)
  then show ?thesis by (simp add: bit_unsigned_iff)
qed

definition cv_count :: "u32 \<Rightarrow> nat" where
  "cv_count w = drop_bit 2 (unat w)"

lemma cv_count_less: "cv_count w < 2 ^ 30"
  using unsigned_less [of w, where 'a = nat] by (simp add: cv_count_def drop_bit_eq_div less_mult_imp_div_less)

lemma cv_count_add: "cv_count (w + 4) = (cv_count w + 1) mod 2 ^ 30"
proof -
  have "cv_count (w + 4) = take_bit 30 (drop_bit 2 (unat w + 4))"
    by (simp add: cv_count_def cv_unat_add drop_bit_take_bit)
  also have "drop_bit 2 (unat w + 4) = cv_count w + 1"
    by (simp add: cv_count_def drop_bit_eq_div)
  finally show ?thesis by (simp add: take_bit_eq_mod)
qed

lemma cv_count_mask:
  assumes "k \<le> 2"
  shows "cv_count (w OR mask k) = cv_count w" and "cv_count (w AND NOT (mask k)) = cv_count w"
  using assms
  by (auto simp: cv_count_def bit_eq_iff bit_drop_bit_eq bit_unsigned_iff bit_or_iff bit_and_iff
      bit_not_iff bit_mask_iff dest: bit_imp_le_length)

lemma mask_1_3: "mask 1 = (1::u32)" "mask 2 = (3::u32)"
  by (simp_all add: mask_eq_exp_minus_1)

lemma cv_count_flags:
  "cv_count (w OR 1) = cv_count w" "cv_count (w OR 3) = cv_count w"
  "cv_count (w AND - 2) = cv_count w" "cv_count (w AND - 4) = cv_count w"
  using cv_count_mask [of 1 w] cv_count_mask [of 2 w] unfolding mask_1_3 by simp_all

lemma cv_flag_tests:
  fixes w :: u32
  shows "w AND 1 = 0 \<longleftrightarrow> \<not> bit w 0" and "w AND 2 = 0 \<longleftrightarrow> \<not> bit w 1"
  using bit_iff_and_push_bit_not_eq_0 [of w 0] bit_iff_and_push_bit_not_eq_0 [of w 1] by simp_all

lemma cv_flag_bits:
  fixes w :: u32
  assumes "i < 2"
  shows "bit (w OR 1) i \<longleftrightarrow> i = 0 \<or> bit w i" and "bit (w OR 3) i"
    and "bit (w AND - 2) i \<longleftrightarrow> i \<noteq> 0 \<and> bit w i"
proof -
  have m: "bit (3::u32) i" using assms bit_mask_iff [of 2 i, where 'a = u32] by (simp add: mask_1_3)
  show "bit (w OR 1) i \<longleftrightarrow> i = 0 \<or> bit w i" by (auto simp: bit_or_iff bit_1_iff)
  show "bit (w OR 3) i" using m by (simp add: bit_or_iff)
  have "bit (w AND NOT 1) i \<longleftrightarrow> i \<noteq> 0 \<and> bit w i"
    unfolding bit_and_iff bit_not_iff bit_1_iff using assms by auto
  then show "bit (w AND - 2) i \<longleftrightarrow> i \<noteq> 0 \<and> bit w i" by simp
qed

lemmas cv_local_defs = cv_local_def Let_def states

section \<open>Invariant: sleepers keep the flags set\<close>

text \<open>
  While a thread sleeps, the wake-one flag is set or a notification is between clearing it
  and setting it again (or is requeueing everybody), and likewise the wake-all flag.
\<close>

fun cv_pc_ok :: "cv_pc \<Rightarrow> bool" where
  "cv_pc_ok (CvUnlock v) \<longleftrightarrow> bit v 0 \<and> bit v 1"
| "cv_pc_ok (CvWait v) \<longleftrightarrow> bit v 0 \<and> bit v 1"
| "cv_pc_ok _ \<longleftrightarrow> True"

definition pc_notifying :: "cv_pc \<Rightarrow> bool" where
  "pc_notifying pc \<longleftrightarrow> pc \<in> {NoWake, NoSet}"

definition cv_inv :: "cv_sys \<Rightarrow> bool" where
  "cv_inv s \<longleftrightarrow> (\<forall>t. cv_pc_ok (cv_pc s t)) \<and>
     (some_at (cv_pc s) (\<lambda>pc. pc = CvSleep) \<longrightarrow>
        (bit (cv_word s) 0 \<or> some_at (cv_pc s) pc_notifying \<or> some_at (cv_pc s) (\<lambda>pc. pc = NaRequeue)) \<and>
        (bit (cv_word s) 1 \<or> some_at (cv_pc s) (\<lambda>pc. pc = NaRequeue)))"

lemma cv_inv_goto:
  "cv_inv (cv_goto s t pc) \<longleftrightarrow>
     (\<forall>u. u \<noteq> t \<longrightarrow> cv_pc_ok (cv_pc s u)) \<and> cv_pc_ok pc \<and>
     (pc = CvSleep \<or> other_at (cv_pc s) t (\<lambda>pc. pc = CvSleep) \<longrightarrow>
        (bit (cv_word s) 0 \<or> pc_notifying pc \<or> other_at (cv_pc s) t pc_notifying \<or> pc = NaRequeue \<or>
         other_at (cv_pc s) t (\<lambda>pc. pc = NaRequeue)) \<and>
        (bit (cv_word s) 1 \<or> pc = NaRequeue \<or> other_at (cv_pc s) t (\<lambda>pc. pc = NaRequeue)))"
  unfolding cv_inv_def cv_goto_def by (auto simp: some_at_upd)

lemma cv_inv_owner [simp]: "cv_inv (s\<lparr>cv_owner := x\<rparr>) = cv_inv s"
  by (simp add: cv_inv_def)

lemma cv_goto_same [simp]: "cv_goto s t (cv_pc s t) = s"
  by (simp add: cv_goto_def)

lemma cv_goto_sel [simp]:
  "cv_word (cv_goto s t pc) = cv_word s" "cv_owner (cv_goto s t pc) = cv_owner s"
  "cv_pc (cv_goto s t pc) = (cv_pc s)(t := pc)"
  by (simp_all add: cv_goto_def)

lemmas cv_inv_here = cv_inv_goto [of s t "cv_pc s t" for s t, unfolded cv_goto_same]

lemma cv_inv_quiet:
  assumes "cv_inv s" and "\<not> pc_notifying (cv_pc s t)" and "cv_pc s t \<noteq> NaRequeue"
    and "cv_pc_ok pc" and "pc \<noteq> CvSleep"
  shows "cv_inv (cv_goto s t pc)"
  using assms unfolding cv_inv_here [of s t] cv_inv_goto by blast

lemma cv_inv_run:
  assumes inv: "cv_inv s" and run: "cv_local (cv_pc s t) (cv_word s) = Some (pc, w)"
  shows "cv_inv (cv_goto (s\<lparr>cv_word := w\<rparr>) t pc)"
proof (cases "cv_pc s t")
  case CvOr
  with run have "pc = CvUnlock (cv_word s OR 3)" "w = cv_word s OR 3"
    by (auto simp: cv_local_defs or.assoc)
  with inv show ?thesis unfolding cv_inv_goto cv_inv_here [of s t] by (simp add: cv_flag_bits)
next
  case (CvWait v)
  with run inv show ?thesis unfolding cv_inv_goto cv_inv_here [of s t]
    by (auto simp: cv_local_defs pc_notifying_def split: if_splits)
next
  case NoAdd
  with run inv show ?thesis unfolding cv_inv_goto cv_inv_here [of s t]
    by (auto simp: cv_local_defs pc_notifying_def cv_add_low split: if_splits)
next
  case NoAnd
  with run inv show ?thesis unfolding cv_inv_goto cv_inv_here [of s t]
    by (auto simp: cv_local_defs pc_notifying_def cv_flag_bits cv_flag_tests split: if_splits)
next
  case NoSet
  with run inv show ?thesis unfolding cv_inv_goto cv_inv_here [of s t]
    by (auto simp: cv_local_defs pc_notifying_def cv_flag_bits split: if_splits)
next
  case NaAdd
  with run inv show ?thesis unfolding cv_inv_goto cv_inv_here [of s t]
    by (auto simp: cv_local_defs pc_notifying_def cv_add_low split: if_splits)
next
  case NaAnd
  with run inv show ?thesis unfolding cv_inv_goto cv_inv_here [of s t]
    by (auto simp: cv_local_defs pc_notifying_def split: if_splits)
qed (use run in \<open>simp_all add: cv_local_defs\<close>)

lemma cv_inv_requeue:
  assumes "cv_inv s"
  shows "cv_inv (cv_requeue s t woken)"
proof -
  have "\<not> some_at (cv_pc (cv_requeue s t woken)) (\<lambda>pc. pc = CvSleep)"
    by (simp add: some_at_def cv_requeue_def)
  moreover have "cv_pc_ok (cv_pc (cv_requeue s t woken) u)" for u
    using assms by (simp add: cv_requeue_def cv_inv_def)
  ultimately show ?thesis by (simp add: cv_inv_def)
qed

lemma cv_do_inv:
  assumes inv: "cv_inv s" and act: "cv_do s t a = Some s'" and ok: "cv_allowed s a"
  shows "cv_inv s'"
proof (cases a)
  case Lock
  with act inv show ?thesis
    by (auto split: if_splits intro!: cv_inv_quiet simp: pc_notifying_def)
next
  case Unlock
  with act inv show ?thesis
    by (auto split: if_splits cv_pc.splits intro!: cv_inv_quiet simp: pc_notifying_def)
      (auto simp: cv_inv_here [of s t])
next
  case (Call pc)
  with act inv show ?thesis
    by (auto split: if_splits intro!: cv_inv_quiet simp: pc_notifying_def)
next
  case Run
  with act cv_inv_run [OF inv, of t] show ?thesis by (auto split: option.splits)
next
  case (WakeOne u)
  with act have pc: "cv_pc s t = NoWake" "cv_pc s u = CvSleep" "t \<noteq> u"
    and s': "s' = cv_goto (cv_goto s u CvRelock) t NoSet" by (auto split: if_splits)
  let ?s = "cv_goto s u CvRelock"
  have "cv_inv ?s" using inv pc by (intro cv_inv_quiet) (simp_all add: pc_notifying_def)
  then have "cv_inv (cv_goto ?s t NoSet)" using pc
    unfolding cv_inv_goto [of ?s] cv_inv_here [of ?s t] by (simp add: pc_notifying_def)
  with s' show ?thesis by simp
next
  case WakeNone
  with act ok have "s' = cv_goto s t CvIdle" "\<not> other_at (cv_pc s) t (\<lambda>pc. pc = CvSleep)"
    by (auto split: if_splits simp: cv_allowed_def some_at_def other_at_def)
  with inv show ?thesis unfolding cv_inv_here [of s t] by (simp add: cv_inv_goto)
next
  case (Requeue u)
  with act cv_inv_requeue [OF inv] show ?thesis by (auto split: if_splits)
next
  case RequeueNone
  with act cv_inv_requeue [OF inv] show ?thesis by (auto split: if_splits)
next
  case Spurious
  with act inv show ?thesis
    by (auto split: if_splits intro!: cv_inv_quiet simp: pc_notifying_def)
next
  case LockWake
  with act inv show ?thesis
    by (auto split: if_splits intro!: cv_inv_quiet simp: pc_notifying_def)
qed

interpretation cv: inductive_invariant "\<lambda>s. s = libsimple_condvar_init" cv_step cv_inv
proof unfold_locales
  show "cv_inv s" if "s = libsimple_condvar_init" for s
    using that by (simp add: cv_inv_def libsimple_condvar_init_def some_at_def)
  show "cv_inv t" if "cv_inv s" "cv_step s t" for s t
    using that(2,1) by cases (rule cv_do_inv)
qed

section \<open>Counting notifications\<close>

text \<open>A run with \<open>n\<close> notifications, that is, \<open>n\<close> increments of the counter.\<close>

inductive cv_run :: "cv_sys \<Rightarrow> nat \<Rightarrow> cv_sys \<Rightarrow> bool" where
  stay: "cv_run s 0 s"
| step: "cv_run s n s1 \<Longrightarrow> cv_allowed s1 a \<Longrightarrow> cv_do s1 t a = Some s2 \<Longrightarrow>
    cv_run s (n + (if a = Run \<and> cv_pc s1 t \<in> {NoAdd, NaAdd} then 1 else 0)) s2"

lemma cv_count_local:
  assumes "cv_local pc w = Some (pc', w')"
  shows "cv_count w' = (cv_count w + (if pc \<in> {NoAdd, NaAdd} then 1 else 0)) mod 2 ^ 30"
proof -
  from assms cv_count_less [of w] show ?thesis
    by (cases pc) (auto simp: cv_local_defs cv_count_add cv_count_flags or.assoc split: if_splits)
qed

lemma cv_count_do:
  assumes "cv_do s t a = Some s'" and "a \<noteq> Run"
  shows "cv_word s' = cv_word s"
  using assms by (cases a) (auto split: if_splits cv_pc.splits simp: cv_requeue_def)

lemma cv_run_count:
  "cv_run s n s' \<Longrightarrow> cv_count (cv_word s') mod 2 ^ 30 = (cv_count (cv_word s) + n) mod 2 ^ 30"
proof (induction rule: cv_run.induct)
  case (step s n s1 a t s2)
  show ?case
  proof (cases "a = Run")
    case True
    with step.hyps(3) obtain pc w where "cv_local (cv_pc s1 t) (cv_word s1) = Some (pc, w)"
      "s2 = cv_goto (s1\<lparr>cv_word := w\<rparr>) t pc" by (auto split: option.splits)
    with cv_count_local [OF this(1)] step.IH True show ?thesis
      by (simp add: mod_simps) (metis mod_Suc_eq)
  next
    case False
    with cv_count_do [OF step.hyps(3)] step.IH show ?thesis by simp
  qed
qed simp

lemma cv_run_steps: "cv_run s n s' \<Longrightarrow> cv_step\<^sup>*\<^sup>* s s'"
  by (induction rule: cv_run.induct) (auto intro: rtranclp.rtrancl_into_rtrancl cv_step.act)

section \<open>Properties\<close>

text \<open>C29. No missed notification: between a waiter's recording of the word and its futex call, any
  number of notifications from one to 2^30 - 1, in any interleaving, makes the futex call
  return at once instead of putting the waiter to sleep.\<close>

theorem libsimple_condvar_no_missed_notification:
  assumes "cv_pc s0 t = CvOr" and "cv_do s0 t Run = Some s"
    and "cv_run s n s'" and "0 < n" and "n < 2 ^ 30"
  shows "cv_pc s t = CvUnlock (cv_word s) \<and>
    libsimple_condvar_wait (CvWait (cv_word s)) (cv_word s') = Some (CvRelock, cv_word s')"
proof -
  have "cv_word s' \<noteq> cv_word s"
  proof
    assume "cv_word s' = cv_word s"
    with cv_run_count [OF assms(3)]
    have "(cv_count (cv_word s) + n) mod 2 ^ 30 = cv_count (cv_word s) mod 2 ^ 30" by simp
    then have "2 ^ 30 dvd n"
      using mod_eq_dvd_iff_nat [of "cv_count (cv_word s)" "cv_count (cv_word s) + n" "2 ^ 30"] by simp
    with assms(4,5) show False using dvd_imp_le [of "2 ^ 30" n] by simp
  qed
  with assms(1,2) show ?thesis by (auto simp: cv_local_defs or.assoc)
qed

definition cv_wait_example :: "tid \<Rightarrow> (tid \<times> cv_act) list" where
  "cv_wait_example t = [(t, Lock), (t, Call CvOr), (t, Run), (t, Unlock), (t, Run)]"

abbreviation cv_or_state :: cv_sys where
  "cv_or_state \<equiv> \<lparr>cv_word = 3, cv_owner = Some 0, cv_pc = (\<lambda>_. CvIdle)(0 := CvUnlock 3)\<rparr>"

theorem libsimple_condvar_no_missed_notification_witness:
  "\<exists>s'. cv_run cv_or_state 1 s' \<and>
     libsimple_condvar_wait (CvWait (cv_word cv_or_state)) (cv_word s') = Some (CvRelock, cv_word s')"
proof -
  let ?s0 = "\<lparr>cv_word = 0, cv_owner = Some 0, cv_pc = (\<lambda>_. CvIdle)(0 := CvOr)\<rparr>"
  let ?s1 = "\<lparr>cv_word = 3, cv_owner = Some 0, cv_pc = (\<lambda>_. CvIdle)(0 := CvUnlock 3, 1 := NoAdd)\<rparr>"
  let ?s2 = "\<lparr>cv_word = 7, cv_owner = Some 0, cv_pc = (\<lambda>_. CvIdle)(0 := CvUnlock 3, 1 := NoAnd)\<rparr>"
  have or: "cv_do ?s0 0 Run = Some cv_or_state" by (simp add: cv_local_defs cv_goto_def)
  have "cv_run cv_or_state (0 + 0) ?s1"
    using cv_run.step [OF cv_run.stay [of cv_or_state], of "Call NoAdd" 1 ?s1]
    by (simp add: cv_allowed_def cv_goto_def)
  then have run: "cv_run cv_or_state 1 ?s2"
    using cv_run.step [of cv_or_state 0 ?s1 Run 1 ?s2]
    by (simp add: cv_allowed_def cv_goto_def cv_local_defs fun_upd_twist)
  have "cv_pc ?s0 0 = CvOr" by simp
  from libsimple_condvar_no_missed_notification [OF this or run]
  have "libsimple_condvar_wait (CvWait (cv_word cv_or_state)) (cv_word ?s2) = Some (CvRelock, cv_word ?s2)"
    by simp
  with run show ?thesis by blast
qed

text \<open>C30. Notifications reach sleepers: when a thread sleeps and no notification is under way, both
  flags are set, so that the next notify-one goes all the way to its wake call and the next
  notify-all to its requeue call.\<close>

theorem libsimple_condvar_notify_reaches_sleeper:
  assumes "cv_step\<^sup>*\<^sup>* libsimple_condvar_init s" and "cv_pc s t = CvSleep"
    and "\<forall>u. cv_pc s u \<notin> {NoWake, NoSet, NaRequeue}"
  shows "(\<exists>w1 w2. libsimple_condvar_notify_one NoAdd (cv_word s) = Some (NoAnd, w1) \<and>
            libsimple_condvar_notify_one NoAnd w1 = Some (NoWake, w2)) \<and>
         (\<exists>w1 w2. libsimple_condvar_notify_all NaAdd (cv_word s) = Some (NaAnd, w1) \<and>
            libsimple_condvar_notify_all NaAnd w1 = Some (NaRequeue, w2))"
proof -
  have "cv_inv s" using cv.reachable_inv [OF refl assms(1)] .
  with assms(2,3) have "bit (cv_word s) 0" "bit (cv_word s) 1"
    unfolding cv_inv_def some_at_def pc_notifying_def by blast+
  then have "(cv_word s + 4) AND 1 \<noteq> 0" "(cv_word s + 4) AND 2 \<noteq> 0"
    unfolding cv_flag_tests by (simp_all add: cv_add_low)
  then show ?thesis by (simp add: Let_def states)
qed

abbreviation cv_sleep_state :: cv_sys where
  "cv_sleep_state \<equiv> \<lparr>cv_word = 3, cv_owner = None, cv_pc = (\<lambda>_. CvIdle)(0 := CvSleep)\<rparr>"

lemma cv_sleep_run: "cv_sched libsimple_condvar_init (cv_wait_example 0) = Some cv_sleep_state"
  by (simp add: cv_wait_example_def libsimple_condvar_init_def cv_local_defs cv_goto_def)

theorem libsimple_condvar_notify_reaches_sleeper_witness:
  "\<exists>s w1 w2. cv_step\<^sup>*\<^sup>* libsimple_condvar_init s \<and> cv_pc s 0 = CvSleep \<and>
     libsimple_condvar_notify_one NoAdd (cv_word s) = Some (NoAnd, w1) \<and>
     libsimple_condvar_notify_one NoAnd w1 = Some (NoWake, w2)"
proof -
  have run: "cv_step\<^sup>*\<^sup>* libsimple_condvar_init cv_sleep_state" by (rule cv_sched_run [OF cv_sleep_run])
  have "cv_pc cv_sleep_state 0 = CvSleep" "\<forall>u. cv_pc cv_sleep_state u \<notin> {NoWake, NoSet, NaRequeue}"
    by simp_all
  with run libsimple_condvar_notify_reaches_sleeper [OF run this] show ?thesis by blast
qed

text \<open>C36. A notification can be swallowed by a concurrent one: with two sleepers, a notify-one that
  runs between another's clearing of the wake-one flag and its wake call returns without
  waking anybody, so that both calls return and one of the two threads goes on sleeping.\<close>

theorem libsimple_condvar_concurrent_notify_swallowed:
  "\<exists>s s'. cv_step\<^sup>*\<^sup>* libsimple_condvar_init s \<and> cv_pc s 0 = CvSleep \<and> cv_pc s 1 = CvSleep \<and>
     cv_sched s [(2, Call NoAdd), (2, Run), (2, Run), (3, Call NoAdd), (3, Run), (2, WakeOne 0), (2, Run)]
       = Some s' \<and>
     cv_pc s' 2 = CvIdle \<and> cv_pc s' 3 = CvIdle \<and> cv_pc s' 0 = CvRelock \<and> cv_pc s' 1 = CvSleep"
proof -
  let ?s = "\<lparr>cv_word = 3, cv_owner = None, cv_pc = (\<lambda>_. CvIdle)(0 := CvSleep, 1 := CvSleep)\<rparr>"
  have "cv_sched libsimple_condvar_init (cv_wait_example 0 @ cv_wait_example 1) = Some ?s"
    by (simp add: cv_wait_example_def libsimple_condvar_init_def cv_local_defs cv_goto_def fun_upd_twist)
  from cv_sched_run [OF this] have run: "cv_step\<^sup>*\<^sup>* libsimple_condvar_init ?s" .
  let ?s' = "\<lparr>cv_word = 11, cv_owner = None, cv_pc = (\<lambda>_. CvIdle)(0 := CvRelock, 1 := CvSleep)\<rparr>"
  have "cv_sched ?s [(2, Call NoAdd), (2, Run), (2, Run), (3, Call NoAdd), (3, Run), (2, WakeOne 0), (2, Run)]
      = Some ?s'"
    by (simp add: cv_local_defs cv_goto_def fun_eq_iff)
  with run show ?thesis by (intro exI [of _ ?s] exI [of _ ?s']) simp
qed

end
