(* ===== verification/Dtape_Mutex.thy ===== *)
theory Dtape_Mutex
  imports Osxie_Prelude
begin

text \<open>
  The microthread mutex of src/external/osxieserver/duct-tape/src/locks.c and the condition
  variable of condvar.c. A mutex is an owner, a queue lock and a queue of suspended
  microthreads; a native thread without a microthread uses the queue lock itself. The queue
  locks are the abstract lock that the futex lock refines: taking one waits until it is free,
  giving one up frees it whoever has it. The server's hooks have their documented behaviour:
  \<open>thread_suspend\<close> drops the lock it is given once the microthread is suspended, and
  \<open>thread_resume\<close> lets a suspended microthread continue after its suspension. One mutex and one
  condition variable are used by any number of threads.
\<close>

section \<open>State\<close>

text \<open>
  Program counters name the next access to shared state. \<open>Lk\<close>: \<open>dtape_mutex_lock\<close>; \<open>Nt\<close>: its
  path (and that of try-lock and unlock) without a microthread; \<open>Tr\<close>: \<open>dtape_mutex_try_lock\<close>;
  \<open>Un\<close>: \<open>dtape_mutex_unlock\<close>, whose argument says whether \<open>dtape_condvar_wait\<close> called it; \<open>Cw\<close> and
  \<open>Cs\<close>: wait and signal, the latter with whether its caller has the mutex.
\<close>

datatype dm_pc =
    DmIdle | DmHeld | DmPanic
  | LkAssert | LkAcquire | LkTest | LkOwn | LkRelease | LkEnqueue | LkSuspend | LkSuspended
  | NtAcquire | NtTest | NtRelease | NtHeld | NtUnlock | NtTry | NtTryTest | NtTryRelease
  | TrAssert | TrTest | TrOwn | TrRelease
  | UnAssert bool | UnAcquire bool | UnClear bool | UnWake bool | UnRelease bool
  | CwAcquire | CwEnqueue | CwSuspend | CwSuspended
  | CsAcquire bool nat | CsLoop bool nat | CsRelease bool

record dm_sys =
  dtape_owner :: "tid option"
  dtape_queue_lock :: "tid option"
  dtape_queue_head :: "tid list"
  cv_queue_lock :: "tid option"
  cv_queue_head :: "tid list"
  dm_pc :: "tid \<Rightarrow> dm_pc"

definition dtape_mutex_init :: dm_sys where
  "dtape_mutex_init = \<lparr>dtape_owner = None, dtape_queue_lock = None, dtape_queue_head = [],
     cv_queue_lock = None, cv_queue_head = [], dm_pc = (\<lambda>_. DmIdle)\<rparr>"

abbreviation dm_goto :: "dm_sys \<Rightarrow> tid \<Rightarrow> dm_pc \<Rightarrow> dm_sys" where
  "dm_goto s t pc \<equiv> s\<lparr>dm_pc := (dm_pc s)(t := pc)\<rparr>"

text \<open>\<open>libsimple_lock_lock\<close> and \<open>libsimple_lock_unlock\<close> on the two queue locks.\<close>

definition queue_lock_take :: "dm_sys \<Rightarrow> tid \<Rightarrow> dm_pc \<Rightarrow> dm_sys option" where
  "queue_lock_take s t pc = (if dtape_queue_lock s = None
     then Some (dm_goto (s\<lparr>dtape_queue_lock := Some t\<rparr>) t pc) else None)"

definition queue_lock_drop :: "dm_sys \<Rightarrow> tid \<Rightarrow> dm_pc \<Rightarrow> dm_sys option" where
  "queue_lock_drop s t pc = Some (dm_goto (s\<lparr>dtape_queue_lock := None\<rparr>) t pc)"

definition cv_lock_take :: "dm_sys \<Rightarrow> tid \<Rightarrow> dm_pc \<Rightarrow> dm_sys option" where
  "cv_lock_take s t pc = (if cv_queue_lock s = None
     then Some (dm_goto (s\<lparr>cv_queue_lock := Some t\<rparr>) t pc) else None)"

definition cv_lock_drop :: "dm_sys \<Rightarrow> tid \<Rightarrow> dm_pc \<Rightarrow> dm_sys option" where
  "cv_lock_drop s t pc = Some (dm_goto (s\<lparr>cv_queue_lock := None\<rparr>) t pc)"

text \<open>Where a suspended microthread continues when it is resumed.\<close>

fun thread_resume :: "dm_pc \<Rightarrow> dm_pc" where
  "thread_resume LkSuspended = LkAcquire"
| "thread_resume CwSuspended = LkAssert"
| "thread_resume pc = pc"

section \<open>The functions\<close>

definition dtape_mutex_assert :: "dm_sys \<Rightarrow> tid \<Rightarrow> bool \<Rightarrow> dm_pc \<Rightarrow> dm_sys option" where
  "dtape_mutex_assert s t should_be_owned pc =
     Some (dm_goto s t (if should_be_owned = (dtape_owner s = Some t) then pc else DmPanic))"

fun dtape_mutex_lock :: "dm_pc \<Rightarrow> dm_sys \<Rightarrow> tid \<Rightarrow> dm_sys option" where
  "dtape_mutex_lock NtAcquire s t = queue_lock_take s t NtTest"
| "dtape_mutex_lock NtTest s t =
     Some (dm_goto s t (if dtape_owner s = None then NtHeld else NtRelease))"
| "dtape_mutex_lock NtRelease s t = queue_lock_drop s t NtAcquire"
| "dtape_mutex_lock LkAssert s t = dtape_mutex_assert s t False LkAcquire"
| "dtape_mutex_lock LkAcquire s t = queue_lock_take s t LkTest"
| "dtape_mutex_lock LkTest s t =
     Some (dm_goto s t (if dtape_owner s = None \<or> dtape_owner s = Some t then LkOwn else LkEnqueue))"
| "dtape_mutex_lock LkOwn s t = Some (dm_goto (s\<lparr>dtape_owner := Some t\<rparr>) t LkRelease)"
| "dtape_mutex_lock LkRelease s t = queue_lock_drop s t DmHeld"
| "dtape_mutex_lock LkEnqueue s t =
     Some (dm_goto (s\<lparr>dtape_queue_head := dtape_queue_head s @ [t]\<rparr>) t LkSuspend)"
| "dtape_mutex_lock LkSuspend s t = queue_lock_drop s t LkSuspended"
| "dtape_mutex_lock _ s t = None"

fun dtape_mutex_try_lock :: "dm_pc \<Rightarrow> dm_sys \<Rightarrow> tid \<Rightarrow> dm_sys option" where
  "dtape_mutex_try_lock NtTry s t =
     (if dtape_queue_lock s = None then queue_lock_take s t NtTryTest else Some (dm_goto s t DmIdle))"
| "dtape_mutex_try_lock NtTryTest s t =
     Some (dm_goto s t (if dtape_owner s = None then NtHeld else NtTryRelease))"
| "dtape_mutex_try_lock NtTryRelease s t = queue_lock_drop s t DmIdle"
| "dtape_mutex_try_lock TrAssert s t = dtape_mutex_assert s t False TrTest"
| "dtape_mutex_try_lock TrTest s t =
     Some (dm_goto s t (if dtape_owner s = None \<or> dtape_owner s = Some t then TrOwn else DmIdle))"
| "dtape_mutex_try_lock TrOwn s t = Some (dm_goto (s\<lparr>dtape_owner := Some t\<rparr>) t TrRelease)"
| "dtape_mutex_try_lock TrRelease s t = queue_lock_drop s t DmHeld"
| "dtape_mutex_try_lock _ s t = None"

fun dtape_mutex_unlock :: "dm_pc \<Rightarrow> dm_sys \<Rightarrow> tid \<Rightarrow> dm_sys option" where
  "dtape_mutex_unlock NtUnlock s t = queue_lock_drop s t DmIdle"
| "dtape_mutex_unlock (UnAssert c) s t = dtape_mutex_assert s t True (UnAcquire c)"
| "dtape_mutex_unlock (UnAcquire c) s t = queue_lock_take s t (UnClear c)"
| "dtape_mutex_unlock (UnClear c) s t = Some (dm_goto (s\<lparr>dtape_owner := None\<rparr>) t (UnWake c))"
| "dtape_mutex_unlock (UnWake c) s t =
     (case dtape_queue_head s of
        [] \<Rightarrow> Some (dm_goto s t (UnRelease c))
      | u # q \<Rightarrow> Some (dm_goto (dm_goto (s\<lparr>dtape_queue_head := q\<rparr>) u (thread_resume (dm_pc s u)))
                   t (UnRelease c)))"
| "dtape_mutex_unlock (UnRelease c) s t = queue_lock_drop s t (if c then CwEnqueue else DmIdle)"
| "dtape_mutex_unlock _ s t = None"

fun dtape_condvar_wait :: "dm_pc \<Rightarrow> dm_sys \<Rightarrow> tid \<Rightarrow> dm_sys option" where
  "dtape_condvar_wait CwAcquire s t = cv_lock_take s t (UnAssert True)"
| "dtape_condvar_wait CwEnqueue s t =
     Some (dm_goto (s\<lparr>cv_queue_head := cv_queue_head s @ [t]\<rparr>) t CwSuspend)"
| "dtape_condvar_wait CwSuspend s t = cv_lock_drop s t CwSuspended"
| "dtape_condvar_wait _ s t = None"

fun dtape_condvar_signal :: "dm_pc \<Rightarrow> dm_sys \<Rightarrow> tid \<Rightarrow> dm_sys option" where
  "dtape_condvar_signal (CsAcquire h n) s t = cv_lock_take s t (CsLoop h n)"
| "dtape_condvar_signal (CsLoop h n) s t =
     (if n > 0 then
        (case cv_queue_head s of
           [] \<Rightarrow> Some (dm_goto s t (CsRelease h))
         | u # q \<Rightarrow> Some (dm_goto (dm_goto (s\<lparr>cv_queue_head := q\<rparr>) u (thread_resume (dm_pc s u)))
                      t (CsLoop h (n - 1))))
      else Some (dm_goto s t (CsRelease h)))"
| "dtape_condvar_signal (CsRelease h) s t = cv_lock_drop s t (if h then DmHeld else DmIdle)"
| "dtape_condvar_signal _ s t = None"

section \<open>Threads using them\<close>

definition dm_local :: "dm_sys \<Rightarrow> tid \<Rightarrow> dm_sys option" where
  "dm_local s t =
     (case dtape_mutex_lock (dm_pc s t) s t of Some s' \<Rightarrow> Some s'
      | None \<Rightarrow> (case dtape_mutex_try_lock (dm_pc s t) s t of Some s' \<Rightarrow> Some s'
      | None \<Rightarrow> (case dtape_mutex_unlock (dm_pc s t) s t of Some s' \<Rightarrow> Some s'
      | None \<Rightarrow> (case dtape_condvar_wait (dm_pc s t) s t of Some s' \<Rightarrow> Some s'
      | None \<Rightarrow> dtape_condvar_signal (dm_pc s t) s t))))"

text \<open>
  The calls a thread may make; \<open>tries\<close> says whether microthreads use try-lock. Locking again
  and unlocking without holding are included: the assertions catch them.
\<close>

fun dm_call :: "bool \<Rightarrow> dm_pc \<Rightarrow> dm_pc \<Rightarrow> bool" where
  "dm_call tries DmIdle pc \<longleftrightarrow> pc \<in> {LkAssert, NtAcquire, NtTry, UnAssert False} \<or>
     (\<exists>n. pc = CsAcquire False n) \<or> (tries \<and> pc = TrAssert)"
| "dm_call tries DmHeld pc \<longleftrightarrow> pc \<in> {LkAssert, UnAssert False, CwAcquire} \<or>
     (\<exists>n. pc = CsAcquire True n) \<or> (tries \<and> pc = TrAssert)"
| "dm_call tries NtHeld pc \<longleftrightarrow> pc = NtUnlock"
| "dm_call tries _ _ \<longleftrightarrow> False"

inductive dm_step :: "bool \<Rightarrow> dm_sys \<Rightarrow> dm_sys \<Rightarrow> bool" for tries :: bool where
  call: "dm_call tries (dm_pc s t) pc \<Longrightarrow> dm_step tries s (dm_goto s t pc)"
| run: "dm_local s t = Some s' \<Longrightarrow> dm_step tries s s'"

fun dm_sched :: "bool \<Rightarrow> dm_sys \<Rightarrow> (tid \<times> dm_pc option) list \<Rightarrow> dm_sys option" where
  "dm_sched tries s [] = Some s"
| "dm_sched tries s ((t, Some pc) # as) =
     (if dm_call tries (dm_pc s t) pc then dm_sched tries (dm_goto s t pc) as else None)"
| "dm_sched tries s ((t, None) # as) =
     (case dm_local s t of Some s' \<Rightarrow> dm_sched tries s' as | None \<Rightarrow> None)"

lemma dm_sched_run: "dm_sched tries s as = Some s' \<Longrightarrow> (dm_step tries)\<^sup>*\<^sup>* s s'"
proof (induction tries s as rule: dm_sched.induct)
  case (2 tries s t pc as)
  then show ?case by (auto split: if_splits intro: converse_rtranclp_into_rtranclp dm_step.call)
next
  case (3 tries s t as)
  then show ?case by (auto split: option.splits intro: converse_rtranclp_into_rtranclp dm_step.run)
qed simp

section \<open>Invariant\<close>

text \<open>
  What a program counter says about the shared state: having the queue lock, having the
  condition variable's lock, owning the mutex (for certain, or possibly, on the way into an
  assertion), having seen it free or taken, and being in one of the queues.
\<close>

fun pc_has_q :: "dm_pc \<Rightarrow> bool" where
  "pc_has_q (UnClear c) \<longleftrightarrow> True" | "pc_has_q (UnWake c) \<longleftrightarrow> True" | "pc_has_q (UnRelease c) \<longleftrightarrow> True"
| "pc_has_q pc \<longleftrightarrow> pc \<in> {LkTest, LkOwn, LkRelease, LkEnqueue, LkSuspend, NtTest, NtRelease, NtHeld,
     NtUnlock, NtTryTest, NtTryRelease}"

fun pc_has_c :: "dm_pc \<Rightarrow> bool" where
  "pc_has_c (UnAssert c) \<longleftrightarrow> c" | "pc_has_c (UnAcquire c) \<longleftrightarrow> c" | "pc_has_c (UnClear c) \<longleftrightarrow> c"
| "pc_has_c (UnWake c) \<longleftrightarrow> c" | "pc_has_c (UnRelease c) \<longleftrightarrow> c"
| "pc_has_c (CsLoop h n) \<longleftrightarrow> True" | "pc_has_c (CsRelease h) \<longleftrightarrow> True"
| "pc_has_c pc \<longleftrightarrow> pc \<in> {CwEnqueue, CwSuspend}"

fun pc_owns :: "dm_pc \<Rightarrow> bool" where
  "pc_owns (UnAssert c) \<longleftrightarrow> c" | "pc_owns (UnAcquire c) \<longleftrightarrow> True" | "pc_owns (UnClear c) \<longleftrightarrow> True"
| "pc_owns (CsAcquire h n) \<longleftrightarrow> h" | "pc_owns (CsLoop h n) \<longleftrightarrow> h" | "pc_owns (CsRelease h) \<longleftrightarrow> h"
| "pc_owns pc \<longleftrightarrow> pc \<in> {LkRelease, DmHeld, CwAcquire}"

definition pc_may_own :: "dm_pc \<Rightarrow> bool" where
  "pc_may_own pc \<longleftrightarrow> pc_owns pc \<or> pc \<in> {UnAssert False, LkAssert, DmPanic}"

definition pc_free :: "dm_pc \<Rightarrow> bool" where
  "pc_free pc \<longleftrightarrow> pc \<in> {LkOwn, NtHeld, NtUnlock} \<or> (\<exists>c. pc = UnWake c \<or> pc = UnRelease c)"

definition pc_busy :: "dm_pc \<Rightarrow> bool" where
  "pc_busy pc \<longleftrightarrow> pc \<in> {LkEnqueue, LkSuspend}"

definition pc_in_q :: "dm_pc \<Rightarrow> bool" where
  "pc_in_q pc \<longleftrightarrow> pc \<in> {LkSuspend, LkSuspended}"

definition pc_in_c :: "dm_pc \<Rightarrow> bool" where
  "pc_in_c pc \<longleftrightarrow> pc \<in> {CwSuspend, CwSuspended}"

definition pc_helps :: "dm_pc \<Rightarrow> bool" where
  "pc_helps pc \<longleftrightarrow> pc \<in> {LkAcquire, LkTest, LkOwn} \<or> (\<exists>c. pc = UnWake c)"

lemmas dm_classes = pc_may_own_def pc_free_def pc_busy_def pc_in_q_def pc_in_c_def pc_helps_def

definition dm_ok :: "dm_sys \<Rightarrow> tid \<Rightarrow> dm_pc \<Rightarrow> bool" where
  "dm_ok s u pc \<longleftrightarrow> pc \<notin> {TrAssert, TrTest, TrOwn, TrRelease} \<and>
     (dtape_queue_lock s = Some u \<longleftrightarrow> pc_has_q pc) \<and> (cv_queue_lock s = Some u \<longleftrightarrow> pc_has_c pc) \<and>
     (pc_owns pc \<longrightarrow> dtape_owner s = Some u) \<and> (dtape_owner s = Some u \<longrightarrow> pc_may_own pc) \<and>
     (pc_free pc \<longrightarrow> dtape_owner s = None) \<and> (pc_busy pc \<longrightarrow> dtape_owner s \<noteq> None) \<and>
     (u \<in> set (dtape_queue_head s) \<longleftrightarrow> pc_in_q pc) \<and> (u \<in> set (cv_queue_head s) \<longleftrightarrow> pc_in_c pc)"

definition dm_inv :: "dm_sys \<Rightarrow> bool" where
  "dm_inv s \<longleftrightarrow> (\<forall>u. dm_ok s u (dm_pc s u)) \<and> distinct (dtape_queue_head s) \<and>
     distinct (cv_queue_head s) \<and>
     (dtape_queue_head s \<noteq> [] \<longrightarrow> dtape_owner s \<noteq> None \<or> some_at (dm_pc s) pc_helps)"

section \<open>Every step keeps the invariant\<close>

lemma dm_invI:
  assumes "\<And>u. dm_ok s u (dm_pc s u)" and "distinct (dtape_queue_head s)"
    and "distinct (cv_queue_head s)"
    and "dtape_queue_head s \<noteq> [] \<Longrightarrow> dtape_owner s = None \<Longrightarrow> some_at (dm_pc s) pc_helps"
  shows "dm_inv s"
  using assms unfolding dm_inv_def by blast

lemma dm_invD:
  assumes "dm_inv s"
  shows "dm_ok s u (dm_pc s u)" and "distinct (dtape_queue_head s)" and "distinct (cv_queue_head s)"
    and "dtape_queue_head s \<noteq> [] \<Longrightarrow> dtape_owner s = None \<Longrightarrow> some_at (dm_pc s) pc_helps"
  using assms unfolding dm_inv_def by blast+

lemma pc_free_busy_has_q: "pc_free pc \<or> pc_busy pc \<Longrightarrow> pc_has_q pc"
  by (auto simp: pc_free_def pc_busy_def)

text \<open>
  A move of thread \<open>t\<close> that leaves owner and queues alone, whatever it does to the locks it has:
  it must be right about the new state itself.
\<close>

lemma dm_inv_locks:
  assumes inv: "dm_inv s"
    and ql: "\<And>u. u \<noteq> t \<Longrightarrow> (ql = Some u) = (dtape_queue_lock s = Some u)"
    and cl: "\<And>u. u \<noteq> t \<Longrightarrow> (cl = Some u) = (cv_queue_lock s = Some u)"
    and ok: "dm_ok (s\<lparr>dtape_queue_lock := ql, cv_queue_lock := cl\<rparr>) t pc"
    and helps: "pc_helps (dm_pc s t) \<Longrightarrow> pc_helps pc \<or> dtape_owner s \<noteq> None \<or> dtape_queue_head s = []"
  shows "dm_inv (dm_goto (s\<lparr>dtape_queue_lock := ql, cv_queue_lock := cl\<rparr>) t pc)"
proof (rule dm_invI)
  let ?s = "dm_goto (s\<lparr>dtape_queue_lock := ql, cv_queue_lock := cl\<rparr>) t pc"
  show "dm_ok ?s u (dm_pc ?s u)" for u
    using ok dm_invD(1) [OF inv, of u] ql [of u] cl [of u] by (cases "u = t") (simp_all add: dm_ok_def)
  show "some_at (dm_pc ?s) pc_helps" if "dtape_queue_head ?s \<noteq> []" "dtape_owner ?s = None"
  proof -
    from that have "some_at (dm_pc s) pc_helps" by (intro dm_invD(4) [OF inv]) simp_all
    with helps that show ?thesis unfolding some_at_split [of "dm_pc s" _ t] by (auto simp: some_at_upd)
  qed
qed (use dm_invD(2,3) [OF inv] in simp_all)

lemma dm_inv_goto:
  assumes "dm_inv s" and "dm_ok s t pc"
    and "pc_helps (dm_pc s t) \<Longrightarrow> pc_helps pc \<or> dtape_owner s \<noteq> None \<or> dtape_queue_head s = []"
  shows "dm_inv (dm_goto s t pc)"
  using dm_inv_locks [OF assms(1), of t "dtape_queue_lock s" "cv_queue_lock s" pc] assms(2,3) by simp

text \<open>The steps that write the owner.\<close>

lemma dm_inv_own:
  assumes inv: "dm_inv s" and pc: "dm_pc s t = LkOwn"
  shows "dm_inv (dm_goto (s\<lparr>dtape_owner := Some t\<rparr>) t LkRelease)"
proof (rule dm_invI)
  let ?s = "dm_goto (s\<lparr>dtape_owner := Some t\<rparr>) t LkRelease"
  from dm_invD(1) [OF inv, of t] pc have t: "dtape_queue_lock s = Some t" "dtape_owner s = None"
    by (auto simp: dm_ok_def dm_classes)
  show "dm_ok ?s u (dm_pc ?s u)" for u
  proof (cases "u = t")
    case True
    with dm_invD(1) [OF inv, of t] pc show ?thesis by (auto simp: dm_ok_def dm_classes)
  next
    case False
    with dm_invD(1) [OF inv, of u] t pc_free_busy_has_q [of "dm_pc s u"] show ?thesis
      by (auto simp: dm_ok_def)
  qed
qed (use dm_invD(2,3) [OF inv] in simp_all)

lemma dm_inv_clear:
  assumes inv: "dm_inv s" and pc: "dm_pc s t = UnClear c"
  shows "dm_inv (dm_goto (s\<lparr>dtape_owner := None\<rparr>) t (UnWake c))"
proof (rule dm_invI)
  let ?s = "dm_goto (s\<lparr>dtape_owner := None\<rparr>) t (UnWake c)"
  from dm_invD(1) [OF inv, of t] pc have t: "dtape_queue_lock s = Some t" "dtape_owner s = Some t"
    by (auto simp: dm_ok_def dm_classes)
  show "dm_ok ?s u (dm_pc ?s u)" for u
  proof (cases "u = t")
    case True
    with dm_invD(1) [OF inv, of t] pc show ?thesis by (auto simp: dm_ok_def dm_classes)
  next
    case False
    with dm_invD(1) [OF inv, of u] t pc_free_busy_has_q [of "dm_pc s u"] show ?thesis
      by (auto simp: dm_ok_def)
  qed
  show "some_at (dm_pc ?s) pc_helps" by (simp add: some_at_upd pc_helps_def)
qed (use dm_invD(2,3) [OF inv] in simp_all)

text \<open>The steps that put a thread into a queue.\<close>

lemma dm_inv_enqueue:
  assumes inv: "dm_inv s" and pc: "dm_pc s t = LkEnqueue"
  shows "dm_inv (dm_goto (s\<lparr>dtape_queue_head := dtape_queue_head s @ [t]\<rparr>) t LkSuspend)"
proof (rule dm_invI)
  let ?s = "dm_goto (s\<lparr>dtape_queue_head := dtape_queue_head s @ [t]\<rparr>) t LkSuspend"
  note t = dm_invD(1) [OF inv, of t] pc
  show "dm_ok ?s u (dm_pc ?s u)" for u
    using t dm_invD(1) [OF inv, of u] by (cases "u = t") (auto simp: dm_ok_def dm_classes)
  show "distinct (dtape_queue_head ?s)" using t dm_invD(2) [OF inv] by (auto simp: dm_ok_def dm_classes)
  show "some_at (dm_pc ?s) pc_helps" if "dtape_owner ?s = None"
    using that t by (auto simp: dm_ok_def dm_classes)
qed (use dm_invD(3) [OF inv] in simp)

lemma dm_inv_cv_enqueue:
  assumes inv: "dm_inv s" and pc: "dm_pc s t = CwEnqueue"
  shows "dm_inv (dm_goto (s\<lparr>cv_queue_head := cv_queue_head s @ [t]\<rparr>) t CwSuspend)"
proof (rule dm_invI)
  let ?s = "dm_goto (s\<lparr>cv_queue_head := cv_queue_head s @ [t]\<rparr>) t CwSuspend"
  note t = dm_invD(1) [OF inv, of t] pc
  show "dm_ok ?s u (dm_pc ?s u)" for u
    using t dm_invD(1) [OF inv, of u] by (cases "u = t") (auto simp: dm_ok_def dm_classes)
  show "distinct (cv_queue_head ?s)" using t dm_invD(3) [OF inv] by (auto simp: dm_ok_def dm_classes)
  show "some_at (dm_pc ?s) pc_helps" if "dtape_queue_head ?s \<noteq> []" "dtape_owner ?s = None"
  proof -
    from that have "some_at (dm_pc s) pc_helps" by (intro dm_invD(4) [OF inv]) simp_all
    with pc show ?thesis unfolding some_at_split [of "dm_pc s" _ t]
      by (simp add: some_at_upd pc_helps_def)
  qed
qed (use dm_invD(2) [OF inv] in simp)

text \<open>
  The steps that take one out: the thread at the head is suspended, since a thread that is
  still on its way to suspension has the lock of the queue.
\<close>

lemma dm_queue_head_suspended:
  assumes "dm_inv s" and "dtape_queue_head s = u # q" and "pc_has_q (dm_pc s t)" and "dm_pc s t \<noteq> LkSuspend"
  shows "dm_pc s u = LkSuspended"
proof -
  have "pc_in_q (dm_pc s u)" using dm_invD(1) [OF assms(1), of u] assms(2) by (simp add: dm_ok_def)
  moreover have "dm_pc s u \<noteq> LkSuspend"
  proof
    assume "dm_pc s u = LkSuspend"
    then have "dtape_queue_lock s = Some u" using dm_invD(1) [OF assms(1), of u] by (simp add: dm_ok_def)
    moreover have "dtape_queue_lock s = Some t"
      using dm_invD(1) [OF assms(1), of t] assms(3) by (simp add: dm_ok_def)
    ultimately show False using \<open>dm_pc s u = LkSuspend\<close> assms(4) by simp
  qed
  ultimately show ?thesis by (simp add: pc_in_q_def)
qed

lemma dm_cv_queue_head_suspended:
  assumes "dm_inv s" and "cv_queue_head s = u # q" and "pc_has_c (dm_pc s t)" and "dm_pc s t \<noteq> CwSuspend"
  shows "dm_pc s u = CwSuspended"
proof -
  have "pc_in_c (dm_pc s u)" using dm_invD(1) [OF assms(1), of u] assms(2) by (simp add: dm_ok_def)
  moreover have "dm_pc s u \<noteq> CwSuspend"
  proof
    assume "dm_pc s u = CwSuspend"
    then have "cv_queue_lock s = Some u" using dm_invD(1) [OF assms(1), of u] by (simp add: dm_ok_def)
    moreover have "cv_queue_lock s = Some t"
      using dm_invD(1) [OF assms(1), of t] assms(3) by (simp add: dm_ok_def)
    ultimately show False using \<open>dm_pc s u = CwSuspend\<close> assms(4) by simp
  qed
  ultimately show ?thesis by (simp add: pc_in_c_def)
qed

lemma dm_inv_dequeue:
  assumes inv: "dm_inv s" and pc: "dm_pc s t = UnWake c" and q: "dtape_queue_head s = u # q"
  shows "dm_inv (dm_goto (dm_goto (s\<lparr>dtape_queue_head := q\<rparr>) u (thread_resume (dm_pc s u))) t (UnRelease c))"
proof -
  have u: "dm_pc s u = LkSuspended" using dm_queue_head_suspended [OF inv q, of t] pc by simp
  with pc have ne: "u \<noteq> t" by auto
  let ?s = "dm_goto (dm_goto (s\<lparr>dtape_queue_head := q\<rparr>) u LkAcquire) t (UnRelease c)"
  have "dm_inv ?s"
  proof (rule dm_invI)
    have d: "distinct (u # q)" using dm_invD(2) [OF inv] q by simp
    show "dm_ok ?s v (dm_pc ?s v)" for v
    proof -
      consider "v = t" | "v = u" | "v \<noteq> t" "v \<noteq> u" by blast
      then show ?thesis using dm_invD(1) [OF inv, of v] pc u ne d q
        by cases (auto simp: dm_ok_def dm_classes)
    qed
    show "distinct (dtape_queue_head ?s)" using d by simp
    show "some_at (dm_pc ?s) pc_helps"
      using ne by (auto simp: some_at_def pc_helps_def intro!: exI [of _ u])
  qed (use dm_invD(3) [OF inv] in simp)
  with u show ?thesis by simp
qed

lemma dm_inv_cv_dequeue:
  assumes inv: "dm_inv s" and pc: "dm_pc s t = CsLoop h n" and q: "cv_queue_head s = u # q"
  shows "dm_inv (dm_goto (dm_goto (s\<lparr>cv_queue_head := q\<rparr>) u (thread_resume (dm_pc s u))) t (CsLoop h m))"
proof -
  have u: "dm_pc s u = CwSuspended" using dm_cv_queue_head_suspended [OF inv q, of t] pc by simp
  with pc have ne: "u \<noteq> t" by auto
  let ?s = "dm_goto (dm_goto (s\<lparr>cv_queue_head := q\<rparr>) u LkAssert) t (CsLoop h m)"
  have "dm_inv ?s"
  proof (rule dm_invI)
    have d: "distinct (u # q)" using dm_invD(3) [OF inv] q by simp
    show "dm_ok ?s v (dm_pc ?s v)" for v
    proof -
      consider "v = t" | "v = u" | "v \<noteq> t" "v \<noteq> u" by blast
      then show ?thesis using dm_invD(1) [OF inv, of v] pc u ne d q
        by cases (auto simp: dm_ok_def dm_classes)
    qed
    show "distinct (cv_queue_head ?s)" using d by simp
    show "some_at (dm_pc ?s) pc_helps" if "dtape_queue_head ?s \<noteq> []" "dtape_owner ?s = None"
    proof -
      from that have "some_at (dm_pc s) pc_helps" by (intro dm_invD(4) [OF inv]) simp_all
      then obtain v where v: "pc_helps (dm_pc s v)" by (auto simp: some_at_def)
      with pc u have "v \<noteq> t" "v \<noteq> u" by (auto simp: pc_helps_def)
      with v show ?thesis by (auto simp: some_at_def intro!: exI [of _ v])
    qed
  qed (use dm_invD(2) [OF inv] in simp)
  with u show ?thesis by simp
qed

lemmas lock_ops = queue_lock_take_def queue_lock_drop_def cv_lock_take_def cv_lock_drop_def

lemma dm_inv_take:
  assumes "dm_inv s" and "queue_lock_take s t pc = Some s'"
    and "dm_ok (s\<lparr>dtape_queue_lock := Some t\<rparr>) t pc" and "pc_helps (dm_pc s t) \<Longrightarrow> pc_helps pc"
  shows "dm_inv s'"
  using dm_inv_locks [OF assms(1), of t "Some t" "cv_queue_lock s" pc] assms(2,3,4)
  by (auto simp: lock_ops split: if_splits)

lemma dm_inv_drop:
  assumes "dm_inv s" and "queue_lock_drop s t pc = Some s'" and "pc_has_q (dm_pc s t)"
    and "dm_ok (s\<lparr>dtape_queue_lock := None\<rparr>) t pc" and "\<not> pc_helps (dm_pc s t)"
  shows "dm_inv s'"
proof -
  have "dtape_queue_lock s = Some t" using dm_invD(1) [OF assms(1), of t] assms(3) by (simp add: dm_ok_def)
  with dm_inv_locks [OF assms(1), of t None "cv_queue_lock s" pc] assms(2,4,5) show ?thesis
    by (auto simp: lock_ops)
qed

lemma dm_inv_cv_take:
  assumes "dm_inv s" and "cv_lock_take s t pc = Some s'"
    and "dm_ok (s\<lparr>cv_queue_lock := Some t\<rparr>) t pc" and "\<not> pc_helps (dm_pc s t)"
  shows "dm_inv s'"
  using dm_inv_locks [OF assms(1), of t "dtape_queue_lock s" "Some t" pc] assms(2,3,4)
  by (auto simp: lock_ops split: if_splits)

lemma dm_inv_cv_drop:
  assumes "dm_inv s" and "cv_lock_drop s t pc = Some s'" and "pc_has_c (dm_pc s t)"
    and "dm_ok (s\<lparr>cv_queue_lock := None\<rparr>) t pc" and "\<not> pc_helps (dm_pc s t)"
  shows "dm_inv s'"
proof -
  have "cv_queue_lock s = Some t" using dm_invD(1) [OF assms(1), of t] assms(3) by (simp add: dm_ok_def)
  with dm_inv_locks [OF assms(1), of t "dtape_queue_lock s" None pc] assms(2,4,5) show ?thesis
    by (auto simp: lock_ops)
qed

lemma dtape_mutex_lock_inv:
  assumes inv: "dm_inv s" and run: "dtape_mutex_lock (dm_pc s t) s t = Some s'"
  shows "dm_inv s'"
proof -
  note here = dm_invD(1) [OF inv, of t, unfolded dm_ok_def]
  show ?thesis
  proof (cases "dm_pc s t")
    case NtAcquire
    with run here show ?thesis by (intro dm_inv_take [OF inv, of t NtTest]) (auto simp: dm_ok_def dm_classes)
  next
    case NtTest
    with run here inv show ?thesis by (auto intro!: dm_inv_goto simp: dm_ok_def dm_classes)
  next
    case NtRelease
    with run here show ?thesis by (intro dm_inv_drop [OF inv, of t NtAcquire]) (auto simp: dm_ok_def dm_classes)
  next
    case LkAssert
    with run here inv show ?thesis
      by (auto intro!: dm_inv_goto simp: dtape_mutex_assert_def dm_ok_def dm_classes)
  next
    case LkAcquire
    with run here show ?thesis by (intro dm_inv_take [OF inv, of t LkTest]) (auto simp: dm_ok_def dm_classes)
  next
    case LkTest
    with run here inv show ?thesis by (cases "dtape_owner s = None") (auto intro!: dm_inv_goto simp: dm_ok_def dm_classes)
  next
    case LkOwn
    with run dm_inv_own [OF inv LkOwn] show ?thesis by simp
  next
    case LkRelease
    with run here show ?thesis by (intro dm_inv_drop [OF inv, of t DmHeld]) (auto simp: dm_ok_def dm_classes)
  next
    case LkEnqueue
    with run dm_inv_enqueue [OF inv LkEnqueue] show ?thesis by simp
  next
    case LkSuspend
    with run here show ?thesis by (intro dm_inv_drop [OF inv, of t LkSuspended]) (auto simp: dm_ok_def dm_classes)
  qed (use run in simp_all)
qed

lemma dtape_mutex_try_lock_inv:
  assumes inv: "dm_inv s" and run: "dtape_mutex_try_lock (dm_pc s t) s t = Some s'"
  shows "dm_inv s'"
proof -
  note here = dm_invD(1) [OF inv, of t, unfolded dm_ok_def]
  show ?thesis
  proof (cases "dm_pc s t")
    case NtTry
    show ?thesis
    proof (cases "dtape_queue_lock s = None")
      case True
      with NtTry run here show ?thesis
        by (intro dm_inv_take [OF inv, of t NtTryTest]) (auto simp: dm_ok_def dm_classes)
    next
      case False
      with NtTry run here inv show ?thesis by (auto intro!: dm_inv_goto simp: dm_ok_def dm_classes)
    qed
  next
    case NtTryTest
    with run here inv show ?thesis by (auto intro!: dm_inv_goto simp: dm_ok_def dm_classes)
  next
    case NtTryRelease
    with run here show ?thesis by (intro dm_inv_drop [OF inv, of t DmIdle]) (auto simp: dm_ok_def dm_classes)
  qed (use run here in simp_all)
qed

lemma dtape_mutex_unlock_inv:
  assumes inv: "dm_inv s" and run: "dtape_mutex_unlock (dm_pc s t) s t = Some s'"
  shows "dm_inv s'"
proof -
  note here = dm_invD(1) [OF inv, of t, unfolded dm_ok_def]
  show ?thesis
  proof (cases "dm_pc s t")
    case NtUnlock
    with run here show ?thesis by (intro dm_inv_drop [OF inv, of t DmIdle]) (auto simp: dm_ok_def dm_classes)
  next
    case (UnAssert c)
    with run here inv show ?thesis
      by (auto intro!: dm_inv_goto simp: dtape_mutex_assert_def dm_ok_def dm_classes)
  next
    case (UnAcquire c)
    with run here show ?thesis
      by (intro dm_inv_take [OF inv, of t "UnClear c"]) (auto simp: dm_ok_def dm_classes)
  next
    case (UnClear c)
    with run dm_inv_clear [OF inv UnClear] show ?thesis by simp
  next
    case (UnWake c)
    show ?thesis
    proof (cases "dtape_queue_head s")
      case Nil
      with UnWake run here inv show ?thesis by (auto intro!: dm_inv_goto simp: dm_ok_def dm_classes)
    next
      case (Cons u q)
      with UnWake run dm_inv_dequeue [OF inv UnWake Cons] show ?thesis by simp
    qed
  next
    case (UnRelease c)
    with run here show ?thesis
      by (intro dm_inv_drop [OF inv, of t "if c then CwEnqueue else DmIdle"])
         (auto simp: dm_ok_def dm_classes)
  qed (use run in simp_all)
qed

lemma dtape_condvar_inv:
  assumes inv: "dm_inv s"
    and run: "dtape_condvar_wait (dm_pc s t) s t = Some s' \<or> dtape_condvar_signal (dm_pc s t) s t = Some s'"
  shows "dm_inv s'"
proof -
  note here = dm_invD(1) [OF inv, of t, unfolded dm_ok_def]
  show ?thesis
  proof (cases "dm_pc s t")
    case CwAcquire
    with run here show ?thesis
      by (intro dm_inv_cv_take [OF inv, of t "UnAssert True"]) (auto simp: dm_ok_def dm_classes)
  next
    case CwEnqueue
    with run dm_inv_cv_enqueue [OF inv CwEnqueue] show ?thesis by simp
  next
    case CwSuspend
    with run here show ?thesis
      by (intro dm_inv_cv_drop [OF inv, of t CwSuspended]) (auto simp: dm_ok_def dm_classes)
  next
    case (CsAcquire h n)
    with run here show ?thesis
      by (intro dm_inv_cv_take [OF inv, of t "CsLoop h n"]) (auto simp: dm_ok_def dm_classes)
  next
    case (CsLoop h n)
    show ?thesis
    proof (cases "n > 0 \<and> cv_queue_head s \<noteq> []")
      case True
      then obtain u q where "cv_queue_head s = u # q" by (cases "cv_queue_head s") auto
      with CsLoop True run dm_inv_cv_dequeue [OF inv CsLoop this] show ?thesis by auto
    next
      case False
      with CsLoop run have "s' = dm_goto s t (CsRelease h)" by (auto split: if_splits)
      with CsLoop here inv show ?thesis by (auto intro!: dm_inv_goto simp: dm_ok_def dm_classes)
    qed
  next
    case (CsRelease h)
    with run here show ?thesis
      by (intro dm_inv_cv_drop [OF inv, of t "if h then DmHeld else DmIdle"])
         (auto simp: dm_ok_def dm_classes)
  qed (use run in simp_all)
qed

lemma dm_call_inv:
  assumes inv: "dm_inv s" and call: "dm_call False (dm_pc s t) pc"
  shows "dm_inv (dm_goto s t pc)"
  using dm_invD(1) [OF inv, of t] call
  by (cases "dm_pc s t") (auto intro!: dm_inv_goto [OF inv] simp: dm_ok_def dm_classes)

lemma dm_step_inv: "dm_step False s s' \<Longrightarrow> dm_inv s \<Longrightarrow> dm_inv s'"
proof (induction rule: dm_step.induct)
  case (call s t pc)
  then show ?case by (intro dm_call_inv)
next
  case (run s t s')
  from run.hyps consider "dtape_mutex_lock (dm_pc s t) s t = Some s'"
    | "dtape_mutex_try_lock (dm_pc s t) s t = Some s'" | "dtape_mutex_unlock (dm_pc s t) s t = Some s'"
    | "dtape_condvar_wait (dm_pc s t) s t = Some s' \<or> dtape_condvar_signal (dm_pc s t) s t = Some s'"
    by (auto simp: dm_local_def split: option.splits)
  then show ?case
    by cases (use run.prems dtape_mutex_lock_inv dtape_mutex_try_lock_inv dtape_mutex_unlock_inv
      dtape_condvar_inv in blast)+
qed

text \<open>
  A thread has the mutex from the write of the owner to the start of the unlock's critical
  section; a native thread from the test of the owner to its unlock.
\<close>

definition dm_holds :: "dm_sys \<Rightarrow> tid \<Rightarrow> bool" where
  "dm_holds s t \<longleftrightarrow> pc_owns (dm_pc s t) \<or> dm_pc s t \<in> {NtHeld, NtUnlock}"

interpretation dm: mutex_contract "\<lambda>s. s = dtape_mutex_init" "dm_step False" dm_inv dm_holds
proof unfold_locales
  show "dm_inv s" if "s = dtape_mutex_init" for s
    using that by (simp add: dm_inv_def dm_ok_def dtape_mutex_init_def dm_classes)
  show "dm_inv t" if "dm_inv s" "dm_step False s t" for s t
    using that by (blast intro: dm_step_inv)
  show "t = u" if inv: "dm_inv s" and "dm_holds s t" "dm_holds s u" for s t u
  proof -
    have "dtape_queue_lock s = Some v \<and> dtape_owner s = None" if "dm_pc s v \<in> {NtHeld, NtUnlock}" for v
      using that dm_invD(1) [OF inv, of v] by (cases "dm_pc s v") (simp_all add: dm_ok_def dm_classes)
    moreover have "dtape_owner s = Some v" if "pc_owns (dm_pc s v)" for v
      using that dm_invD(1) [OF inv, of v] by (simp add: dm_ok_def)
    ultimately show ?thesis using that(2,3) unfolding dm_holds_def by (metis option.distinct(1) option.inject)
  qed
qed

section \<open>Properties\<close>

text \<open>C12. Mutual exclusion of the microthread mutex: in every interleaving of lock, unlock, waits
  and signals on a condition variable, and the lock, try-lock and unlock of native threads,
  at most one thread has the mutex, microthread or native.\<close>

theorem dtape_mutex_exclusion:
  assumes "(dm_step False)\<^sup>*\<^sup>* dtape_mutex_init s" and "dm_holds s t" and "dm_holds s u"
  shows "t = u"
  using assms by (intro dm.reachable_excl [of dtape_mutex_init s]) simp_all

definition dm_example :: "(tid \<times> dm_pc option) list" where
  "dm_example = [(0, Some LkAssert), (0, None), (0, None), (0, None), (0, None), (0, None),
     (1, Some LkAssert), (1, None), (1, None), (1, None), (1, None), (1, None)]"

abbreviation dm_example_state :: dm_sys where
  "dm_example_state \<equiv> \<lparr>dtape_owner = Some 0, dtape_queue_lock = None, dtape_queue_head = [1],
     cv_queue_lock = None, cv_queue_head = [], dm_pc = (\<lambda>_. DmIdle)(0 := DmHeld, 1 := LkSuspended)\<rparr>"

lemmas dm_eval = dtape_mutex_init_def dm_local_def lock_ops dtape_mutex_assert_def

lemma dm_example_run: "dm_sched tries dtape_mutex_init dm_example = Some dm_example_state"
  by (simp add: dm_example_def dm_eval fun_upd_twist)

theorem dtape_mutex_exclusion_witness:
  "\<exists>s. (dm_step False)\<^sup>*\<^sup>* dtape_mutex_init s \<and> dm_holds s 0 \<and> (\<forall>u. dm_holds s u \<longrightarrow> u = 0)"
proof -
  have run: "(dm_step False)\<^sup>*\<^sup>* dtape_mutex_init dm_example_state"
    by (rule dm_sched_run [OF dm_example_run])
  have "dm_holds dm_example_state 0" by (simp add: dm_holds_def)
  with run dtape_mutex_exclusion [OF run] show ?thesis by blast
qed

text \<open>C28. No waiter is lost: while a microthread is suspended in lock, the mutex has an owner, or
  an unlock is about to wake the queue's head, or a thread is awake on its way to the mutex;
  and the wake of an unlock finds the oldest waiter suspended and makes it contend again.\<close>

theorem dtape_mutex_waiters_woken:
  assumes "(dm_step False)\<^sup>*\<^sup>* dtape_mutex_init s"
  shows "(dm_pc s t = LkSuspended \<longrightarrow>
            (\<exists>u. dtape_owner s = Some u \<and> pc_may_own (dm_pc s u)) \<or> some_at (dm_pc s) pc_helps) \<and>
         (dm_pc s t = UnWake c \<and> dtape_queue_head s = u # q \<longrightarrow>
            dm_pc s u = LkSuspended \<and>
            (\<exists>s'. dm_local s t = Some s' \<and> dtape_queue_head s' = q \<and> dm_pc s' u = LkAcquire))"
proof -
  have inv: "dm_inv s" using dm.reachable_inv [OF refl assms] .
  have "(\<exists>u. dtape_owner s = Some u \<and> pc_may_own (dm_pc s u)) \<or> some_at (dm_pc s) pc_helps"
    if "dm_pc s t = LkSuspended"
  proof -
    have "dtape_queue_head s \<noteq> []"
      using that dm_invD(1) [OF inv, of t] by (auto simp: dm_ok_def pc_in_q_def)
    then show ?thesis using dm_invD(4) [OF inv] dm_invD(1) [OF inv]
      by (cases "dtape_owner s") (simp_all add: dm_ok_def)
  qed
  moreover have "dm_pc s u = LkSuspended \<and>
      (\<exists>s'. dm_local s t = Some s' \<and> dtape_queue_head s' = q \<and> dm_pc s' u = LkAcquire)"
    if "dm_pc s t = UnWake c" "dtape_queue_head s = u # q"
  proof -
    have u: "dm_pc s u = LkSuspended" using dm_queue_head_suspended [OF inv that(2), of t] that(1) by simp
    moreover from u that(1) have "u \<noteq> t" by auto
    ultimately show ?thesis using that by (simp add: dm_local_def)
  qed
  ultimately show ?thesis by blast
qed

theorem dtape_mutex_waiters_woken_witness:
  "\<exists>s. (dm_step False)\<^sup>*\<^sup>* dtape_mutex_init s \<and> dm_pc s 1 = LkSuspended \<and>
     (\<exists>u. dtape_owner s = Some u \<and> pc_may_own (dm_pc s u))"
proof -
  have run: "(dm_step False)\<^sup>*\<^sup>* dtape_mutex_init dm_example_state"
    by (rule dm_sched_run [OF dm_example_run])
  have "dm_pc dm_example_state 1 = LkSuspended" "\<not> some_at (dm_pc dm_example_state) pc_helps"
    by (simp_all add: some_at_def pc_helps_def)
  with run dtape_mutex_waiters_woken [OF run, of 1] show ?thesis by blast
qed

text \<open>The next \<open>k\<close> steps of one thread.\<close>

fun dm_solo :: "nat \<Rightarrow> dm_sys \<Rightarrow> tid \<Rightarrow> dm_sys option" where
  "dm_solo 0 s t = Some s"
| "dm_solo (Suc k) s t = (case dm_local s t of Some s' \<Rightarrow> dm_solo k s' t | None \<Rightarrow> None)"

lemma dm_signal_loop:
  assumes "dm_inv s" and "dm_pc s t = CsLoop h n"
  shows "\<exists>s'. dm_solo (Suc (min n (length (cv_queue_head s)))) s t = Some s' \<and>
    cv_queue_head s' = drop n (cv_queue_head s) \<and>
    dm_pc s' = (\<lambda>u. if u = t then CsRelease h
                    else if u \<in> set (take n (cv_queue_head s)) then LkAssert else dm_pc s u)"
  using assms
proof (induction n arbitrary: s)
  case 0
  then show ?case by (auto simp: dm_local_def)
next
  case (Suc n)
  show ?case
  proof (cases "cv_queue_head s")
    case Nil
    with Suc.prems(2) show ?thesis by (auto simp: dm_local_def)
  next
    case (Cons u q)
    have u: "dm_pc s u = CwSuspended"
      using dm_cv_queue_head_suspended [OF Suc.prems(1) Cons, of t] Suc.prems(2) by simp
    with Suc.prems(2) have ne: "u \<noteq> t" by auto
    let ?s = "dm_goto (dm_goto (s\<lparr>cv_queue_head := q\<rparr>) u LkAssert) t (CsLoop h n)"
    have loc: "dm_local s t = Some ?s" using Suc.prems(2) Cons u by (simp add: dm_local_def)
    have inv: "dm_inv ?s" using dm_inv_cv_dequeue [OF Suc.prems(1,2) Cons, of n] u by simp
    have "u \<notin> set q" using dm_invD(3) [OF Suc.prems(1)] Cons by simp
    with Suc.IH [OF inv] loc Cons ne show ?thesis by (auto simp: fun_eq_iff)
  qed
qed

text \<open>Signalling: no thread is between giving up the mutex in a wait and being suspended while
  a signal runs, and the signal's loop ends after exactly as many rounds as there are waiters
  to wake, having made the oldest \<open>count\<close> of them, and nobody else, continue into the lock.\<close>

theorem dtape_condvar_signal_wakes:
  assumes "(dm_step False)\<^sup>*\<^sup>* dtape_mutex_init s" and "dm_pc s t = CsLoop h n"
  shows "(\<forall>u. u \<noteq> t \<longrightarrow> \<not> pc_has_c (dm_pc s u)) \<and>
    (\<exists>s'. dm_solo (Suc (min n (length (cv_queue_head s)))) s t = Some s' \<and>
      cv_queue_head s' = drop n (cv_queue_head s) \<and>
      dm_pc s' = (\<lambda>u. if u = t then CsRelease h
                      else if u \<in> set (take n (cv_queue_head s)) then LkAssert else dm_pc s u))"
proof -
  have inv: "dm_inv s" using dm.reachable_inv [OF refl assms(1)] .
  have "cv_queue_lock s = Some t" using dm_invD(1) [OF inv, of t] assms(2) by (simp add: dm_ok_def)
  then have "\<not> pc_has_c (dm_pc s u)" if "u \<noteq> t" for u
    using dm_invD(1) [OF inv, of u] that by (simp add: dm_ok_def)
  with dm_signal_loop [OF inv assms(2)] show ?thesis by blast
qed

definition dm_signal_example :: "(tid \<times> dm_pc option) list" where
  "dm_signal_example = [(0, Some LkAssert), (0, None), (0, None), (0, None), (0, None), (0, None),
     (0, Some CwAcquire), (0, None), (0, None), (0, None), (0, None), (0, None), (0, None), (0, None),
     (0, None), (1, Some (CsAcquire False 3)), (1, None)]"

abbreviation dm_signal_state :: dm_sys where
  "dm_signal_state \<equiv> \<lparr>dtape_owner = None, dtape_queue_lock = None, dtape_queue_head = [],
     cv_queue_lock = Some 1, cv_queue_head = [0],
     dm_pc = (\<lambda>_. DmIdle)(0 := CwSuspended, 1 := CsLoop False 3)\<rparr>"

lemma dm_signal_run: "dm_sched tries dtape_mutex_init dm_signal_example = Some dm_signal_state"
  by (simp add: dm_signal_example_def dm_eval fun_upd_twist)

theorem dtape_condvar_signal_wakes_witness:
  "\<exists>s'. dm_solo 2 dm_signal_state 1 = Some s' \<and> dm_pc s' 0 = LkAssert \<and> cv_queue_head s' = []"
proof -
  have run: "(dm_step False)\<^sup>*\<^sup>* dtape_mutex_init dm_signal_state"
    by (rule dm_sched_run [OF dm_signal_run])
  have "dm_pc dm_signal_state 1 = CsLoop False 3" by simp
  from dtape_condvar_signal_wakes [OF run this] show ?thesis by (auto simp: numeral_2_eq_2)
qed

text \<open>C35. The try-lock of a microthread breaks the mutex: it reads and writes the owner without the
  queue lock, which it then releases although another thread has it, so that a microthread in
  lock and one in try-lock can both come to hold the mutex.\<close>

theorem dtape_mutex_try_lock_breaks_exclusion:
  "\<exists>s. (dm_step True)\<^sup>*\<^sup>* dtape_mutex_init s \<and> dm_pc s 0 = DmHeld \<and> dm_pc s 1 = DmHeld"
proof -
  let ?s = "\<lparr>dtape_owner = Some 0, dtape_queue_lock = None, dtape_queue_head = [],
     cv_queue_lock = None, cv_queue_head = [], dm_pc = (\<lambda>_. DmIdle)(0 := DmHeld, 1 := DmHeld)\<rparr>"
  have "dm_sched True dtape_mutex_init
      [(0, Some LkAssert), (0, None), (0, None), (0, None), (1, Some TrAssert), (1, None), (1, None),
       (1, None), (1, None), (0, None), (0, None)] = Some ?s"
    by (simp add: dm_eval fun_upd_twist)
  from dm_sched_run [OF this] show ?thesis by (intro exI [of _ ?s]) simp
qed

end
