(* ===== verification/Socket_Bitmap.thy ===== *)
theory Socket_Bitmap
  imports Osxie_Prelude
begin

text \<open>
  The allocator of high file descriptor numbers of src/startup/mldr/mldr.c: a heap-allocated
  bitmap of the numbers in use, counted down from the process's limit. Each function runs
  under the bitmap's mutex and is one definition. Reads and writes outside the allocation, or
  through a pointer whose block has been freed, are errors of the model; what \<open>getrlimit\<close> and
  \<open>realloc\<close> answer, and the contents of fresh memory, are arguments.
\<close>

section \<open>Memory\<close>

datatype sb_err = OutOfBounds | UseAfterFree

datatype sb_ptr = Null | Block "u8 list" | Dangling

fun sb_load :: "sb_ptr \<Rightarrow> nat \<Rightarrow> sb_err + u8" where
  "sb_load (Block bs) k = (if k < length bs then Inr (bs ! k) else Inl OutOfBounds)"
| "sb_load Dangling k = Inl UseAfterFree"
| "sb_load Null k = Inl OutOfBounds"

fun sb_store :: "sb_ptr \<Rightarrow> nat \<Rightarrow> u8 \<Rightarrow> sb_err + sb_ptr" where
  "sb_store (Block bs) k b = (if k < length bs then Inr (Block (bs[k := b])) else Inl OutOfBounds)"
| "sb_store Dangling k b = Inl UseAfterFree"
| "sb_store Null k b = Inl OutOfBounds"

text \<open>
  \<open>realloc\<close>: on failure the old block stays; a successful call keeps the common prefix and leaves
  the rest unspecified (\<open>junk\<close>). Size zero frees the block and answers a null pointer, which
  the callers take for a failure, so that the pointer they keep dangles.
\<close>

fun sb_realloc :: "bool \<Rightarrow> u8 \<Rightarrow> sb_ptr \<Rightarrow> nat \<Rightarrow> sb_err + sb_ptr option \<times> sb_ptr" where
  "sb_realloc ok junk Dangling n = Inl UseAfterFree"
| "sb_realloc ok junk Null n =
     (if ok \<and> n > 0 then Inr (Some (Block (replicate n junk)), Null) else Inr (None, Null))"
| "sb_realloc ok junk (Block bs) n =
     (if n = 0 then Inr (None, Dangling)
      else if ok then Inr (Some (Block (take n bs @ replicate (n - length bs) junk)), Dangling)
      else Inr (None, Block bs))"

section \<open>The functions\<close>

record socket_bitmap =
  next_index :: nat
  bits :: sb_ptr
  bit_length :: nat
  highest :: int

definition socket_bitmap_empty :: socket_bitmap where
  "socket_bitmap_empty = \<lparr>next_index = 0, bits = Null, bit_length = 0, highest = -1\<rparr>"

datatype rlimit_result = RlimitFails | RlimitInfinity | Rlimit nat

text \<open>Conversion to the 32-bit \<open>int\<close>.\<close>

definition to_int32 :: "int \<Rightarrow> int" where
  "to_int32 x = signed_take_bit 31 x"

definition socket_bitmap_get_init :: "rlimit_result \<Rightarrow> socket_bitmap \<Rightarrow> socket_bitmap option" where
  "socket_bitmap_get_init limit bm =
     (if highest bm = -1 then
        (case limit of
           RlimitFails \<Rightarrow> None
         | RlimitInfinity \<Rightarrow> Some (bm\<lparr>highest := to_int32 (1024 - 1)\<rparr>)
         | Rlimit n \<Rightarrow> Some (bm\<lparr>highest := to_int32 (int n - 1)\<rparr>))
      else Some bm)"

text \<open>The growing step; \<open>None\<close> is the early exit after a failed \<open>realloc\<close>.\<close>

definition socket_bitmap_get_grow :: "bool \<Rightarrow> u8 \<Rightarrow> socket_bitmap \<Rightarrow> sb_err + socket_bitmap option" where
  "socket_bitmap_get_grow ok junk bm =
     (if next_index bm \<ge> bit_length bm then
        if bit_length bm mod 8 = 0 then
          res_bind (sb_realloc ok junk (bits bm) (bit_length bm div 8 + 1)) (\<lambda>(ptr, old).
            case ptr of
              None \<Rightarrow> Inr None
            | Some p \<Rightarrow> res_bind (sb_store p (bit_length bm div 8) 0) (\<lambda>p'.
                Inr (Some (bm\<lparr>bits := p', bit_length := bit_length bm + 1\<rparr>))))
        else Inr (Some (bm\<lparr>bit_length := bit_length bm + 1\<rparr>))
      else Inr (Some bm))"

text \<open>The loop for the next free index, from \<open>i\<close>: full bytes are skipped whole.\<close>

function socket_bitmap_scan :: "sb_ptr \<Rightarrow> nat \<Rightarrow> nat \<Rightarrow> sb_err + nat option" where
  "socket_bitmap_scan p len i =
     (if i < len then
        res_bind (sb_load p (i div 8)) (\<lambda>b.
          if i mod 8 = 0 \<and> b = 0xff then socket_bitmap_scan p len (i + 7 + 1)
          else if b AND push_bit (i mod 8) 1 = 0 then Inr (Some i)
          else socket_bitmap_scan p len (i + 1))
      else Inr None)"
  by pat_completeness auto
termination by (relation "measure (\<lambda>(p, len, i). len - i)") auto

declare socket_bitmap_scan.simps [simp del]

definition socket_bitmap_get ::
    "rlimit_result \<Rightarrow> bool \<Rightarrow> u8 \<Rightarrow> socket_bitmap \<Rightarrow> sb_err + int \<times> socket_bitmap" where
  "socket_bitmap_get limit ok junk bm =
     (case socket_bitmap_get_init limit bm of
        None \<Rightarrow> Inr (-1, bm)
      | Some bm1 \<Rightarrow> res_bind (socket_bitmap_get_grow ok junk bm1) (\<lambda>r. case r of
          None \<Rightarrow> Inr (-1, bm1)
        | Some bm2 \<Rightarrow>
            let i = next_index bm2 in
            res_bind (sb_load (bits bm2) (i div 8)) (\<lambda>b.
            res_bind (sb_store (bits bm2) (i div 8) (b OR push_bit (i mod 8) 1)) (\<lambda>p.
            res_bind (socket_bitmap_scan p (bit_length bm2) (i + 1)) (\<lambda>free.
              Inr (to_int32 (highest bm2 - int i),
                   bm2\<lparr>bits := p,
                       next_index := (case free of Some j \<Rightarrow> j | None \<Rightarrow> bit_length bm2)\<rparr>))))))"

text \<open>The shrinking loop of \<open>socket_bitmap_put\<close>; it answers the new length.\<close>

function socket_bitmap_shrink :: "sb_ptr \<Rightarrow> nat \<Rightarrow> sb_err + nat" where
  "socket_bitmap_shrink p len =
     (if len > 0 then
        (if len mod 8 = 0 then
           res_bind (sb_load p (len div 8 - 1)) (\<lambda>b.
             if b = 0 then socket_bitmap_shrink p (len - 8)
             else if b AND push_bit ((len - 1) mod 8) 1 = 0 then Inr len
             else socket_bitmap_shrink p (len - 1))
         else res_bind (sb_load p ((len - 1) div 8)) (\<lambda>b.
             if b AND push_bit ((len - 1) mod 8) 1 = 0 then Inr len
             else socket_bitmap_shrink p (len - 1)))
      else Inr 0)"
  by pat_completeness auto
termination by (relation "measure (\<lambda>(p, len). len)") auto

declare socket_bitmap_shrink.simps [simp del]

text \<open>The index is a \<open>size_t\<close>.\<close>

definition socket_bitmap_put :: "bool \<Rightarrow> socket_bitmap \<Rightarrow> int \<Rightarrow> sb_err + socket_bitmap" where
  "socket_bitmap_put ok bm socket =
     (let index = nat ((highest bm - socket) mod 2 ^ 64) in
      res_bind (sb_load (bits bm) (index div 8)) (\<lambda>b.
      res_bind (sb_store (bits bm) (index div 8) (b AND NOT (push_bit (index mod 8) 1))) (\<lambda>p.
        let bm1 = bm\<lparr>bits := p, next_index := min index (next_index bm)\<rparr> in
        if int index = (int (bit_length bm) - 1) mod 2 ^ 64 then
          res_bind (socket_bitmap_shrink p (bit_length bm)) (\<lambda>len.
            let bm2 = bm1\<lparr>bit_length := len\<rparr> in
            if (bit_length bm + 7) div 8 \<noteq> (len + 7) div 8 then
              res_bind (sb_realloc ok 0 p ((len + 7) div 8)) (\<lambda>(ptr, old).
                case ptr of None \<Rightarrow> Inr (bm2\<lparr>bits := old\<rparr>) | Some q \<Rightarrow> Inr (bm2\<lparr>bits := q\<rparr>))
            else Inr bm2)
        else Inr bm1)))"

section \<open>Bits of a block\<close>

definition bytes_bit :: "u8 list \<Rightarrow> nat \<Rightarrow> bool" where
  "bytes_bit bs i = bit (bs ! (i div 8)) (i mod 8)"

lemma and_bit_u8: "b AND 2 ^ k = 0 \<longleftrightarrow> \<not> bit b k" for b :: u8
  using bit_iff_and_push_bit_not_eq_0 [of b k] by simp

lemma bit_exp_u8: "k < 8 \<Longrightarrow> bit (2 ^ k :: u8) i \<longleftrightarrow> i = k"
  by (auto simp: bit_exp_iff)

lemma index_eq_iff: "j = i \<longleftrightarrow> j div 8 = i div 8 \<and> j mod 8 = i mod (8::nat)"
  by (metis div_mult_mod_eq)

lemma bytes_bit_set:
  assumes "i div 8 < length bs"
  shows "bytes_bit (bs[i div 8 := bs ! (i div 8) OR push_bit (i mod 8) 1]) j \<longleftrightarrow> j = i \<or> bytes_bit bs j"
proof (cases "j div 8 = i div 8")
  case True
  with assms show ?thesis
    by (simp add: bytes_bit_def bit_or_iff bit_exp_u8 index_eq_iff [of j i] disj_commute)
next
  case False
  then have "j \<noteq> i" by blast
  with False show ?thesis by (simp add: bytes_bit_def)
qed

lemma bytes_bit_clear:
  assumes "i div 8 < length bs"
  shows "bytes_bit (bs[i div 8 := bs ! (i div 8) AND NOT (push_bit (i mod 8) 1)]) j \<longleftrightarrow>
    j \<noteq> i \<and> bytes_bit bs j"
proof (cases "j div 8 = i div 8")
  case True
  have "bit (NOT (2 ^ (i mod 8)) :: u8) (j mod 8) \<longleftrightarrow> j mod 8 \<noteq> i mod 8"
    unfolding bit_not_iff by (simp add: bit_exp_u8)
  with True assms show ?thesis
    by (auto simp: bytes_bit_def bit_and_iff index_eq_iff [of j i])
next
  case False
  then have "j \<noteq> i" by blast
  with False show ?thesis by (simp add: bytes_bit_def)
qed

lemma full_byte: "k < 8 \<Longrightarrow> bit (0xff :: u8) k"
  using bit_mask_iff [of 8 k, where 'a = u8] by (simp add: mask_eq_exp_minus_1)

text \<open>The scan finds the least clear bit from \<open>i\<close> on, byte skipping notwithstanding.\<close>

lemma socket_bitmap_scan_spec:
  assumes "len \<le> 8 * length bs"
  shows "\<exists>r. socket_bitmap_scan (Block bs) len i = Inr r \<and>
    (case r of None \<Rightarrow> \<forall>j. i \<le> j \<and> j < len \<longrightarrow> bytes_bit bs j
     | Some k \<Rightarrow> i \<le> k \<and> k < len \<and> \<not> bytes_bit bs k \<and> (\<forall>j. i \<le> j \<and> j < k \<longrightarrow> bytes_bit bs j))"
  using assms
proof (induction "Block bs" len i rule: socket_bitmap_scan.induct)
  case (1 len i)
  show ?case
  proof (cases "i < len")
    case False
    then show ?thesis by (subst socket_bitmap_scan.simps) auto
  next
    case True
    with "1.prems" have k: "i div 8 < length bs" by auto
    let ?b = "bs ! (i div 8)"
    have load: "sb_load (Block bs) (i div 8) = Inr ?b" using k by simp
    consider (skip) "i mod 8 = 0" "?b = 0xff" | (free) "\<not> (i mod 8 = 0 \<and> ?b = 0xff)" "\<not> bytes_bit bs i"
      | (used) "\<not> (i mod 8 = 0 \<and> ?b = 0xff)" "bytes_bit bs i" by metis
    then show ?thesis
    proof cases
      case skip
      have full: "bytes_bit bs j" if "i \<le> j" "j < i + 8" for j
      proof -
        from that skip(1) have "j div 8 = i div 8" by auto
        moreover have "bit (0xff :: u8) (j mod 8)" by (rule full_byte) simp
        ultimately show ?thesis unfolding bytes_bit_def using skip(2) by metis
      qed
      have step: "socket_bitmap_scan (Block bs) len i = socket_bitmap_scan (Block bs) len (i + 7 + 1)"
        using True k skip by (subst socket_bitmap_scan.simps) simp
      from "1.hyps"(1) [OF True load] skip "1.prems" obtain r where
        r: "socket_bitmap_scan (Block bs) len (i + 7 + 1) = Inr r"
        "case r of None \<Rightarrow> \<forall>j. i + 7 + 1 \<le> j \<and> j < len \<longrightarrow> bytes_bit bs j
         | Some k \<Rightarrow> i + 7 + 1 \<le> k \<and> k < len \<and> \<not> bytes_bit bs k \<and>
             (\<forall>j. i + 7 + 1 \<le> j \<and> j < k \<longrightarrow> bytes_bit bs j)"
        by blast
      have split: "j < i + 8 \<or> i + 7 + 1 \<le> j" for j by auto
      from r show ?thesis unfolding step using full split
        by (cases r) (simp_all, metis+)
    next
      case free
      then have "socket_bitmap_scan (Block bs) len i = Inr (Some i)"
        using True k by (subst socket_bitmap_scan.simps) (auto simp: and_bit_u8 bytes_bit_def)
      with free True show ?thesis by auto
    next
      case used
      then have step: "socket_bitmap_scan (Block bs) len i = socket_bitmap_scan (Block bs) len (i + 1)"
        using True k by (subst socket_bitmap_scan.simps) (auto simp: and_bit_u8 bytes_bit_def)
      have nz: "\<not> ?b AND push_bit (i mod 8) 1 = 0" using used(2) by (simp add: and_bit_u8 bytes_bit_def)
      from "1.hyps"(2) [OF True load used(1) nz "1.prems"] obtain r where
        r: "socket_bitmap_scan (Block bs) len (i + 1) = Inr r"
        "case r of None \<Rightarrow> \<forall>j. i + 1 \<le> j \<and> j < len \<longrightarrow> bytes_bit bs j
         | Some k \<Rightarrow> i + 1 \<le> k \<and> k < len \<and> \<not> bytes_bit bs k \<and>
             (\<forall>j. i + 1 \<le> j \<and> j < k \<longrightarrow> bytes_bit bs j)"
        by blast
      have split: "j = i \<or> i + 1 \<le> j" if "i \<le> j" for j using that by auto
      from r show ?thesis unfolding step using used(2) split
        by (cases r) (simp_all, metis+)
    qed
  qed
qed

section \<open>Invariant and the set of numbers in use\<close>

fun sb_bytes :: "sb_ptr \<Rightarrow> u8 list" where
  "sb_bytes (Block bs) = bs"
| "sb_bytes _ = []"

definition sb_used :: "socket_bitmap \<Rightarrow> nat set" where
  "sb_used bm = {i. i < bit_length bm \<and> bytes_bit (sb_bytes (bits bm)) i}"

text \<open>
  The block has just the bytes that the length needs and is clear above the length;
  \<open>next_index\<close> is the least index not in use.
\<close>

definition sb_inv :: "socket_bitmap \<Rightarrow> bool" where
  "sb_inv bm \<longleftrightarrow> bits bm \<noteq> Dangling \<and> length (sb_bytes (bits bm)) = (bit_length bm + 7) div 8 \<and>
     (\<forall>i. bit_length bm \<le> i \<and> i < 8 * length (sb_bytes (bits bm)) \<longrightarrow> \<not> bytes_bit (sb_bytes (bits bm)) i) \<and>
     next_index bm \<le> bit_length bm \<and> (\<forall>i < next_index bm. bytes_bit (sb_bytes (bits bm)) i) \<and>
     (next_index bm < bit_length bm \<longrightarrow> \<not> bytes_bit (sb_bytes (bits bm)) (next_index bm))"

lemma sb_invD:
  assumes "sb_inv bm"
  shows "bits bm \<noteq> Dangling" and "length (sb_bytes (bits bm)) = (bit_length bm + 7) div 8"
    and "bit_length bm \<le> i \<Longrightarrow> i < 8 * length (sb_bytes (bits bm)) \<Longrightarrow> \<not> bytes_bit (sb_bytes (bits bm)) i"
    and "next_index bm \<le> bit_length bm" and "i < next_index bm \<Longrightarrow> bytes_bit (sb_bytes (bits bm)) i"
    and "next_index bm < bit_length bm \<Longrightarrow> \<not> bytes_bit (sb_bytes (bits bm)) (next_index bm)"
  using assms unfolding sb_inv_def by blast+

lemma sb_inv_least:
  assumes "sb_inv bm"
  shows "next_index bm = (LEAST i. i \<notin> sb_used bm)"
proof -
  have "next_index bm \<notin> sb_used bm" using sb_invD(6) [OF assms] by (auto simp: sb_used_def)
  moreover have "i \<in> sb_used bm" if "i < next_index bm" for i
    using that sb_invD(4,5) [OF assms] by (simp add: sb_used_def)
  ultimately show ?thesis by (metis (mono_tags, lifting) Least_equality leI)
qed

lemma sb_used_finite: "finite (sb_used bm)"
  by (rule finite_subset [of _ "{..<bit_length bm}"]) (auto simp: sb_used_def)

lemma bytes_bit_append:
  assumes "i < 8 * length bs + 8"
  shows "bytes_bit (bs @ [0]) i \<longleftrightarrow> i < 8 * length bs \<and> bytes_bit bs i"
proof (cases "i < 8 * length bs")
  case True
  then have "i div 8 < length bs" by auto
  with True show ?thesis by (simp add: bytes_bit_def nth_append)
next
  case False
  with assms have "i div 8 = length bs" by auto
  with False show ?thesis by (simp add: bytes_bit_def nth_append)
qed

lemma sb_realloc_grow:
  assumes "p \<noteq> Dangling"
  shows "\<exists>old. sb_realloc True junk p (length (sb_bytes p) + 1) = Inr (Some (Block (sb_bytes p @ [junk])), old)"
  using assms by (cases p) auto

lemma socket_bitmap_get_grow_spec:
  assumes inv: "sb_inv bm"
  shows "\<exists>bm2. socket_bitmap_get_grow True junk bm = Inr (Some bm2) \<and> sb_inv bm2 \<and>
    next_index bm2 = next_index bm \<and> next_index bm2 < bit_length bm2 \<and> highest bm2 = highest bm \<and>
    sb_used bm2 = sb_used bm"
proof (cases "next_index bm < bit_length bm")
  case True
  with inv show ?thesis by (simp add: socket_bitmap_get_grow_def)
next
  case False
  let ?bs = "sb_bytes (bits bm)"
  note D = sb_invD [OF inv]
  from False D(4) have nx: "next_index bm = bit_length bm" by simp
  show ?thesis
  proof (cases "bit_length bm mod 8 = 0")
    case True
    with D(2) have len: "length ?bs = bit_length bm div 8" "8 * length ?bs = bit_length bm" by auto
    let ?bm2 = "bm\<lparr>bits := Block (?bs @ [0]), bit_length := bit_length bm + 1\<rparr>"
    obtain old where
      "sb_realloc True junk (bits bm) (bit_length bm div 8 + 1) = Inr (Some (Block (?bs @ [junk])), old)"
      using sb_realloc_grow [OF D(1)] len(1) by metis
    then have "socket_bitmap_get_grow True junk bm = Inr (Some ?bm2)"
      using False True len(1) by (simp add: socket_bitmap_get_grow_def list_update_append)
    moreover have bit: "bytes_bit (?bs @ [0]) i \<longleftrightarrow> i < bit_length bm \<and> bytes_bit ?bs i"
      if "i < bit_length bm + 8" for i
      using bytes_bit_append [of i ?bs] that len(2) by simp
    moreover have "sb_inv ?bm2"
      using D(5) nx True len unfolding sb_inv_def by (auto simp: bit)
    moreover have "sb_used ?bm2 = sb_used bm" by (auto simp: sb_used_def bit)
    ultimately show ?thesis using nx by (intro exI [of _ ?bm2]) simp
  next
    case unaligned: False
    let ?bm2 = "bm\<lparr>bit_length := bit_length bm + 1\<rparr>"
    from unaligned have len: "(bit_length bm + 1 + 7) div 8 = (bit_length bm + 7) div 8" by presburger
    from unaligned D(2) have top: "bit_length bm < 8 * length ?bs" by presburger
    have "socket_bitmap_get_grow True junk bm = Inr (Some ?bm2)"
      using False unaligned by (simp add: socket_bitmap_get_grow_def)
    moreover have "sb_inv ?bm2"
      using D len top nx unfolding sb_inv_def by auto
    moreover have "sb_used ?bm2 = sb_used bm"
      using D(3) [OF le_refl top] by (auto simp: sb_used_def less_Suc_eq)
    ultimately show ?thesis using nx by (intro exI [of _ ?bm2]) simp
  qed
qed

section \<open>Taking and returning a number\<close>

lemma to_int32_id: "- (2 ^ 31) \<le> x \<Longrightarrow> x < 2 ^ 31 \<Longrightarrow> to_int32 x = x"
  unfolding to_int32_def by (rule signed_take_bit_int_eq_self)

lemma sb_block:
  assumes "sb_inv bm" and "i < bit_length bm"
  obtains bs where "bits bm = Block bs" and "i div 8 < length bs" and "bit_length bm \<le> 8 * length bs"
proof -
  from sb_invD(2) [OF assms(1)] assms(2) have "sb_bytes (bits bm) \<noteq> []" by auto
  then obtain bs where bs: "bits bm = Block bs" by (cases "bits bm") auto
  with sb_invD(2) [OF assms(1)] assms(2) that show thesis by fastforce
qed

lemma socket_bitmap_get_spec:
  assumes inv: "sb_inv bm" and init: "socket_bitmap_get_init limit bm = Some bm1"
    and range: "0 \<le> highest bm1" "highest bm1 < 2 ^ 31" "next_index bm < 2 ^ 31"
  shows "\<exists>bm'. socket_bitmap_get limit True junk bm = Inr (highest bm1 - int (next_index bm), bm') \<and>
    sb_inv bm' \<and> sb_used bm' = insert (next_index bm) (sb_used bm) \<and> highest bm' = highest bm1"
proof -
  have same: "next_index bm1 = next_index bm" "bits bm1 = bits bm" "bit_length bm1 = bit_length bm"
    using init by (auto simp: socket_bitmap_get_init_def split: if_splits rlimit_result.splits)
  then have "sb_inv bm1" "sb_used bm1 = sb_used bm" using inv by (simp_all add: sb_inv_def sb_used_def)
  with same(1) obtain bm2 where grow: "socket_bitmap_get_grow True junk bm1 = Inr (Some bm2)" "sb_inv bm2"
    "next_index bm2 = next_index bm" "next_index bm2 < bit_length bm2" "highest bm2 = highest bm1"
    "sb_used bm2 = sb_used bm"
    using socket_bitmap_get_grow_spec [of bm1 junk] by auto
  let ?i = "next_index bm" and ?len = "bit_length bm2"
  obtain bs where bs: "bits bm2 = Block bs" "?i div 8 < length bs" "?len \<le> 8 * length bs"
    using sb_block [OF grow(2), of ?i] grow(3,4) by metis
  define bs' where bs': "bs' = bs[?i div 8 := bs ! (?i div 8) OR push_bit (?i mod 8) 1]"
  have set: "bytes_bit bs' j \<longleftrightarrow> j = ?i \<or> bytes_bit bs j" for j
    unfolding bs' using bs(2) by (rule bytes_bit_set)
  have len': "length bs' = length bs" by (simp add: bs')
  obtain r where r: "socket_bitmap_scan (Block bs') ?len (?i + 1) = Inr r"
    "case r of None \<Rightarrow> \<forall>j. ?i + 1 \<le> j \<and> j < ?len \<longrightarrow> bytes_bit bs' j
     | Some k \<Rightarrow> ?i + 1 \<le> k \<and> k < ?len \<and> \<not> bytes_bit bs' k \<and> (\<forall>j. ?i + 1 \<le> j \<and> j < k \<longrightarrow> bytes_bit bs' j)"
    using socket_bitmap_scan_spec [of ?len bs' "?i + 1"] bs(3) len' by auto
  let ?nx = "case r of Some j \<Rightarrow> j | None \<Rightarrow> ?len"
  let ?bm' = "bm2\<lparr>bits := Block bs', next_index := ?nx\<rparr>"
  have below: "bytes_bit bs' j" if "j < ?nx" for j
  proof (cases "j \<le> ?i")
    case True
    then show ?thesis using set sb_invD(5) [OF grow(2), of j] grow(3) bs(1) by (cases "j = ?i") simp_all
  next
    case False
    with that r(2) grow(3,4) show ?thesis by (cases r) auto
  qed
  have "socket_bitmap_get limit True junk bm = Inr (highest bm1 - int ?i, ?bm')"
    using init grow bs r(1) range to_int32_id [of "highest bm1 - int ?i"]
    by (simp add: socket_bitmap_get_def Let_def bs')
  moreover have "sb_inv ?bm'"
    using sb_invD(2,3) [OF grow(2)] r(2) bs(1) grow(3,4) below
    unfolding sb_inv_def by (cases r) (auto simp: set len')
  moreover have "sb_used ?bm' = insert ?i (sb_used bm)"
    using grow(3,4,6) bs(1) set by (auto simp: sb_used_def)
  ultimately show ?thesis using grow(5) by (intro exI [of _ ?bm']) simp
qed

text \<open>
  Returning a number is safe when it is not the last one of a full last byte that it leaves
  empty: then the shrinking loop stops at once.
\<close>

definition sb_put_safe :: "socket_bitmap \<Rightarrow> nat \<Rightarrow> bool" where
  "sb_put_safe bm i \<longleftrightarrow> i + 1 \<noteq> bit_length bm \<or> bit_length bm mod 8 \<noteq> 0 \<or>
     (\<exists>j < bit_length bm. j \<noteq> i \<and> j div 8 = i div 8 \<and> bytes_bit (sb_bytes (bits bm)) j)"

lemma socket_bitmap_shrink_stops:
  assumes "0 < len" and "len \<le> 8 * length bs" and "\<not> bytes_bit bs (len - 1)"
    and "len mod 8 = 0 \<Longrightarrow> bs ! ((len - 1) div 8) \<noteq> 0"
  shows "socket_bitmap_shrink (Block bs) len = Inr len"
proof -
  have k: "(len - 1) div 8 < length bs" using assms(1,2) by auto
  have top: "len div 8 - 1 = (len - 1) div 8" if aligned: "len mod 8 = 0"
  proof -
    from aligned obtain q where q: "len = 8 * q" by (auto elim: dvdE simp: mod_eq_0_iff_dvd)
    with assms(1) obtain r where "q = Suc r" by (cases q) auto
    with q show ?thesis by simp
  qed
  from assms(3) have "bs ! ((len - 1) div 8) AND push_bit ((len - 1) mod 8) 1 = 0"
    by (simp add: and_bit_u8 bytes_bit_def)
  with assms(1,4) k top show ?thesis by (subst socket_bitmap_shrink.simps) (cases "len mod 8 = 0"; simp)
qed

lemma socket_bitmap_put_spec:
  assumes inv: "sb_inv bm" and used: "i \<in> sb_used bm" and small: "bit_length bm < 2 ^ 31"
    and safe: "sb_put_safe bm i"
  shows "\<exists>bm'. socket_bitmap_put ok bm (highest bm - int i) = Inr bm' \<and> sb_inv bm' \<and>
    sb_used bm' = sb_used bm - {i} \<and> highest bm' = highest bm"
proof -
  from used have i: "i < bit_length bm" "bytes_bit (sb_bytes (bits bm)) i" by (simp_all add: sb_used_def)
  obtain bs where bs: "bits bm = Block bs" "i div 8 < length bs" "bit_length bm \<le> 8 * length bs"
    using sb_block [OF inv i(1)] .
  have index: "nat ((highest bm - (highest bm - int i)) mod 2 ^ 64) = i" using i(1) small by simp
  define bs' where bs': "bs' = bs[i div 8 := bs ! (i div 8) AND NOT (push_bit (i mod 8) 1)]"
  have clear: "bytes_bit bs' j \<longleftrightarrow> j \<noteq> i \<and> bytes_bit bs j" for j
    unfolding bs' using bs(2) by (rule bytes_bit_clear)
  have len': "length bs' = length bs" by (simp add: bs')
  let ?bm' = "bm\<lparr>bits := Block bs', next_index := min i (next_index bm)\<rparr>"
  have last: "int i = (int (bit_length bm) - 1) mod 2 ^ 64 \<longleftrightarrow> i + 1 = bit_length bm"
  proof -
    have "(int (bit_length bm) - 1) mod 2 ^ 64 = int (bit_length bm) - 1"
      using i(1) small by (intro mod_pos_pos_trivial) simp_all
    then show ?thesis by linarith
  qed
  have shrink: "socket_bitmap_shrink (Block bs') (bit_length bm) = Inr (bit_length bm)"
    if "i + 1 = bit_length bm"
  proof (rule socket_bitmap_shrink_stops)
    from that have top: "bit_length bm - 1 = i" by simp
    show "\<not> bytes_bit bs' (bit_length bm - 1)" unfolding top using clear by blast
    assume "bit_length bm mod 8 = 0"
    with safe that bs(1) obtain j where j: "j \<noteq> i" "j div 8 = i div 8" "bytes_bit bs j"
      by (auto simp: sb_put_safe_def)
    then have "bytes_bit bs' j" using clear by blast
    then have "bs' ! (j div 8) \<noteq> 0" by (auto simp: bytes_bit_def)
    with j(2) show "bs' ! ((bit_length bm - 1) div 8) \<noteq> 0" unfolding top by simp
  qed (use i(1) bs(3) len' in simp_all)
  have "socket_bitmap_put ok bm (highest bm - int i) = Inr ?bm'"
    unfolding socket_bitmap_put_def Let_def index last using bs(1,2) shrink by (simp add: bs')
  moreover have "sb_inv ?bm'"
    using sb_invD(2,3,4,5,6) [OF inv] bs(1) i unfolding sb_inv_def
    by (auto simp: clear len')
  moreover have "sb_used ?bm' = sb_used bm - {i}" using bs(1) clear by (auto simp: sb_used_def)
  ultimately show ?thesis by (intro exI [of _ ?bm']) simp
qed

section \<open>The bitmap as a pool of numbers\<close>

text \<open>
  A request that the limit of open files can meet and whose memory is granted; a return that
  is safe. Both are read through the model's functions: the number is the distance of the
  descriptor from the highest one.
\<close>

definition sb_pool_inv :: "socket_bitmap \<Rightarrow> bool" where
  "sb_pool_inv bm \<longleftrightarrow> sb_inv bm \<and> (highest bm = -1 \<or> (0 \<le> highest bm \<and> highest bm < 2 ^ 31))"

definition sb_pool_get :: "socket_bitmap \<Rightarrow> (nat \<times> socket_bitmap) option" where
  "sb_pool_get bm =
     (if next_index bm < 2 ^ 31 then
        (case socket_bitmap_get (Rlimit 1024) True 0 bm of
           Inr (fd, bm') \<Rightarrow> Some (nat (highest bm' - fd), bm')
         | Inl _ \<Rightarrow> None)
      else None)"

definition sb_pool_put :: "socket_bitmap \<Rightarrow> nat \<Rightarrow> socket_bitmap option" where
  "sb_pool_put bm i =
     (if bit_length bm < 2 ^ 31 \<and> sb_put_safe bm i then
        (case socket_bitmap_put True bm (highest bm - int i) of Inr bm' \<Rightarrow> Some bm' | Inl _ \<Rightarrow> None)
      else None)"

lemma sb_pool_get_law:
  assumes "sb_pool_inv bm" and "sb_pool_get bm = Some (i, bm')"
  shows "sb_pool_inv bm' \<and> i \<notin> sb_used bm \<and> sb_used bm' = insert i (sb_used bm)"
proof -
  from assms(2) have small: "next_index bm < 2 ^ 31" by (auto simp: sb_pool_get_def split: if_splits)
  from assms(1) obtain bm1 where init: "socket_bitmap_get_init (Rlimit 1024) bm = Some bm1"
    and range: "0 \<le> highest bm1" "highest bm1 < 2 ^ 31"
    by (auto simp: socket_bitmap_get_init_def sb_pool_inv_def to_int32_id)
  from assms(1) have inv: "sb_inv bm" by (simp add: sb_pool_inv_def)
  obtain bm2 where
    get: "socket_bitmap_get (Rlimit 1024) True 0 bm = Inr (highest bm1 - int (next_index bm), bm2)"
    and bm2: "sb_inv bm2" "sb_used bm2 = insert (next_index bm) (sb_used bm)" "highest bm2 = highest bm1"
    using socket_bitmap_get_spec [OF inv init range small, of 0] by blast
  have "sb_pool_get bm = Some (next_index bm, bm2)"
    using small bm2(3) by (simp add: sb_pool_get_def get)
  with assms(2) have eq: "i = next_index bm" "bm' = bm2" by simp_all
  with bm2 range have "sb_pool_inv bm'" "sb_used bm' = insert (next_index bm) (sb_used bm)"
    by (simp_all add: sb_pool_inv_def)
  moreover have "next_index bm \<notin> sb_used bm" using sb_invD(6) [OF inv] by (auto simp: sb_used_def)
  ultimately show ?thesis using eq by simp
qed

lemma sb_pool_put_law:
  assumes "sb_pool_inv bm" and "i \<in> sb_used bm" and "sb_pool_put bm i = Some bm'"
  shows "sb_pool_inv bm' \<and> sb_used bm' = sb_used bm - {i}"
proof -
  from assms(3) have "bit_length bm < 2 ^ 31" "sb_put_safe bm i"
    by (auto simp: sb_pool_put_def split: if_splits)
  moreover from assms(1) have "sb_inv bm" by (simp add: sb_pool_inv_def)
  ultimately obtain bm2 where put: "socket_bitmap_put True bm (highest bm - int i) = Inr bm2"
    and bm2: "sb_inv bm2" "sb_used bm2 = sb_used bm - {i}" "highest bm2 = highest bm"
    using socket_bitmap_put_spec [of bm i True] assms(2) by blast
  from assms(3) have "bm' = bm2" by (simp add: sb_pool_put_def put split: if_splits)
  with bm2 assms(1) show ?thesis by (simp add: sb_pool_inv_def)
qed

interpretation sb: number_pool sb_pool_inv sb_used sb_pool_get sb_pool_put
  by unfold_locales (blast dest: sb_pool_get_law sb_pool_put_law)+

section \<open>Properties\<close>

text \<open>Taking a descriptor number: on a well-formed bitmap the call succeeds without touching
  memory outside its block, hands out the number at the distance of the least unused index
  from the highest descriptor, marks exactly that index, and leaves the bitmap well-formed.\<close>

theorem socket_bitmap_get_least:
  assumes "sb_inv bm" and "0 \<le> highest bm" and "highest bm < 2 ^ 31" and "next_index bm < 2 ^ 31"
  shows "\<exists>bm'. socket_bitmap_get limit True junk bm = Inr (highest bm - int (LEAST i. i \<notin> sb_used bm), bm') \<and>
    sb_inv bm' \<and> highest bm' = highest bm \<and>
    sb_used bm' = insert (LEAST i. i \<notin> sb_used bm) (sb_used bm)"
proof -
  from assms(2) have "socket_bitmap_get_init limit bm = Some bm"
    by (simp add: socket_bitmap_get_init_def)
  from socket_bitmap_get_spec [OF assms(1) this assms(2,3,4), of junk] show ?thesis
    unfolding sb_inv_least [OF assms(1), symmetric] by blast
qed

definition sb_example :: socket_bitmap where
  "sb_example = \<lparr>next_index = 1, bits = Block [5], bit_length = 3, highest = 1023\<rparr>"

lemma sb_example_bits: "bytes_bit [5] i \<longleftrightarrow> i = 0 \<or> i = 2" if "i < 8"
proof -
  from that have "i \<in> {0, 1, 2, 3, 4, 5, 6, 7}" by auto
  then show ?thesis by (elim insertE emptyE) (simp_all add: bytes_bit_def bit_numeral_simps)
qed

lemma sb_example_inv: "sb_inv sb_example" "sb_used sb_example = {0, 2}"
  by (auto simp: sb_inv_def sb_used_def sb_example_def sb_example_bits)

theorem socket_bitmap_get_least_witness:
  "\<exists>bm'. socket_bitmap_get RlimitInfinity True 0 sb_example =
     Inr (1023 - int (LEAST i. i \<notin> {0, 2::nat}), bm') \<and> sb_inv bm'"
proof -
  have "highest sb_example = 1023" "next_index sb_example = 1" by (simp_all add: sb_example_def)
  with socket_bitmap_get_least [OF sb_example_inv(1), of RlimitInfinity 0] show ?thesis
    unfolding sb_example_inv(2) by force
qed

text \<open>Returning a descriptor number: when its index is in use and it is not the only one left
  in a full last byte, the call touches only the block, clears exactly that index, and leaves
  the bitmap well-formed, so that the number can be handed out again.\<close>

theorem socket_bitmap_put_frees:
  assumes "sb_inv bm" and "i \<in> sb_used bm" and "bit_length bm < 2 ^ 31" and "sb_put_safe bm i"
  shows "\<exists>bm'. socket_bitmap_put ok bm (highest bm - int i) = Inr bm' \<and> sb_inv bm' \<and>
    highest bm' = highest bm \<and> sb_used bm' = sb_used bm - {i} \<and> next_index bm' = min i (LEAST j. j \<notin> sb_used bm)"
proof -
  obtain bm' where bm': "socket_bitmap_put ok bm (highest bm - int i) = Inr bm'" "sb_inv bm'"
    "sb_used bm' = sb_used bm - {i}" "highest bm' = highest bm"
    using socket_bitmap_put_spec [OF assms, of ok] by blast
  have "next_index bm' = (LEAST j. j \<notin> sb_used bm')" by (rule sb_inv_least [OF bm'(2)])
  also have "\<dots> = min i (LEAST j. j \<notin> sb_used bm)"
  proof (rule Least_equality)
    have "(LEAST j. j \<notin> sb_used bm) \<notin> sb_used bm"
      using ex_new_if_finite [OF infinite_UNIV_nat sb_used_finite [of bm]] by (metis LeastI)
    then show "min i (LEAST j. j \<notin> sb_used bm) \<notin> sb_used bm'" by (simp add: bm'(3) min_def)
    show "min i (LEAST j. j \<notin> sb_used bm) \<le> j" if "j \<notin> sb_used bm'" for j
      using that Least_le [of "\<lambda>j. j \<notin> sb_used bm" j] by (auto simp: bm'(3) min_le_iff_disj)
  qed
  finally show ?thesis using bm' by blast
qed

theorem socket_bitmap_put_frees_witness:
  "\<exists>bm'. socket_bitmap_put True sb_example 1023 = Inr bm' \<and> sb_used bm' = {0, 2} - {0} \<and> next_index bm' = 0"
proof -
  have "bit_length sb_example < 2 ^ 31" "sb_put_safe sb_example 0" "highest sb_example = 1023"
    by (simp_all add: sb_example_def sb_put_safe_def)
  with socket_bitmap_put_frees [OF sb_example_inv(1), of 0 True] show ?thesis
    unfolding sb_example_inv(2) by force
qed

text \<open>C22. No descriptor number is handed out twice: after any sequence of requests and safe returns
  from the empty bitmap, the numbers that clients hold are pairwise distinct and are exactly
  those the bitmap has marked.\<close>

theorem socket_bitmap_distinct:
  assumes "pool_run sb_pool_get sb_pool_put ops (socket_bitmap_empty, []) = Some (bm, held)"
  shows "distinct held \<and> set held = sb_used bm \<and> sb_inv bm"
proof -
  have "sb_pool_inv socket_bitmap_empty" "sb_used socket_bitmap_empty = set []"
    by (simp_all add: socket_bitmap_empty_def sb_pool_inv_def sb_inv_def sb_used_def)
  from sb.run_distinct [OF this _ assms] show ?thesis by (simp add: sb_pool_inv_def)
qed

lemmas sb_eval = socket_bitmap_get_def socket_bitmap_get_init_def socket_bitmap_get_grow_def
  socket_bitmap_put_def socket_bitmap_scan.simps socket_bitmap_shrink.simps to_int32_def Let_def

theorem socket_bitmap_distinct_witness:
  "\<exists>bm. pool_run sb_pool_get sb_pool_put [PoolGet, PoolGet, PoolGet, PoolPut 2, PoolGet] (socket_bitmap_empty, []) =
     Some (bm, [0, 2, 1]) \<and> set [0, 2, 1] = sb_used bm"
proof -
  let ?bm = "\<lparr>next_index = 3, bits = Block [7], bit_length = 3, highest = 1023\<rparr>"
  have run: "pool_run sb_pool_get sb_pool_put [PoolGet, PoolGet, PoolGet, PoolPut 2, PoolGet]
      (socket_bitmap_empty, []) = Some (?bm, [0, 2, 1])"
    by (simp add: socket_bitmap_empty_def sb_pool_get_def sb_pool_put_def sb_put_safe_def sb_eval)
  with socket_bitmap_distinct [OF run] show ?thesis by blast
qed

text \<open>
  Any sequence of calls, returns unsafe as they may be, with the limit at its usual 1024: a
  request or the return of a descriptor. The answer lists the descriptors handed out.
\<close>

fun sb_calls :: "int option list \<Rightarrow> socket_bitmap \<Rightarrow> sb_err + int list \<times> socket_bitmap" where
  "sb_calls [] bm = Inr ([], bm)"
| "sb_calls (None # cs) bm =
     res_bind (socket_bitmap_get (Rlimit 1024) True 0 bm) (\<lambda>(fd, bm1).
     res_bind (sb_calls cs bm1) (\<lambda>(fds, bm2). Inr (fd # fds, bm2)))"
| "sb_calls (Some fd # cs) bm = res_bind (socket_bitmap_put True bm fd) (sb_calls cs)"

definition sb_bug_returns :: "int option list" where
  "sb_bug_returns = map Some [1020, 1015, 1014, 1013, 1012, 1011, 1010, 1009, 1008]"

text \<open>C34. The shrinking loop is wrong, since it stops at clear bits and drops set ones. After sixteen
  requests and the return of indices 3 and 8 to 15, the next two requests are answered with
  1020 and with 1019, although 1019 was handed out before and never returned. After eight
  requests and the return of all of them, the block is freed while the bitmap keeps the
  pointer, which the next request passes to \<open>realloc\<close>.\<close>

theorem socket_bitmap_shrink_corrupts:
  "(\<exists>bm. sb_calls (replicate 16 None @ sb_bug_returns @ [None, None]) socket_bitmap_empty =
     Inr ([1023, 1022, 1021, 1020, 1019, 1018, 1017, 1016, 1015, 1014, 1013, 1012, 1011, 1010, 1009, 1008,
           1020, 1019], bm)) \<and> Some 1019 \<notin> set sb_bug_returns \<and>
   sb_calls (replicate 8 None @ map Some [1023, 1022, 1021, 1020, 1019, 1018, 1017, 1016] @ [None])
     socket_bitmap_empty = Inl UseAfterFree"
proof -
  have r8: "replicate 8 (None :: int option) = [None, None, None, None, None, None, None, None]"
    by (simp add: eval_nat_numeral)
  have r16: "replicate 16 (None :: int option) = replicate 8 None @ replicate 8 None"
    by (simp flip: replicate_add)
  show ?thesis
    unfolding r16 r8 by (simp add: socket_bitmap_empty_def sb_eval sb_bug_returns_def)
qed

end
