(* ===== verification/Cgs_Events.thy ===== *)
theory Cgs_Events
  imports Osxie_Prelude
begin

text \<open>
  Input events of src/WindowServer: the translation of X events, key symbols and modifier
  masks (X11/X11Display.c, X11/X11Keymap.c) and the queue of event records
  (CGSEventPipeline.c), a ring buffer under a mutex. The queue is shown to be the bounded
  first-in-first-out queue that the producer and the consumers rely on. The numbers of
  X's header files (key symbols, modifier masks) are arguments.
\<close>

section \<open>Event records\<close>

datatype cgs_event_type =
    kCGSEventNull | kCGSEventLeftMouseDown | kCGSEventLeftMouseUp | kCGSEventRightMouseDown
  | kCGSEventRightMouseUp | kCGSEventMouseMoved | kCGSEventKeyDown | kCGSEventKeyUp
  | kCGSEventOtherMouseDown | kCGSEventOtherMouseUp

record cgs_event =
  ev_major :: nat
  ev_connection :: nat
  ev_time :: u64
  ev_type :: cgs_event_type
  ev_location :: "int \<times> int"
  ev_flags :: u64
  ev_button :: nat
  ev_key_code :: u16

definition kCGSEventFlagMaskAlphaShift :: u64 where "kCGSEventFlagMaskAlphaShift = push_bit 16 1"

definition kCGSEventFlagMaskShift :: u64 where "kCGSEventFlagMaskShift = push_bit 17 1"

definition kCGSEventFlagMaskControl :: u64 where "kCGSEventFlagMaskControl = push_bit 18 1"

definition kCGSEventFlagMaskAlternate :: u64 where "kCGSEventFlagMaskAlternate = push_bit 19 1"

definition kCGSEventFlagMaskCommand :: u64 where "kCGSEventFlagMaskCommand = push_bit 20 1"

section \<open>Keys and modifiers\<close>

text \<open>The table of X11Keymap.c; \<open>xk\<close> gives the number of a key symbol by its name.\<close>

definition keymap_entries :: "(string \<times> u16) list" where
  "keymap_entries = [
    (''a'', 0x00), (''s'', 0x01), (''d'', 0x02), (''f'', 0x03),
    (''h'', 0x04), (''g'', 0x05), (''z'', 0x06), (''x'', 0x07),
    (''c'', 0x08), (''v'', 0x09), (''b'', 0x0B), (''q'', 0x0C),
    (''w'', 0x0D), (''e'', 0x0E), (''r'', 0x0F), (''y'', 0x10),
    (''t'', 0x11), (''1'', 0x12), (''2'', 0x13), (''3'', 0x14),
    (''4'', 0x15), (''6'', 0x16), (''5'', 0x17), (''equal'', 0x18),
    (''9'', 0x19), (''7'', 0x1A), (''minus'', 0x1B), (''8'', 0x1C),
    (''0'', 0x1D), (''bracketright'', 0x1E), (''o'', 0x1F),
    (''u'', 0x20), (''bracketleft'', 0x21), (''i'', 0x22),
    (''p'', 0x23), (''Return'', 0x24), (''l'', 0x25), (''j'', 0x26),
    (''apostrophe'', 0x27), (''k'', 0x28), (''semicolon'', 0x29),
    (''backslash'', 0x2A), (''comma'', 0x2B), (''slash'', 0x2C),
    (''n'', 0x2D), (''m'', 0x2E), (''period'', 0x2F),
    (''Tab'', 0x30), (''space'', 0x31), (''grave'', 0x32),
    (''BackSpace'', 0x33), (''Escape'', 0x35),
    (''Meta_L'', 0x37), (''Shift_L'', 0x38), (''Caps_Lock'', 0x39),
    (''Alt_L'', 0x3A), (''Control_L'', 0x3B),
    (''Shift_R'', 0x3C), (''Alt_R'', 0x3D), (''Control_R'', 0x3E),
    (''Meta_R'', 0x36),
    (''Left'', 0x7B), (''Right'', 0x7C), (''Down'', 0x7D), (''Up'', 0x7E),
    (''F1'', 0x7A), (''F2'', 0x78), (''F3'', 0x63), (''F4'', 0x76),
    (''F5'', 0x60), (''F6'', 0x61), (''F7'', 0x62), (''F8'', 0x64),
    (''F9'', 0x65), (''F10'', 0x6D), (''F11'', 0x67), (''F12'', 0x6F),
    (''Insert'', 0x72), (''Delete'', 0x75), (''Home'', 0x73),
    (''End'', 0x77), (''Page_Up'', 0x74), (''Page_Down'', 0x79),
    (''Clear'', 0x47), (''KP_Decimal'', 0x41), (''KP_Enter'', 0x4C)]"

definition keymap_table :: "(string \<Rightarrow> u64) \<Rightarrow> (u64 \<times> u16) list" where
  "keymap_table xk = map (\<lambda>(k, mac). (xk k, mac)) keymap_entries @ [(0, 0)]"

text \<open>The search stops at the entry whose symbol and code are both zero.\<close>

fun keymap_search :: "(u64 \<times> u16) list \<Rightarrow> u64 \<Rightarrow> u16" where
  "keymap_search [] ks = 0xFF"
| "keymap_search ((xkey, mac) # rest) ks =
     (if mac \<noteq> 0 \<or> xkey \<noteq> 0 then if xkey = ks then mac else keymap_search rest ks else 0xFF)"

definition X11KeySymToMacKeyCode :: "(string \<Rightarrow> u64) \<Rightarrow> u64 \<Rightarrow> u16" where
  "X11KeySymToMacKeyCode xk ks = keymap_search (keymap_table xk) ks"

record x_masks =
  ShiftMask :: u32
  ControlMask :: u32
  Mod1Mask :: u32
  Mod4Mask :: u32
  LockMask :: u32

definition X11StateToCGSFlags :: "x_masks \<Rightarrow> u32 \<Rightarrow> u64" where
  "X11StateToCGSFlags m state =
     (let flags = 0;
          flags = (if state AND ShiftMask m \<noteq> 0 then flags OR kCGSEventFlagMaskShift else flags);
          flags = (if state AND ControlMask m \<noteq> 0 then flags OR kCGSEventFlagMaskControl else flags);
          flags = (if state AND Mod1Mask m \<noteq> 0 then flags OR kCGSEventFlagMaskAlternate else flags);
          flags = (if state AND Mod4Mask m \<noteq> 0 then flags OR kCGSEventFlagMaskCommand else flags);
          flags = (if state AND LockMask m \<noteq> 0 then flags OR kCGSEventFlagMaskAlphaShift else flags)
      in flags)"

section \<open>The queue\<close>

definition EVENT_QUEUE_SIZE :: nat where "EVENT_QUEUE_SIZE = 256"

record event_sys =
  event_queue :: "cgs_event list"
  queue_head :: nat
  queue_tail :: nat

datatype cg_error = kCGErrorSuccess | kCGErrorFailure | kCGErrorIllegalArgument

definition CGSInitEventSystem :: "event_sys \<Rightarrow> event_sys" where
  "CGSInitEventSystem s = s\<lparr>queue_head := 0, queue_tail := 0\<rparr>"

definition CGSMainConnectionID :: nat where "CGSMainConnectionID = 1"

definition CGSPostEventRecord2 :: "cgs_event option \<Rightarrow> event_sys \<Rightarrow> cg_error \<times> event_sys" where
  "CGSPostEventRecord2 r s =
     (case r of
        None \<Rightarrow> (kCGErrorIllegalArgument, s)
      | Some rec \<Rightarrow>
          let next = (queue_tail s + 1) mod EVENT_QUEUE_SIZE in
          if next = queue_head s then (kCGErrorFailure, s)
          else (kCGErrorSuccess,
                s\<lparr>event_queue := (event_queue s)[queue_tail s := rec], queue_tail := next\<rparr>))"

text \<open>\<open>None\<close>: the call waits for the condition variable.\<close>

definition CGSGetNextEventRecord :: "event_sys \<Rightarrow> (cgs_event \<times> event_sys) option" where
  "CGSGetNextEventRecord s =
     (if queue_head s = queue_tail s then None
      else Some (event_queue s ! queue_head s,
                 s\<lparr>queue_head := (queue_head s + 1) mod EVENT_QUEUE_SIZE\<rparr>))"

text \<open>\<open>None\<close>: the answer -1, nothing is pending.\<close>

definition CGSPeekEventRecord :: "event_sys \<Rightarrow> cgs_event option" where
  "CGSPeekEventRecord s =
     (if queue_head s = queue_tail s then None else Some (event_queue s ! queue_head s))"

section \<open>Translation of X events\<close>

text \<open>
  An X event with the fields that are read; the key event carries the symbol that
  \<open>XLookupKeysym\<close> answers for it. \<open>ButtonPress\<close> and \<open>KeyPress\<close> have \<open>True\<close>.
\<close>

datatype x_event =
    XButton bool nat int int u32
  | XMotion int int u32
  | XKey bool u64 u32
  | XConfigureNotify
  | XOther

text \<open>\<open>None\<close>: the event is skipped (the \<open>continue\<close> statements).\<close>

fun x_event_record :: "(string \<Rightarrow> u64) \<Rightarrow> x_masks \<Rightarrow> x_event \<Rightarrow> u64 \<Rightarrow> cgs_event option" where
  "x_event_record xk m (XButton down button x y state) now =
     (let rec = \<lparr>ev_major = 1, ev_connection = CGSMainConnectionID, ev_time = now, ev_type = kCGSEventNull,
                 ev_location = (x, y), ev_flags = X11StateToCGSFlags m state, ev_button = button,
                 ev_key_code = 0\<rparr>
      in if button = 1 then Some (rec\<lparr>ev_type := if down then kCGSEventLeftMouseDown else kCGSEventLeftMouseUp\<rparr>)
         else if button = 3 then Some (rec\<lparr>ev_type := if down then kCGSEventRightMouseDown else kCGSEventRightMouseUp\<rparr>)
         else if button = 2 then Some (rec\<lparr>ev_type := if down then kCGSEventOtherMouseDown else kCGSEventOtherMouseUp\<rparr>)
         else None)"
| "x_event_record xk m (XMotion x y state) now =
     Some \<lparr>ev_major = 1, ev_connection = CGSMainConnectionID, ev_time = now, ev_type = kCGSEventMouseMoved,
           ev_location = (x, y), ev_flags = X11StateToCGSFlags m state, ev_button = 0, ev_key_code = 0\<rparr>"
| "x_event_record xk m (XKey press ks state) now =
     Some \<lparr>ev_major = 1, ev_connection = CGSMainConnectionID, ev_time = now,
           ev_type = (if press then kCGSEventKeyDown else kCGSEventKeyUp), ev_location = (0, 0),
           ev_flags = X11StateToCGSFlags m state, ev_button = 0, ev_key_code = X11KeySymToMacKeyCode xk ks\<rparr>"
| "x_event_record xk m XConfigureNotify now = None"
| "x_event_record xk m XOther now = None"

text \<open>The loop over the pending events, each with the time it is read; \<open>dpy\<close>: the display is open.\<close>

fun X11Display_loop :: "(string \<Rightarrow> u64) \<Rightarrow> x_masks \<Rightarrow> (x_event \<times> u64) list \<Rightarrow> event_sys \<Rightarrow> event_sys" where
  "X11Display_loop xk m [] s = s"
| "X11Display_loop xk m ((xev, now) # pending) s =
     (case x_event_record xk m xev now of
        None \<Rightarrow> X11Display_loop xk m pending s
      | Some rec \<Rightarrow> X11Display_loop xk m pending (snd (CGSPostEventRecord2 (Some rec) s)))"

definition X11Display_ProcessEvents ::
    "(string \<Rightarrow> u64) \<Rightarrow> x_masks \<Rightarrow> bool \<Rightarrow> (x_event \<times> u64) list \<Rightarrow> event_sys \<Rightarrow> event_sys" where
  "X11Display_ProcessEvents xk m dpy pending s = (if dpy then X11Display_loop xk m pending s else s)"

section \<open>The ring buffer is a bounded queue\<close>

definition event_count :: "event_sys \<Rightarrow> nat" where
  "event_count s = (queue_tail s + EVENT_QUEUE_SIZE - queue_head s) mod EVENT_QUEUE_SIZE"

definition event_contents :: "event_sys \<Rightarrow> cgs_event list" where
  "event_contents s =
     map (\<lambda>k. event_queue s ! ((queue_head s + k) mod EVENT_QUEUE_SIZE)) [0..<event_count s]"

definition event_inv :: "event_sys \<Rightarrow> bool" where
  "event_inv s \<longleftrightarrow> length (event_queue s) = EVENT_QUEUE_SIZE \<and> queue_head s < EVENT_QUEUE_SIZE \<and>
     queue_tail s < EVENT_QUEUE_SIZE"

lemma queue_size_pos [simp]: "0 < EVENT_QUEUE_SIZE"
  by (simp add: EVENT_QUEUE_SIZE_def)

lemma ring_distance:
  fixes h n :: nat
  assumes "h < N" and "n < N"
  shows "((h + n) mod N + N - h) mod N = n"
  using assms by (cases "h + n < N") (simp_all add: mod_if)

lemma ring_distinct:
  fixes h i j :: nat
  assumes "h < N" and "i < N" and "j < N" and "(h + i) mod N = (h + j) mod N"
  shows "i = j"
proof -
  have "i = ((h + i) mod N + N - h) mod N" by (rule ring_distance [OF assms(1,2), symmetric])
  also have "\<dots> = j" unfolding assms(4) by (rule ring_distance [OF assms(1,3)])
  finally show ?thesis .
qed

lemma event_tail:
  assumes "event_inv s"
  shows "event_count s < EVENT_QUEUE_SIZE"
    and "queue_tail s = (queue_head s + event_count s) mod EVENT_QUEUE_SIZE"
proof -
  show "event_count s < EVENT_QUEUE_SIZE" by (simp add: event_count_def)
  have "(queue_head s + event_count s) mod EVENT_QUEUE_SIZE =
      (queue_head s + (queue_tail s + EVENT_QUEUE_SIZE - queue_head s)) mod EVENT_QUEUE_SIZE"
    unfolding event_count_def by (simp add: mod_add_right_eq)
  with assms show "queue_tail s = (queue_head s + event_count s) mod EVENT_QUEUE_SIZE"
    by (simp add: event_inv_def)
qed

lemma event_empty_iff: "event_inv s \<Longrightarrow> queue_head s = queue_tail s \<longleftrightarrow> event_count s = 0"
  using event_tail [of s] ring_distinct [of "queue_head s" EVENT_QUEUE_SIZE "event_count s" 0]
  by (auto simp: event_inv_def)

lemma event_full_iff:
  assumes "event_inv s"
  shows "(queue_tail s + 1) mod EVENT_QUEUE_SIZE = queue_head s \<longleftrightarrow> event_count s + 1 = EVENT_QUEUE_SIZE"
proof -
  let ?N = EVENT_QUEUE_SIZE and ?h = "queue_head s" and ?n = "event_count s"
  have "(queue_tail s + 1) mod ?N = (?h + (?n + 1)) mod ?N"
    using event_tail(2) [OF assms] by (simp add: mod_simps)
  moreover have "(?h + (?n + 1)) mod ?N = ?h \<longleftrightarrow> ?n + 1 = ?N"
  proof (cases "?n + 1 = ?N")
    case True
    with assms show ?thesis by (simp add: event_inv_def)
  next
    case False
    with event_tail(1) [OF assms] have "?n + 1 < ?N" by simp
    with assms ring_distinct [of ?h ?N "?n + 1" 0] False show ?thesis by (auto simp: event_inv_def)
  qed
  ultimately show ?thesis by simp
qed

abbreviation event_post :: "cgs_event \<Rightarrow> event_sys \<Rightarrow> event_sys" where
  "event_post rec s \<equiv> snd (CGSPostEventRecord2 (Some rec) s)"

lemma event_post_law:
  assumes inv: "event_inv s"
  shows "event_inv (event_post rec s) \<and> event_contents (event_post rec s) =
    (if length (event_contents s) < EVENT_QUEUE_SIZE - 1 then event_contents s @ [rec] else event_contents s)"
proof (cases "event_count s + 1 = EVENT_QUEUE_SIZE")
  case True
  then have "event_post rec s = s"
    using event_full_iff [OF inv] by (simp add: CGSPostEventRecord2_def Let_def)
  with True inv show ?thesis by (simp add: event_contents_def)
next
  case False
  let ?N = EVENT_QUEUE_SIZE and ?h = "queue_head s" and ?n = "event_count s"
  define s' where "s' = event_post rec s"
  from False have s': "event_queue s' = (event_queue s)[queue_tail s := rec]" "queue_head s' = ?h"
    "queue_tail s' = (queue_tail s + 1) mod ?N"
    using event_full_iff [OF inv] by (simp_all add: s'_def CGSPostEventRecord2_def Let_def)
  have n: "?n + 1 < ?N" using False event_tail(1) [OF inv] by simp
  have "queue_tail s' = (?h + (?n + 1)) mod ?N"
    using event_tail(2) [OF inv] s'(3) by (simp add: mod_simps)
  then have count: "event_count s' = ?n + 1"
    using ring_distance [of ?h ?N "?n + 1"] n inv s'(2) by (simp add: event_count_def event_inv_def)
  have inv': "event_inv s'" using inv s' by (simp add: event_inv_def)
  have old: "event_queue s' ! ((?h + k) mod ?N) = event_queue s ! ((?h + k) mod ?N)" if "k < ?n" for k
  proof -
    from that n inv event_tail(2) [OF inv] have "(?h + k) mod ?N \<noteq> queue_tail s"
      using ring_distinct [of ?h ?N k ?n] by (auto simp: event_inv_def)
    then show ?thesis by (simp add: s'(1))
  qed
  have new: "event_queue s' ! ((?h + ?n) mod ?N) = rec"
    using inv event_tail(2) [OF inv] by (simp add: s'(1) event_inv_def)
  have "event_contents s' = event_contents s @ [rec]"
    using old new by (simp add: event_contents_def count s'(2))
  with inv' n show ?thesis unfolding s'_def [symmetric] by (simp add: event_contents_def)
qed

lemma event_get_law:
  assumes inv: "event_inv s" and "event_contents s = rec # recs"
  shows "\<exists>s'. CGSGetNextEventRecord s = Some (rec, s') \<and> event_inv s' \<and> event_contents s' = recs"
proof -
  let ?N = EVENT_QUEUE_SIZE and ?h = "queue_head s"
  define s' where "s' = s\<lparr>queue_head := (?h + 1) mod ?N\<rparr>"
  from assms(2) obtain n where n: "event_count s = Suc n"
    by (cases "event_count s") (auto simp: event_contents_def)
  then have upt: "[0..<event_count s] = 0 # map Suc [0..<n]" by (simp add: upt_conv_Cons map_Suc_upt del: upt_Suc)
  from assms(2) have rec: "rec = event_queue s ! ?h"
    and recs: "recs = map (\<lambda>k. event_queue s ! ((?h + Suc k) mod ?N)) [0..<n]"
    using inv by (auto simp: event_contents_def upt event_inv_def)
  have inv': "event_inv s'" using inv by (simp add: event_inv_def s'_def)
  have "queue_tail s = ((?h + 1) mod ?N + n) mod ?N"
    using event_tail(2) [OF inv] n by (simp add: mod_simps)
  then have "event_count s' = n"
    using ring_distance [of "(?h + 1) mod ?N" ?N n] event_tail(1) [OF inv] n
    by (simp add: event_count_def s'_def)
  then have "event_contents s' = recs"
    by (simp add: event_contents_def recs s'_def mod_simps)
  moreover have "CGSGetNextEventRecord s = Some (rec, s')"
    using event_empty_iff [OF inv] n by (simp add: CGSGetNextEventRecord_def s'_def rec)
  ultimately show ?thesis using inv' by blast
qed

interpretation eq: bounded_fifo event_inv event_contents "EVENT_QUEUE_SIZE - 1" event_post CGSGetNextEventRecord
proof unfold_locales
  show "CGSGetNextEventRecord s = None" if "event_inv s" "event_contents s = []" for s
    using that event_empty_iff [of s] by (simp add: CGSGetNextEventRecord_def event_contents_def)
  show "length (event_contents s) \<le> EVENT_QUEUE_SIZE - 1" if "event_inv s" for s
    using event_tail(1) [OF that] by (simp add: event_contents_def)
qed (rule event_post_law event_get_law; assumption)+

section \<open>Keys\<close>

lemma keymap_search_map:
  assumes "\<forall>(k, mac) \<in> set es. xk k \<noteq> 0" and "inj_on xk (insert k (fst ` set es))"
  shows "keymap_search (map (\<lambda>(k, mac). (xk k, mac)) es @ [(0, 0)]) (xk k) =
    (case map_of es k of Some mac \<Rightarrow> mac | None \<Rightarrow> 0xFF)"
  using assms
proof (induction es)
  case Nil
  then show ?case by simp
next
  case (Cons e es)
  obtain k' mac where e: "e = (k', mac)" by (cases e)
  from Cons.prems(2) have "inj_on xk (insert k (fst ` set es))" by (rule inj_on_subset) auto
  with Cons.IH Cons.prems(1) have IH: "keymap_search (map (\<lambda>(k, mac). (xk k, mac)) es @ [(0, 0)]) (xk k) =
    (case map_of es k of Some mac \<Rightarrow> mac | None \<Rightarrow> 0xFF)" by simp
  have "xk k' = xk k \<longleftrightarrow> k' = k" using Cons.prems(2) e by (auto simp: inj_on_def)
  with Cons.prems(1) IH e show ?case by auto
qed

lemma keymap_distinct: "distinct (map snd keymap_entries)"
  by code_simp

text \<open>A numbering of the symbols, by their places in the table.\<close>

definition xk_example :: "string \<Rightarrow> u64" where
  "xk_example k = of_nat (Suc (length (takeWhile (\<lambda>e. fst e \<noteq> k) keymap_entries)))"

lemma length_takeWhile_eq:
  assumes "k \<in> fst ` set es" and "length (takeWhile (\<lambda>e. fst e \<noteq> k) es) = length (takeWhile (\<lambda>e. fst e \<noteq> k') es)"
  shows "k = k'"
  using assms by (induction es) (auto split: if_splits)

lemma xk_example_table: "inj_on xk_example (fst ` set keymap_entries)" "xk_example k \<noteq> 0"
proof -
  have "length keymap_entries = 86" by (simp add: keymap_entries_def)
  then have less: "length (takeWhile (\<lambda>e. fst e \<noteq> k) keymap_entries) \<le> 86" for k
    using length_takeWhile_le by metis
  have eq: "unat (xk_example k) = Suc (length (takeWhile (\<lambda>e. fst e \<noteq> k) keymap_entries))" for k
    using less [of k] by (simp add: xk_example_def unat_of_nat del: of_nat_Suc)
  show "inj_on xk_example (fst ` set keymap_entries)"
  proof (rule inj_onI)
    fix k k' assume "k \<in> fst ` set keymap_entries" "xk_example k = xk_example k'"
    with eq [of k] eq [of k'] show "k = k'" by (auto intro: length_takeWhile_eq)
  qed
  show "xk_example k \<noteq> 0" using eq [of k] by auto
qed

section \<open>Properties\<close>

text \<open>C25. The event queue is first-in-first-out with room for 255 records: processing the pending X
  events appends the records of those that are not skipped, in their order, to what is
  queued, and drops only what exceeds the capacity; nothing queued is overwritten.\<close>

theorem X11Display_ProcessEvents_queue:
  assumes "event_inv s"
  shows "event_inv (X11Display_ProcessEvents xk m True pending s) \<and>
    event_contents (X11Display_ProcessEvents xk m True pending s) =
      take 255 (event_contents s @ List.map_filter (\<lambda>(xev, now). x_event_record xk m xev now) pending)"
proof -
  have "X11Display_loop xk m pending s =
      fold event_post (List.map_filter (\<lambda>(xev, now). x_event_record xk m xev now) pending) s"
    by (induction pending arbitrary: s) (auto simp: List.map_filter_simps split: option.splits)
  moreover have "EVENT_QUEUE_SIZE - 1 = 255" by (simp add: EVENT_QUEUE_SIZE_def)
  ultimately show ?thesis
    using eq.put_list [OF assms] by (simp add: X11Display_ProcessEvents_def)
qed

definition x_example_masks :: x_masks where
  "x_example_masks = \<lparr>ShiftMask = 1, ControlMask = 4, Mod1Mask = 8, Mod4Mask = 64, LockMask = 2\<rparr>"

definition event_blank :: cgs_event where
  "event_blank = \<lparr>ev_major = 0, ev_connection = 0, ev_time = 0, ev_type = kCGSEventNull,
     ev_location = (0, 0), ev_flags = 0, ev_button = 0, ev_key_code = 0\<rparr>"

definition event_sys_example :: event_sys where
  "event_sys_example = \<lparr>event_queue = replicate 256 event_blank, queue_head = 255, queue_tail = 255\<rparr>"

lemma event_sys_example_inv: "event_inv event_sys_example" "event_contents event_sys_example = []"
  by (simp_all add: event_sys_example_def event_inv_def event_contents_def event_count_def EVENT_QUEUE_SIZE_def)

theorem X11Display_ProcessEvents_queue_witness:
  "length (event_contents (X11Display_ProcessEvents (\<lambda>_. 0) x_example_masks True
     [(XMotion 3 4 0, 7), (XConfigureNotify, 8), (XButton True 1 3 4 0, 9)] event_sys_example)) = 2"
  using X11Display_ProcessEvents_queue [OF event_sys_example_inv(1), of "\<lambda>_. 0" x_example_masks
      "[(XMotion 3 4 0, 7), (XConfigureNotify, 8), (XButton True 1 3 4 0, 9)]"]
  by (simp add: event_sys_example_inv(2) List.map_filter_simps Let_def)

text \<open>The consumer's side: peeking shows the oldest record without removing it, getting removes
  exactly that one, and both find nothing precisely when the queue is empty.\<close>

theorem CGSGetNextEventRecord_oldest:
  assumes "event_inv s"
  shows "case event_contents s of
      [] \<Rightarrow> CGSGetNextEventRecord s = None \<and> CGSPeekEventRecord s = None
    | rec # recs \<Rightarrow> CGSPeekEventRecord s = Some rec \<and>
        (\<exists>s'. CGSGetNextEventRecord s = Some (rec, s') \<and> event_inv s' \<and> event_contents s' = recs)"
proof (cases "event_contents s")
  case Nil
  then show ?thesis using eq.get_nil [OF assms Nil]
    by (auto simp: CGSGetNextEventRecord_def CGSPeekEventRecord_def split: if_splits)
next
  case (Cons rec recs)
  from eq.get_cons [OF assms Cons] show ?thesis
    by (auto simp: Cons CGSGetNextEventRecord_def CGSPeekEventRecord_def split: if_splits)
qed

theorem CGSGetNextEventRecord_oldest_witness:
  "\<exists>s'. CGSGetNextEventRecord (event_post (event_blank\<lparr>ev_button := 2\<rparr>) event_sys_example) =
     Some (event_blank\<lparr>ev_button := 2\<rparr>, s') \<and> event_contents s' = []"
proof -
  let ?s = "event_post (event_blank\<lparr>ev_button := 2\<rparr>) event_sys_example"
  have "event_inv ?s" "event_contents ?s = [event_blank\<lparr>ev_button := 2\<rparr>]"
    using event_post_law [OF event_sys_example_inv(1)] event_sys_example_inv(2)
    by (simp_all add: EVENT_QUEUE_SIZE_def)
  with CGSGetNextEventRecord_oldest [of ?s] show ?thesis by auto
qed

text \<open>Key codes: when the key symbols of the table are pairwise different and not zero (and a
  symbol asked for is different from them unless it is in the table), every key of the table
  is translated to its own code, every other symbol to 0xFF, and different keys of the table
  never to the same code.\<close>

theorem X11KeySymToMacKeyCode_table:
  assumes "inj_on xk (insert k (fst ` set keymap_entries))"
    and "\<forall>e \<in> set keymap_entries. xk (fst e) \<noteq> 0"
  shows "X11KeySymToMacKeyCode xk (xk k) = (case map_of keymap_entries k of Some mac \<Rightarrow> mac | None \<Rightarrow> 0xFF) \<and>
    (k \<in> fst ` set keymap_entries \<and> k' \<in> fst ` set keymap_entries \<and>
     X11KeySymToMacKeyCode xk (xk k) = X11KeySymToMacKeyCode xk (xk k') \<longrightarrow> k = k')"
proof -
  have code: "X11KeySymToMacKeyCode xk (xk j) = (case map_of keymap_entries j of Some mac \<Rightarrow> mac | None \<Rightarrow> 0xFF)"
    if "inj_on xk (insert j (fst ` set keymap_entries))" for j
    unfolding X11KeySymToMacKeyCode_def keymap_table_def
    by (rule keymap_search_map) (use assms(2) that in auto)
  have inj: "inj_on xk (insert k' (fst ` set keymap_entries))" if "k' \<in> fst ` set keymap_entries"
    using inj_on_subset [OF assms(1)] that by (simp add: insert_absorb subset_insertI)
  have same: "i = j" if "map_of keymap_entries i = Some mac" "map_of keymap_entries j = Some mac" for i j mac
    using that [THEN map_of_SomeD] keymap_distinct by (metis distinct_map inj_onD prod.inject snd_conv)
  have "k = k'" if key: "k \<in> fst ` set keymap_entries" "k' \<in> fst ` set keymap_entries"
    and eq: "X11KeySymToMacKeyCode xk (xk k) = X11KeySymToMacKeyCode xk (xk k')"
  proof -
    from key obtain mac mac' where "map_of keymap_entries k = Some mac" "map_of keymap_entries k' = Some mac'"
      by (metis map_of_eq_None_iff not_None_eq)
    moreover from this eq code [OF assms(1)] code [OF inj [OF key(2)]] have "mac = mac'" by simp
    ultimately show ?thesis using same by blast
  qed
  with code [OF assms(1)] show ?thesis by blast
qed

theorem X11KeySymToMacKeyCode_table_witness:
  "X11KeySymToMacKeyCode xk_example (xk_example ''Escape'') = 0x35"
proof -
  have "''Escape'' \<in> fst ` set keymap_entries" by (simp add: keymap_entries_def)
  then have "inj_on xk_example (insert ''Escape'' (fst ` set keymap_entries))"
    using xk_example_table(1) by (simp only: insert_absorb)
  moreover have "map_of keymap_entries ''Escape'' = Some 0x35" by (simp add: keymap_entries_def)
  ultimately show ?thesis
    using X11KeySymToMacKeyCode_table [THEN conjunct1, of xk_example "''Escape''"] xk_example_table(2)
    by (simp only: option.case ball_triv simp_thms)
qed

end
