(* ===== verification/Window_Server.thy ===== *)
theory Window_Server
  imports Osxie_Prelude
begin

text \<open>
  The window server of src/WindowServer/OSXWindowServer.c: connections on a heap, each with
  its list of windows and a log of the requests sent to its X display. Xlib answers
  (display, window and cursor numbers, screen sizes) and the success of \<open>calloc\<close> are
  arguments. Operations on a window hold the connection's mutex from the first to the last
  access of the list and are one step each. The bookkeeping is shown to implement a map
  from window numbers to what the X server was last asked to show for them.
\<close>

section \<open>Data\<close>

datatype OSXWindowType =
    kOSXWindowTypeNormal | kOSXWindowTypeMenu | kOSXWindowTypeToolbar | kOSXWindowTypePopup
  | kOSXWindowTypeDock | kOSXWindowTypeDesktop | kOSXWindowTypeSplash | kOSXWindowTypeDialog
  | kOSXWindowTypeUtility | kOSXWindowTypeSheet | kOSXWindowTypeDrawer | kOSXWindowTypeOverlay

datatype OSXWindowLevel =
    kOSXWindowLevelNormal | kOSXWindowLevelFloating | kOSXWindowLevelTornOffMenu
  | kOSXWindowLevelDock | kOSXWindowLevelMainMenu | kOSXWindowLevelStatus
  | kOSXWindowLevelModalPanel | kOSXWindowLevelPopUpMenu | kOSXWindowLevelDragging
  | kOSXWindowLevelScreenSaver | kOSXWindowLevelOverlay

datatype OSXEventType =
    kOSXEventTypeNull | kOSXEventTypeLeftMouseDown | kOSXEventTypeLeftMouseUp
  | kOSXEventTypeRightMouseDown | kOSXEventTypeRightMouseUp | kOSXEventTypeMouseMoved
  | kOSXEventTypeLeftMouseDragged | kOSXEventTypeRightMouseDragged
  | kOSXEventTypeMouseEntered | kOSXEventTypeMouseExited | kOSXEventTypeKeyDown
  | kOSXEventTypeKeyUp | kOSXEventTypeFlagsChanged | kOSXEventTypeScrollWheel
  | kOSXEventTypeTabletPoint | kOSXEventTypeTabletProximity | kOSXEventTypeOtherMouseDown
  | kOSXEventTypeOtherMouseUp | kOSXEventTypeOtherMouseDragged | kOSXEventTypeGesture
  | kOSXEventTypeMagnify | kOSXEventTypeSwipe | kOSXEventTypeRotate
  | kOSXEventTypeBeginGesture | kOSXEventTypeEndGesture | kOSXEventTypeSmartMagnify
  | kOSXEventTypeQuickLook | kOSXEventTypePressure | kOSXEventTypeDirectTouch
  | kOSXEventTypeSystemDefined | kOSXEventTypeApplicationDefined

record 'f OSXWindow =
  win_id :: u32
  x11_window :: u64
  frame :: "'f cg_rect"
  win_type :: OSXWindowType
  win_level :: OSXWindowLevel
  attributes :: u32
  win_title :: "string option"
  visible :: bool

text \<open>\<open>display\<close> 0 is the null pointer.\<close>

record 'f OSXWindowServerConnection =
  display :: nat
  screen :: nat
  root_window :: u64
  windows :: "'f OSXWindow list"
  next_window_id :: u32
  wm_delete_window :: u64
  wm_protocols :: u64
  connected :: bool

text \<open>The requests, with the coordinates as passed (before C makes integers of them).\<close>

datatype 'f x_request =
    XCreateWindow u64 "'f \<times> 'f" "'f \<times> 'f"
  | XSetWMProtocols u64 u64
  | XDestroyWindow u64
  | XMapWindow u64
  | XUnmapWindow u64
  | XMoveWindow u64 "'f \<times> 'f"
  | XResizeWindow u64 "'f \<times> 'f"
  | XStoreName u64 string
  | XTestFakeButtonEvent nat bool
  | XCreateBitmapFromData u64
  | XCreatePixmapCursor u64
  | XDefineCursor u64 u64
  | XFreeCursor u64
  | XFreePixmap u64
  | XWarpPointer u64 "'f \<times> 'f"
  | XFlush
  | XCloseDisplay

text \<open>
  The heap of connections (\<open>None\<close>: free), the global variable, and the requests sent on
  each display.
\<close>

record 'f ws =
  ws_heap :: "nat \<Rightarrow> 'f OSXWindowServerConnection option"
  g_connection :: "nat option"
  ws_xlog :: "nat \<Rightarrow> 'f x_request list"

datatype ws_error = Use_After_Free | Null_Window | Null_Display

text \<open>What Xlib says of a display that was opened.\<close>

record x_display =
  xd_display :: nat
  xd_screen :: nat
  xd_root :: u64
  xd_atom :: "string \<Rightarrow> u64"

section \<open>Access\<close>

definition ws_deref :: "nat \<Rightarrow> 'f ws \<Rightarrow> ws_error + 'f OSXWindowServerConnection" where
  "ws_deref a s = (case ws_heap s a of None \<Rightarrow> Inl Use_After_Free | Some c \<Rightarrow> Inr c)"

definition x_send :: "nat \<Rightarrow> 'f x_request list \<Rightarrow> 'f ws \<Rightarrow> ws_error + 'f ws" where
  "x_send d reqs s =
     (if reqs = [] then Inr s
      else if d = 0 then Inl Null_Display
      else Inr (s\<lparr>ws_xlog := (ws_xlog s)(d := ws_xlog s d @ reqs)\<rparr>))"

definition ws_put :: "nat \<Rightarrow> 'f OSXWindowServerConnection \<Rightarrow> 'f ws \<Rightarrow> 'f ws" where
  "ws_put a c s = s\<lparr>ws_heap := (ws_heap s)(a \<mapsto> c)\<rparr>"

text \<open>The frame of the operations that change windows: nothing for a null connection, else
  \<open>f\<close> on the connection and the requests it makes.\<close>

definition ws_update ::
    "nat option \<Rightarrow> ('f OSXWindowServerConnection \<Rightarrow> 'f OSXWindow list \<times> 'f x_request list) \<Rightarrow> 'f ws \<Rightarrow>
      ws_error + 'f ws" where
  "ws_update connection f s =
     (case connection of
        None \<Rightarrow> Inr s
      | Some a \<Rightarrow> res_bind (ws_deref a s) (\<lambda>c.
          let (ws, reqs) = f c in
          res_bind (x_send (display c) reqs s) (\<lambda>s. Inr (ws_put a (c\<lparr>windows := ws\<rparr>) s))))"

section \<open>Connections\<close>

text \<open>\<open>addr\<close>: the answer of \<open>calloc\<close>; \<open>env\<close>: the variable DISPLAY; \<open>xopen\<close>: XOpenDisplay.\<close>

definition OSXWindowServerConnect ::
    "nat option \<Rightarrow> string option \<Rightarrow> (string \<Rightarrow> x_display option) \<Rightarrow> 'f ws \<Rightarrow> ws_error + nat option \<times> 'f ws" where
  "OSXWindowServerConnect addr env xopen s =
     (let connect =
        (case addr of
           None \<Rightarrow> Inr (None, s)
         | Some a \<Rightarrow>
             (case xopen (case env of None \<Rightarrow> '':0'' | Some d \<Rightarrow> d) of
                None \<Rightarrow> Inr (None, s)
              | Some x \<Rightarrow>
                  let conn = \<lparr>display = xd_display x, screen = xd_screen x, root_window = xd_root x,
                              windows = [], next_window_id = 1000,
                              wm_delete_window = xd_atom x ''WM_DELETE_WINDOW'',
                              wm_protocols = xd_atom x ''WM_PROTOCOLS'', connected = True\<rparr>
                  in Inr (Some a, (ws_put a conn s)\<lparr>g_connection := Some a\<rparr>)))
      in case g_connection s of
           None \<Rightarrow> connect
         | Some g \<Rightarrow> res_bind (ws_deref g s) (\<lambda>c. if connected c then Inr (Some g, s) else connect))"

fun close_windows :: "'f OSXWindow list \<Rightarrow> 'f x_request list" where
  "close_windows [] = []"
| "close_windows (w # ws) =
     (if x11_window w \<noteq> 0 then [XDestroyWindow (x11_window w)] else []) @ close_windows ws"

definition OSXWindowServerDisconnect :: "nat option \<Rightarrow> 'f ws \<Rightarrow> ws_error + 'f ws" where
  "OSXWindowServerDisconnect connection s =
     (case connection of
        None \<Rightarrow> Inr s
      | Some a \<Rightarrow> res_bind (ws_deref a s) (\<lambda>conn.
          res_bind (x_send (display conn) (close_windows (windows conn)) s) (\<lambda>s.
          res_bind (if display conn \<noteq> 0 then x_send (display conn) [XCloseDisplay] s else Inr s) (\<lambda>s.
          let s = (if g_connection s = Some a then s\<lparr>g_connection := None\<rparr> else s)
          in Inr (s\<lparr>ws_heap := (ws_heap s)(a := None)\<rparr>)))))"

definition OSXWindowServerIsConnected :: "nat option \<Rightarrow> 'f ws \<Rightarrow> ws_error + bool" where
  "OSXWindowServerIsConnected connection s =
     (case connection of
        None \<Rightarrow> Inr False
      | Some a \<Rightarrow> res_bind (ws_deref a s) (\<lambda>conn. Inr (connected conn)))"

section \<open>Windows\<close>

text \<open>\<open>xid\<close>: the answer of XCreateWindow; \<open>alloc\<close>: \<open>calloc\<close> succeeds (it is not tested).\<close>

definition OSXWindowServerCreateWindow ::
    "nat option \<Rightarrow> 'f cg_rect \<Rightarrow> OSXWindowType \<Rightarrow> u32 \<Rightarrow> u64 \<Rightarrow> bool \<Rightarrow> 'f ws \<Rightarrow> ws_error + u32 \<times> 'f ws" where
  "OSXWindowServerCreateWindow connection fr type attrs xid alloc s =
     (case connection of
        None \<Rightarrow> Inr (0, s)
      | Some a \<Rightarrow> res_bind (ws_deref a s) (\<lambda>conn.
          res_bind (x_send (display conn)
              [XCreateWindow xid (origin fr) (rect_size fr), XSetWMProtocols xid (wm_delete_window conn)] s) (\<lambda>s.
          if \<not> alloc then Inl Null_Window
          else
            let window = \<lparr>win_id = next_window_id conn, x11_window = xid, frame = fr, win_type = type,
                          win_level = kOSXWindowLevelNormal, attributes = attrs, win_title = None,
                          visible = False\<rparr>
            in Inr (win_id window,
                    ws_put a (conn\<lparr>next_window_id := next_window_id conn + 1,
                                   windows := window # windows conn\<rparr>) s))))"

fun destroy_window :: "u32 \<Rightarrow> 'f OSXWindow list \<Rightarrow> 'f OSXWindow list \<times> 'f x_request list" where
  "destroy_window windowID [] = ([], [])"
| "destroy_window windowID (w # ws) =
     (if win_id w = windowID
      then (ws, (if x11_window w \<noteq> 0 then [XDestroyWindow (x11_window w)] else []) @ [XFlush])
      else let (ws, reqs) = destroy_window windowID ws in (w # ws, reqs))"

definition OSXWindowServerDestroyWindow :: "nat option \<Rightarrow> u32 \<Rightarrow> 'f ws \<Rightarrow> ws_error + 'f ws" where
  "OSXWindowServerDestroyWindow connection windowID s =
     ws_update connection (\<lambda>conn. destroy_window windowID (windows conn)) s"

text \<open>
  The loop that the following operations share: the first window with the number gets the
  request \<open>r\<close> and the change \<open>g\<close>.
\<close>

fun find_window ::
    "u32 \<Rightarrow> ('f OSXWindow \<Rightarrow> 'f x_request) \<Rightarrow> ('f OSXWindow \<Rightarrow> 'f OSXWindow) \<Rightarrow> 'f OSXWindow list \<Rightarrow>
      'f OSXWindow list \<times> 'f x_request list" where
  "find_window windowID r g [] = ([], [])"
| "find_window windowID r g (w # ws) =
     (if win_id w = windowID then (g w # ws, [r w, XFlush])
      else let (ws, reqs) = find_window windowID r g ws in (w # ws, reqs))"

definition OSXWindowServerShowWindow :: "nat option \<Rightarrow> u32 \<Rightarrow> 'f ws \<Rightarrow> ws_error + 'f ws" where
  "OSXWindowServerShowWindow connection windowID s =
     ws_update connection (\<lambda>conn. find_window windowID (\<lambda>w. XMapWindow (x11_window w))
       (\<lambda>w. w\<lparr>visible := True\<rparr>) (windows conn)) s"

definition OSXWindowServerHideWindow :: "nat option \<Rightarrow> u32 \<Rightarrow> 'f ws \<Rightarrow> ws_error + 'f ws" where
  "OSXWindowServerHideWindow connection windowID s =
     ws_update connection (\<lambda>conn. find_window windowID (\<lambda>w. XUnmapWindow (x11_window w))
       (\<lambda>w. w\<lparr>visible := False\<rparr>) (windows conn)) s"

definition OSXWindowServerMoveWindow :: "nat option \<Rightarrow> u32 \<Rightarrow> 'f \<times> 'f \<Rightarrow> 'f ws \<Rightarrow> ws_error + 'f ws" where
  "OSXWindowServerMoveWindow connection windowID location s =
     ws_update connection (\<lambda>conn. find_window windowID (\<lambda>w. XMoveWindow (x11_window w) location)
       (\<lambda>w. w\<lparr>frame := (frame w)\<lparr>origin := location\<rparr>\<rparr>) (windows conn)) s"

definition OSXWindowServerResizeWindow :: "nat option \<Rightarrow> u32 \<Rightarrow> 'f \<times> 'f \<Rightarrow> 'f ws \<Rightarrow> ws_error + 'f ws" where
  "OSXWindowServerResizeWindow connection windowID sz s =
     ws_update connection (\<lambda>conn. find_window windowID (\<lambda>w. XResizeWindow (x11_window w) sz)
       (\<lambda>w. w\<lparr>frame := (frame w)\<lparr>rect_size := sz\<rparr>\<rparr>) (windows conn)) s"

definition OSXWindowServerSetWindowTitle ::
    "nat option \<Rightarrow> u32 \<Rightarrow> string option \<Rightarrow> 'f ws \<Rightarrow> ws_error + 'f ws" where
  "OSXWindowServerSetWindowTitle connection windowID title s =
     (case title of
        None \<Rightarrow> Inr s
      | Some t \<Rightarrow> ws_update connection (\<lambda>conn. find_window windowID (\<lambda>w. XStoreName (x11_window w) t)
          (\<lambda>w. w\<lparr>win_title := Some t\<rparr>) (windows conn)) s)"

fun lookup_window :: "u32 \<Rightarrow> 'f OSXWindow list \<Rightarrow> 'f OSXWindow option" where
  "lookup_window windowID [] = None"
| "lookup_window windowID (w # ws) = (if win_id w = windowID then Some w else lookup_window windowID ws)"

definition OSXWindowServerGetWindowBounds :: "nat option \<Rightarrow> u32 \<Rightarrow> 'f::zero ws \<Rightarrow> ws_error + 'f cg_rect" where
  "OSXWindowServerGetWindowBounds connection windowID s =
     (case connection of
        None \<Rightarrow> Inr CGRectZero
      | Some a \<Rightarrow> res_bind (ws_deref a s) (\<lambda>conn.
          Inr (case lookup_window windowID (windows conn) of None \<Rightarrow> CGRectZero | Some w \<Rightarrow> frame w)))"

definition OSXWindowServerIsWindowVisible :: "nat option \<Rightarrow> u32 \<Rightarrow> 'f ws \<Rightarrow> ws_error + bool" where
  "OSXWindowServerIsWindowVisible connection windowID s =
     (case connection of
        None \<Rightarrow> Inr False
      | Some a \<Rightarrow> res_bind (ws_deref a s) (\<lambda>conn.
          Inr (case lookup_window windowID (windows conn) of None \<Rightarrow> False | Some w \<Rightarrow> visible w)))"

section \<open>Events, displays and the cursor\<close>

text \<open>Requests of the operations that do not touch the windows and do not lock.\<close>

definition ws_request ::
    "nat option \<Rightarrow> ('f OSXWindowServerConnection \<Rightarrow> 'f x_request list) \<Rightarrow> 'f ws \<Rightarrow> ws_error + 'f ws" where
  "ws_request connection f s =
     (case connection of
        None \<Rightarrow> Inr s
      | Some a \<Rightarrow> res_bind (ws_deref a s) (\<lambda>conn. x_send (display conn) (f conn) s))"

definition OSXWindowServerPostEvent :: "nat option \<Rightarrow> OSXEventType \<Rightarrow> 'f ws \<Rightarrow> ws_error + 'f ws" where
  "OSXWindowServerPostEvent connection type s =
     ws_request connection (\<lambda>conn.
       (case type of
          kOSXEventTypeLeftMouseDown \<Rightarrow> [XTestFakeButtonEvent 1 True]
        | kOSXEventTypeLeftMouseUp \<Rightarrow> [XTestFakeButtonEvent 1 False]
        | kOSXEventTypeRightMouseDown \<Rightarrow> [XTestFakeButtonEvent 3 True]
        | kOSXEventTypeRightMouseUp \<Rightarrow> [XTestFakeButtonEvent 3 False]
        | _ \<Rightarrow> []) @ [XFlush]) s"

text \<open>An answer of Xlib about an open display.\<close>

definition ws_query ::
    "nat option \<Rightarrow> 'r \<Rightarrow> ('f OSXWindowServerConnection \<Rightarrow> 'r) \<Rightarrow> 'f ws \<Rightarrow> ws_error + 'r" where
  "ws_query connection dflt f s =
     (case connection of
        None \<Rightarrow> Inr dflt
      | Some a \<Rightarrow> res_bind (ws_deref a s) (\<lambda>conn.
          if display conn = 0 then Inl Null_Display else Inr (f conn)))"

definition OSXWindowServerGetMainDisplay :: "nat option \<Rightarrow> 'f ws \<Rightarrow> ws_error + nat" where
  "OSXWindowServerGetMainDisplay connection s =
     (case connection of
        None \<Rightarrow> Inr 0
      | Some a \<Rightarrow> res_bind (ws_deref a s) (\<lambda>conn. Inr (screen conn)))"

definition OSXWindowServerGetDisplayBounds ::
    "(nat \<Rightarrow> nat \<Rightarrow> 'f) \<Rightarrow> (nat \<Rightarrow> nat \<Rightarrow> 'f) \<Rightarrow> nat option \<Rightarrow> 'f::zero ws \<Rightarrow> ws_error + 'f cg_rect" where
  "OSXWindowServerGetDisplayBounds DisplayWidth DisplayHeight connection s =
     ws_query connection CGRectZero (\<lambda>conn.
       CGRectZero\<lparr>rect_size := (DisplayWidth (display conn) (screen conn),
                                DisplayHeight (display conn) (screen conn))\<rparr>) s"

definition OSXWindowServerGetDisplayCount ::
    "(nat \<Rightarrow> u32) \<Rightarrow> nat option \<Rightarrow> 'f ws \<Rightarrow> ws_error + u32" where
  "OSXWindowServerGetDisplayCount ScreenCount connection s =
     ws_query connection 0 (\<lambda>conn. ScreenCount (display conn)) s"

definition OSXWindowServerShowCursor :: "nat option \<Rightarrow> 'f ws \<Rightarrow> ws_error + 'f ws" where
  "OSXWindowServerShowCursor connection s = Inr s"

text \<open>\<open>blank\<close> and \<open>invisible\<close>: the pixmap and the cursor that Xlib makes.\<close>

definition OSXWindowServerHideCursor :: "nat option \<Rightarrow> u64 \<Rightarrow> u64 \<Rightarrow> 'f ws \<Rightarrow> ws_error + 'f ws" where
  "OSXWindowServerHideCursor connection blank invisible s =
     ws_request connection (\<lambda>conn.
       [XCreateBitmapFromData (root_window conn), XCreatePixmapCursor blank,
        XDefineCursor (root_window conn) invisible, XFreeCursor invisible, XFreePixmap blank, XFlush]) s"

definition OSXWindowServerGetCursorPosition ::
    "(nat \<Rightarrow> u64 \<Rightarrow> 'f \<times> 'f) \<Rightarrow> nat option \<Rightarrow> 'f::zero ws \<Rightarrow> ws_error + 'f \<times> 'f" where
  "OSXWindowServerGetCursorPosition XQueryPointer connection s =
     ws_query connection (0, 0) (\<lambda>conn. XQueryPointer (display conn) (root_window conn)) s"

definition OSXWindowServerSetCursorPosition :: "nat option \<Rightarrow> 'f \<times> 'f \<Rightarrow> 'f ws \<Rightarrow> ws_error + 'f ws" where
  "OSXWindowServerSetCursorPosition connection position s =
     ws_request connection (\<lambda>conn. [XWarpPointer (root_window conn) position, XFlush]) s"

section \<open>Sequences of operations\<close>

datatype 'f ws_op =
    CreateWindow "'f cg_rect" OSXWindowType u32 u64
  | DestroyWindow u32
  | ShowWindow u32
  | HideWindow u32
  | MoveWindow u32 "'f \<times> 'f"
  | ResizeWindow u32 "'f \<times> 'f"
  | SetWindowTitle u32 "string option"
  | PostEvent OSXEventType
  | HideCursor u64 u64
  | SetCursorPosition "'f \<times> 'f"

text \<open>The numbers of the windows made, and the state.\<close>

fun ws_exec :: "nat \<Rightarrow> 'f ws_op \<Rightarrow> 'f ws \<Rightarrow> ws_error + u32 list \<times> 'f ws" where
  "ws_exec a (CreateWindow fr t at xid) s =
     res_bind (OSXWindowServerCreateWindow (Some a) fr t at xid True s) (\<lambda>(i, s). Inr ([i], s))"
| "ws_exec a (DestroyWindow i) s = res_bind (OSXWindowServerDestroyWindow (Some a) i s) (\<lambda>s. Inr ([], s))"
| "ws_exec a (ShowWindow i) s = res_bind (OSXWindowServerShowWindow (Some a) i s) (\<lambda>s. Inr ([], s))"
| "ws_exec a (HideWindow i) s = res_bind (OSXWindowServerHideWindow (Some a) i s) (\<lambda>s. Inr ([], s))"
| "ws_exec a (MoveWindow i p) s = res_bind (OSXWindowServerMoveWindow (Some a) i p s) (\<lambda>s. Inr ([], s))"
| "ws_exec a (ResizeWindow i z) s = res_bind (OSXWindowServerResizeWindow (Some a) i z s) (\<lambda>s. Inr ([], s))"
| "ws_exec a (SetWindowTitle i t) s = res_bind (OSXWindowServerSetWindowTitle (Some a) i t s) (\<lambda>s. Inr ([], s))"
| "ws_exec a (PostEvent e) s = res_bind (OSXWindowServerPostEvent (Some a) e s) (\<lambda>s. Inr ([], s))"
| "ws_exec a (HideCursor b c) s = res_bind (OSXWindowServerHideCursor (Some a) b c s) (\<lambda>s. Inr ([], s))"
| "ws_exec a (SetCursorPosition p) s = res_bind (OSXWindowServerSetCursorPosition (Some a) p s) (\<lambda>s. Inr ([], s))"

fun ws_run :: "nat \<Rightarrow> 'f ws_op list \<Rightarrow> 'f ws \<Rightarrow> ws_error + u32 list \<times> 'f ws" where
  "ws_run a [] s = Inr ([], s)"
| "ws_run a (opn # ops) s =
     res_bind (ws_exec a opn s) (\<lambda>(ids, s). res_bind (ws_run a ops s) (\<lambda>(ids', s). Inr (ids @ ids', s)))"

section \<open>The contract\<close>

text \<open>What is shown of a window.\<close>

record 'f x_window =
  xw_pos :: "'f \<times> 'f"
  xw_size :: "'f \<times> 'f"
  xw_mapped :: bool
  xw_name :: "string option"

text \<open>
  What a request asks for, over the windows that exist; \<open>None\<close>: it names a window that does
  not exist, or makes one that does.
\<close>

fun x_effect :: "'f x_request \<Rightarrow> (u64 \<rightharpoonup> 'f x_window) \<Rightarrow> (u64 \<rightharpoonup> 'f x_window) option" where
  "x_effect (XCreateWindow x p z) m =
     (if x = 0 \<or> m x \<noteq> None then None
      else Some (m(x \<mapsto> \<lparr>xw_pos = p, xw_size = z, xw_mapped = False, xw_name = None\<rparr>)))"
| "x_effect (XDestroyWindow x) m = (case m x of None \<Rightarrow> None | Some v \<Rightarrow> Some (m(x := None)))"
| "x_effect (XSetWMProtocols x p) m = (case m x of None \<Rightarrow> None | Some v \<Rightarrow> Some m)"
| "x_effect (XMapWindow x) m = (case m x of None \<Rightarrow> None | Some v \<Rightarrow> Some (m(x \<mapsto> v\<lparr>xw_mapped := True\<rparr>)))"
| "x_effect (XUnmapWindow x) m = (case m x of None \<Rightarrow> None | Some v \<Rightarrow> Some (m(x \<mapsto> v\<lparr>xw_mapped := False\<rparr>)))"
| "x_effect (XMoveWindow x p) m = (case m x of None \<Rightarrow> None | Some v \<Rightarrow> Some (m(x \<mapsto> v\<lparr>xw_pos := p\<rparr>)))"
| "x_effect (XResizeWindow x z) m = (case m x of None \<Rightarrow> None | Some v \<Rightarrow> Some (m(x \<mapsto> v\<lparr>xw_size := z\<rparr>)))"
| "x_effect (XStoreName x t) m = (case m x of None \<Rightarrow> None | Some v \<Rightarrow> Some (m(x \<mapsto> v\<lparr>xw_name := Some t\<rparr>)))"
| "x_effect _ m = Some m"

fun x_effects :: "'f x_request list \<Rightarrow> (u64 \<rightharpoonup> 'f x_window) \<Rightarrow> (u64 \<rightharpoonup> 'f x_window) option" where
  "x_effects [] m = Some m"
| "x_effects (r # rs) m = (case x_effect r m of None \<Rightarrow> None | Some m \<Rightarrow> x_effects rs m)"

text \<open>The specification: windows by number, and the next number.\<close>

fun spec_op :: "'f ws_op \<Rightarrow> (u32 \<rightharpoonup> 'f x_window) \<times> u32 \<Rightarrow> (u32 \<rightharpoonup> 'f x_window) \<times> u32" where
  "spec_op (CreateWindow fr t at xid) (m, n) =
     (m(n \<mapsto> \<lparr>xw_pos = origin fr, xw_size = rect_size fr, xw_mapped = False, xw_name = None\<rparr>), n + 1)"
| "spec_op (DestroyWindow i) (m, n) = (m(i := None), n)"
| "spec_op (ShowWindow i) (m, n) = (m(i := map_option (xw_mapped_update (\<lambda>_. True)) (m i)), n)"
| "spec_op (HideWindow i) (m, n) = (m(i := map_option (xw_mapped_update (\<lambda>_. False)) (m i)), n)"
| "spec_op (MoveWindow i p) (m, n) = (m(i := map_option (xw_pos_update (\<lambda>_. p)) (m i)), n)"
| "spec_op (ResizeWindow i z) (m, n) = (m(i := map_option (xw_size_update (\<lambda>_. z)) (m i)), n)"
| "spec_op (SetWindowTitle i t) (m, n) =
     (case t of None \<Rightarrow> (m, n)
      | Some t \<Rightarrow> (m(i := map_option (xw_name_update (\<lambda>_. Some t)) (m i)), n))"
| "spec_op _ (m, n) = (m, n)"

fun op_xids :: "'f ws_op list \<Rightarrow> u64 list" where
  "op_xids [] = []"
| "op_xids (CreateWindow fr t at xid # ops) = xid # op_xids ops"
| "op_xids (_ # ops) = op_xids ops"

section \<open>Invariant\<close>

definition win_view :: "'f OSXWindow \<Rightarrow> 'f x_window" where
  "win_view w = \<lparr>xw_pos = origin (frame w), xw_size = rect_size (frame w), xw_mapped = visible w,
                 xw_name = win_title w\<rparr>"

definition ids_view :: "'f OSXWindow list \<Rightarrow> u32 \<rightharpoonup> 'f x_window" where
  "ids_view ws = map_of (map (\<lambda>w. (win_id w, win_view w)) ws)"

definition x_view :: "'f OSXWindow list \<Rightarrow> u64 \<rightharpoonup> 'f x_window" where
  "x_view ws = map_of (map (\<lambda>w. (x11_window w, win_view w)) ws)"

definition wins_inv :: "'f OSXWindow list \<Rightarrow> u32 \<Rightarrow> bool" where
  "wins_inv ws n \<longleftrightarrow> distinct (map win_id ws) \<and> distinct (map x11_window ws) \<and>
     0 \<notin> set (map x11_window ws) \<and> (\<forall>w \<in> set ws. 1000 \<le> win_id w \<and> win_id w < n) \<and> 1000 \<le> n"

definition ws_inv :: "nat \<Rightarrow> 'f OSXWindowServerConnection \<Rightarrow> 'f ws \<Rightarrow> bool" where
  "ws_inv a c s \<longleftrightarrow> ws_heap s a = Some c \<and> display c \<noteq> 0 \<and> connected c \<and>
     wins_inv (windows c) (next_window_id c) \<and>
     x_effects (ws_xlog s (display c)) Map.empty = Some (x_view (windows c))"

section \<open>Lists of windows\<close>

lemma lookup_window_iff:
  "distinct (map win_id ws) \<Longrightarrow> lookup_window i ws = Some w \<longleftrightarrow> w \<in> set ws \<and> win_id w = i"
  by (induction ws) (auto dest: image_eqI)

lemma lookup_window_None: "lookup_window i ws = None \<longleftrightarrow> i \<notin> win_id ` set ws"
  by (induction ws) auto

lemma lookup_window_view: "map_option win_view (lookup_window i ws) = ids_view ws i"
  by (induction ws) (auto simp: ids_view_def)

text \<open>Replacing the window \<open>w\<close> in the list, and removing it, seen through a key.\<close>

lemma view_replace:
  assumes "distinct (map win_id ws)" and "distinct (map k ws)" and "w \<in> set ws" and "k (g w) = k w"
  shows "map_of (map (\<lambda>w. (k w, v w)) (map (\<lambda>x. if win_id x = win_id w then g x else x) ws)) =
    (map_of (map (\<lambda>w. (k w, v w)) ws))(k w \<mapsto> v (g w))"
  using assms
proof (induction ws)
  case Nil
  then show ?case by simp
next
  case (Cons x ws)
  show ?case
  proof (cases "x = w")
    case True
    with Cons.prems(1) have "map (\<lambda>x. if win_id x = win_id w then g x else x) ws = ws"
      by (intro map_idI) (auto simp: image_iff)
    with True Cons.prems(4) show ?thesis by (simp add: fun_eq_iff)
  next
    case False
    with Cons.prems have w: "w \<in> set ws" by simp
    with Cons.prems have "win_id x \<noteq> win_id w" "k x \<noteq> k w" by auto
    with Cons.IH [OF _ _ w] Cons.prems show ?thesis by (auto simp: fun_eq_iff)
  qed
qed

lemma view_remove:
  assumes "distinct (map win_id ws)" and "distinct (map k ws)" and "w \<in> set ws"
  shows "map_of (map (\<lambda>w. (k w, v w)) (filter (\<lambda>x. win_id x \<noteq> win_id w) ws)) =
    (map_of (map (\<lambda>w. (k w, v w)) ws))(k w := None)"
  using assms
proof (induction ws)
  case Nil
  then show ?case by simp
next
  case (Cons x ws)
  show ?case
  proof (cases "x = w")
    case True
    with Cons.prems(1) have "filter (\<lambda>x. win_id x \<noteq> win_id w) ws = ws"
      by (auto simp: filter_id_conv image_iff)
    moreover from True Cons.prems(2) have "map_of (map (\<lambda>w. (k w, v w)) ws) (k w) = None"
      by (auto simp: map_of_eq_None_iff image_iff)
    ultimately show ?thesis using True by (auto simp: fun_eq_iff)
  next
    case False
    with Cons.prems have w: "w \<in> set ws" by simp
    with Cons.prems have "win_id x \<noteq> win_id w" "k x \<noteq> k w" by auto
    with Cons.IH [OF _ _ w] Cons.prems show ?thesis by (auto simp: fun_eq_iff)
  qed
qed

lemma x_view_mem:
  assumes "distinct (map x11_window ws)" and "w \<in> set ws"
  shows "x_view ws (x11_window w) = Some (win_view w)"
  using assms by (auto simp: x_view_def intro!: map_of_is_SomeI simp: comp_def)

lemma find_window_map:
  assumes "distinct (map win_id ws)"
  shows "find_window i r g ws =
    (map (\<lambda>w. if win_id w = i then g w else w) ws,
     case lookup_window i ws of None \<Rightarrow> [] | Some w \<Rightarrow> [r w, XFlush])"
  using assms
proof (induction ws)
  case Nil
  then show ?case by simp
next
  case (Cons x ws)
  show ?case
  proof (cases "win_id x = i")
    case True
    with Cons.prems have "map (\<lambda>w. if win_id w = i then g w else w) ws = ws"
      by (intro map_idI) (auto simp: image_iff)
    with True show ?thesis by simp
  next
    case False
    with Cons show ?thesis by simp
  qed
qed

lemma destroy_window_filter:
  assumes "distinct (map win_id ws)" and "0 \<notin> set (map x11_window ws)"
  shows "destroy_window i ws =
    (filter (\<lambda>w. win_id w \<noteq> i) ws,
     case lookup_window i ws of None \<Rightarrow> [] | Some w \<Rightarrow> [XDestroyWindow (x11_window w), XFlush])"
  using assms
proof (induction ws)
  case Nil
  then show ?case by simp
next
  case (Cons x ws)
  show ?case
  proof (cases "win_id x = i")
    case True
    with Cons.prems have "filter (\<lambda>w. win_id w \<noteq> i) ws = ws"
      by (auto simp: filter_id_conv image_iff)
    with True Cons.prems show ?thesis by simp
  next
    case False
    with Cons show ?thesis by simp
  qed
qed

lemma find_window_step:
  assumes inv: "wins_inv ws n"
    and g: "\<And>w. win_id (g w) = win_id w" "\<And>w. x11_window (g w) = x11_window w"
    and r: "\<And>w m. m (x11_window w) = Some (win_view w) \<Longrightarrow>
       x_effect (r w) m = Some (m(x11_window w \<mapsto> win_view (g w)))"
    and v: "\<And>w. win_view (g w) = u (win_view w)"
  obtains ws' reqs where "find_window i r g ws = (ws', reqs)" and "wins_inv ws' n"
    and "x_effects reqs (x_view ws) = Some (x_view ws')"
    and "ids_view ws' = (ids_view ws)(i := map_option u (ids_view ws i))"
proof -
  from inv have d: "distinct (map win_id ws)" "distinct (map x11_window ws)"
    by (simp_all add: wins_inv_def)
  define ws' where "ws' = map (\<lambda>w. if win_id w = i then g w else w) ws"
  have same: "map win_id ws' = map win_id ws" "map x11_window ws' = map x11_window ws"
    by (auto simp: ws'_def g)
  have "win_id ` set ws' = win_id ` set ws" using same(1) by (metis set_map)
  then have inv': "wins_inv ws' n" using inv same
    unfolding wins_inv_def by (metis (no_types, lifting) image_iff)
  show thesis
  proof (cases "lookup_window i ws")
    case None
    then have ws': "ws' = ws" by (auto simp: ws'_def lookup_window_None intro!: map_idI)
    have "ids_view ws i = None" using lookup_window_view [of i ws] None by simp
    then have "(ids_view ws)(i := map_option u (ids_view ws i)) = ids_view ws" by auto
    with None ws' inv' that find_window_map [OF d(1)] show thesis by (simp add: ws'_def)
  next
    case (Some w)
    then have w: "w \<in> set ws" "win_id w = i" by (simp_all add: lookup_window_iff [OF d(1)])
    have "x_view ws' = (x_view ws)(x11_window w \<mapsto> win_view (g w))"
      using view_replace [where k = x11_window and g = g, OF d w(1) g(2), of win_view] w(2) by (simp add: x_view_def ws'_def)
    moreover have "ids_view ws' = (ids_view ws)(i \<mapsto> win_view (g w))"
      using view_replace [where k = win_id and g = g, OF d(1) d(1) w(1) g(1), of win_view] w(2) by (simp add: ids_view_def ws'_def)
    moreover have "ids_view ws i = Some (win_view w)" using lookup_window_view [of i ws] Some by simp
    moreover have "x_effect (r w) (x_view ws) = Some ((x_view ws)(x11_window w \<mapsto> win_view (g w)))"
      by (rule r) (rule x_view_mem [OF d(2) w(1)])
    ultimately show thesis using Some inv' that [of ws' "[r w, XFlush]"] find_window_map [OF d(1)] v
      by (simp add: ws'_def)
  qed
qed

lemma destroy_window_step:
  assumes inv: "wins_inv ws n"
  obtains ws' reqs where "destroy_window i ws = (ws', reqs)" and "wins_inv ws' n"
    and "x_effects reqs (x_view ws) = Some (x_view ws')"
    and "ids_view ws' = (ids_view ws)(i := None)" and "x11_window ` set ws' \<subseteq> x11_window ` set ws"
proof -
  from inv have d: "distinct (map win_id ws)" "distinct (map x11_window ws)" "0 \<notin> set (map x11_window ws)"
    by (simp_all add: wins_inv_def)
  define ws' where "ws' = filter (\<lambda>w. win_id w \<noteq> i) ws"
  have inv': "wins_inv ws' n" using inv by (auto simp: wins_inv_def ws'_def distinct_map_filter)
  have sub: "x11_window ` set ws' \<subseteq> x11_window ` set ws" by (auto simp: ws'_def)
  show thesis
  proof (cases "lookup_window i ws")
    case None
    then have ws': "ws' = ws" by (auto simp: ws'_def lookup_window_None filter_id_conv image_iff)
    have "ids_view ws i = None" using lookup_window_view [of i ws] None by simp
    then have "(ids_view ws)(i := None) = ids_view ws" by auto
    with None ws' inv' sub that destroy_window_filter [OF d(1,3)] show thesis by (simp add: ws'_def)
  next
    case (Some w)
    then have w: "w \<in> set ws" "win_id w = i" by (simp_all add: lookup_window_iff [OF d(1)])
    have "x_view ws' = (x_view ws)(x11_window w := None)"
      using view_remove [OF d(1,2) w(1), of win_view] w(2) by (simp add: x_view_def ws'_def)
    moreover have "ids_view ws' = (ids_view ws)(i := None)"
      using view_remove [OF d(1) d(1) w(1), of win_view] w(2) by (simp add: ids_view_def ws'_def)
    ultimately show thesis
      using Some inv' sub that [of ws' "[XDestroyWindow (x11_window w), XFlush]"] x_view_mem [OF d(2) w(1)]
        destroy_window_filter [OF d(1,3)]
      by (simp add: ws'_def)
  qed
qed

section \<open>Every operation keeps the invariant and the contract\<close>

lemma x_effects_append:
  "x_effects (rs @ rs') m = (case x_effects rs m of None \<Rightarrow> None | Some m \<Rightarrow> x_effects rs' m)"
  by (induction rs arbitrary: m) (auto split: option.splits)

lemma ws_update_step:
  assumes "ws_inv a c s" and "f c = (ws', reqs)" and "wins_inv ws' (next_window_id c)"
    and "x_effects reqs (x_view (windows c)) = Some (x_view ws')"
  shows "\<exists>s'. ws_update (Some a) f s = Inr s' \<and> ws_inv a (c\<lparr>windows := ws'\<rparr>) s'"
  using assms by (auto simp: ws_update_def ws_inv_def ws_deref_def x_send_def ws_put_def x_effects_append)

lemma ws_request_step:
  assumes "ws_inv a c s" and "x_effects (f c) (x_view (windows c)) = Some (x_view (windows c))"
  shows "\<exists>s'. ws_request (Some a) f s = Inr s' \<and> ws_inv a c s'"
  using assms by (auto simp: ws_request_def ws_inv_def ws_deref_def x_send_def x_effects_append)

lemma next_id_less:
  fixes n :: u32
  assumes "unat n + 1 < 2 ^ 32"
  shows "n < n + 1" and "unat (n + 1) = unat n + 1"
proof -
  show "unat (n + 1) = unat n + 1" using assms by (simp add: unat_word_ariths)
  then show "n < n + 1" by (simp add: word_less_nat_alt)
qed

lemma create_step:
  assumes inv: "ws_inv a c s" and n: "unat (next_window_id c) + 1 < 2 ^ 32"
    and xid: "xid \<noteq> 0" "xid \<notin> x11_window ` set (windows c)"
  shows "\<exists>c' s'. OSXWindowServerCreateWindow (Some a) fr t at xid True s = Inr (next_window_id c, s') \<and>
    ws_inv a c' s' \<and> display c' = display c \<and> next_window_id c' = next_window_id c + 1 \<and>
    ids_view (windows c') = (ids_view (windows c))(next_window_id c \<mapsto>
      \<lparr>xw_pos = origin fr, xw_size = rect_size fr, xw_mapped = False, xw_name = None\<rparr>) \<and>
    x11_window ` set (windows c') = insert xid (x11_window ` set (windows c))"
proof -
  define w where "w = \<lparr>win_id = next_window_id c, x11_window = xid, frame = fr, win_type = t,
    win_level = kOSXWindowLevelNormal, attributes = at, win_title = None, visible = False\<rparr>"
  define c' where "c' = c\<lparr>next_window_id := next_window_id c + 1, windows := w # windows c\<rparr>"
  define s' where "s' = ws_put a c' (s\<lparr>ws_xlog := (ws_xlog s)(display c := ws_xlog s (display c) @
    [XCreateWindow xid (origin fr) (rect_size fr), XSetWMProtocols xid (wm_delete_window c)])\<rparr>)"
  from inv have W: "wins_inv (windows c) (next_window_id c)" "ws_heap s a = Some c" "display c \<noteq> 0"
    "connected c" "x_effects (ws_xlog s (display c)) Map.empty = Some (x_view (windows c))"
    by (simp_all add: ws_inv_def)
  have "OSXWindowServerCreateWindow (Some a) fr t at xid True s = Inr (next_window_id c, s')"
    using W by (simp add: OSXWindowServerCreateWindow_def ws_deref_def x_send_def s'_def c'_def w_def)
  moreover have "ws_inv a c' s'"
  proof -
    have "x_view (windows c) xid = None" using xid(2) by (auto simp: x_view_def map_of_eq_None_iff)
    then have "x_effects (ws_xlog s' (display c')) Map.empty = Some (x_view (windows c'))"
      using W xid(1) by (simp add: s'_def c'_def ws_put_def x_effects_append)
        (simp add: x_view_def win_view_def w_def)
    moreover have "wins_inv (windows c') (next_window_id c')"
      using W(1) xid next_id_less [OF n]
      by (auto simp: wins_inv_def c'_def w_def dest: order.strict_trans)
    ultimately show ?thesis using W by (simp add: ws_inv_def s'_def c'_def ws_put_def)
  qed
  moreover have "ids_view (windows c') = (ids_view (windows c))(next_window_id c \<mapsto>
      \<lparr>xw_pos = origin fr, xw_size = rect_size fr, xw_mapped = False, xw_name = None\<rparr>)"
    by (simp add: ids_view_def c'_def w_def win_view_def)
  ultimately show ?thesis by (intro exI [of _ c'] exI [of _ s']) (simp add: c'_def w_def)
qed

text \<open>The result of one operation: the state \<open>s'\<close> with the connection \<open>c'\<close>.\<close>

definition ws_stepped where
  "ws_stepped a opn c s ids c' s' \<longleftrightarrow>
     ws_exec a opn s = Inr (ids, s') \<and> ws_inv a c' s' \<and> display c' = display c \<and>
     (ids_view (windows c'), next_window_id c') = spec_op opn (ids_view (windows c), next_window_id c) \<and>
     x11_window ` set (windows c') \<subseteq> set (op_xids [opn]) \<union> x11_window ` set (windows c) \<and>
     ids = (if op_xids [opn] = [] then [] else [next_window_id c])"

lemma find_op_step:
  assumes inv: "ws_inv a c s"
    and exec: "ws_exec a opn s = res_bind (ws_update (Some a) (\<lambda>c. find_window i r g (windows c)) s) (\<lambda>s. Inr ([], s))"
    and opn: "op_xids [opn] = []" "\<And>m n. spec_op opn (m, n) = (m(i := map_option u (m i)), n)"
    and g: "\<And>w. win_id (g w) = win_id w" "\<And>w. x11_window (g w) = x11_window w"
    and r: "\<And>w m. m (x11_window w) = Some (win_view w) \<Longrightarrow>
       x_effect (r w) m = Some (m(x11_window w \<mapsto> win_view (g w)))"
    and v: "\<And>w. win_view (g w) = u (win_view w)"
  shows "\<exists>ids c' s'. ws_stepped a opn c s ids c' s'"
proof -
  from inv have W: "wins_inv (windows c) (next_window_id c)" by (simp add: ws_inv_def)
  obtain ws' reqs where f: "find_window i r g (windows c) = (ws', reqs)" "wins_inv ws' (next_window_id c)"
    "x_effects reqs (x_view (windows c)) = Some (x_view ws')"
    "ids_view ws' = (ids_view (windows c))(i := map_option u (ids_view (windows c) i))"
    by (rule find_window_step [OF W g r v])
  have x11: "x11_window ` set ws' = x11_window ` set (windows c)"
  proof -
    from W have "distinct (map win_id (windows c))" by (simp add: wins_inv_def)
    from find_window_map [OF this, of i r g] f(1)
    have "ws' = map (\<lambda>w. if win_id w = i then g w else w) (windows c)" by simp
    then have "map x11_window ws' = map x11_window (windows c)" by (auto simp: g)
    then show ?thesis by (metis set_map)
  qed
  from ws_update_step [where f = "\<lambda>c. find_window i r g (windows c)", OF inv f(1,2,3)]
  obtain s' where "ws_update (Some a) (\<lambda>c. find_window i r g (windows c)) s = Inr s'"
    "ws_inv a (c\<lparr>windows := ws'\<rparr>) s'" by blast
  with f(4) x11 have "ws_stepped a opn c s [] (c\<lparr>windows := ws'\<rparr>) s'"
    by (simp add: ws_stepped_def exec opn)
  then show ?thesis by blast
qed

lemma request_op_step:
  assumes inv: "ws_inv a c s"
    and exec: "ws_exec a opn s = res_bind (ws_request (Some a) f s) (\<lambda>s. Inr ([], s))"
    and opn: "op_xids [opn] = []" "\<And>m n. spec_op opn (m, n) = (m, n)"
    and f: "\<And>m. x_effects (f c) m = Some m"
  shows "\<exists>ids c' s'. ws_stepped a opn c s ids c' s'"
proof -
  from ws_request_step [where f = f, OF inv f] obtain s' where "ws_request (Some a) f s = Inr s'" "ws_inv a c s'" by blast
  then have "ws_stepped a opn c s [] c s'" by (simp add: ws_stepped_def exec opn)
  then show ?thesis by blast
qed

lemmas ws_op_defs = OSXWindowServerShowWindow_def OSXWindowServerHideWindow_def OSXWindowServerMoveWindow_def
  OSXWindowServerResizeWindow_def OSXWindowServerSetWindowTitle_def OSXWindowServerDestroyWindow_def
  OSXWindowServerPostEvent_def OSXWindowServerHideCursor_def OSXWindowServerSetCursorPosition_def

lemma ws_exec_step:
  assumes inv: "ws_inv a c s"
    and n: "unat (next_window_id c) + length (op_xids [opn]) < 2 ^ 32"
    and xid: "0 \<notin> set (op_xids [opn])" "set (op_xids [opn]) \<inter> x11_window ` set (windows c) = {}"
  shows "\<exists>ids c' s'. ws_stepped a opn c s ids c' s'"
proof (cases opn)
  case (CreateWindow fr t at xd)
  with n xid have "unat (next_window_id c) + 1 < 2 ^ 32" "xd \<noteq> 0" "xd \<notin> x11_window ` set (windows c)"
    by auto
  from create_step [OF inv this, of fr t at] obtain c' s' where
    "OSXWindowServerCreateWindow (Some a) fr t at xd True s = Inr (next_window_id c, s')"
    "ws_inv a c' s'" "display c' = display c" "next_window_id c' = next_window_id c + 1"
    "ids_view (windows c') = (ids_view (windows c))(next_window_id c \<mapsto>
      \<lparr>xw_pos = origin fr, xw_size = rect_size fr, xw_mapped = False, xw_name = None\<rparr>)"
    "x11_window ` set (windows c') = insert xd (x11_window ` set (windows c))" by blast
  with CreateWindow have "ws_stepped a opn c s [next_window_id c] c' s'" by (simp add: ws_stepped_def)
  then show ?thesis by blast
next
  case (DestroyWindow i)
  from inv have W: "wins_inv (windows c) (next_window_id c)" by (simp add: ws_inv_def)
  obtain ws' reqs where f: "destroy_window i (windows c) = (ws', reqs)" "wins_inv ws' (next_window_id c)"
    "x_effects reqs (x_view (windows c)) = Some (x_view ws')"
    "ids_view ws' = (ids_view (windows c))(i := None)" "x11_window ` set ws' \<subseteq> x11_window ` set (windows c)"
    by (rule destroy_window_step [OF W])
  from ws_update_step [where f = "\<lambda>c. destroy_window i (windows c)", OF inv f(1,2,3)]
  obtain s' where "ws_update (Some a) (\<lambda>c. destroy_window i (windows c)) s = Inr s'"
    "ws_inv a (c\<lparr>windows := ws'\<rparr>) s'" by blast
  with f(4,5) DestroyWindow have "ws_stepped a opn c s [] (c\<lparr>windows := ws'\<rparr>) s'"
    by (simp add: ws_stepped_def ws_op_defs)
  then show ?thesis by blast
next
  case (ShowWindow i)
  then show ?thesis
    by (intro find_op_step [OF inv, where i = i and g = "\<lambda>w. w\<lparr>visible := True\<rparr>"
        and r = "\<lambda>w. XMapWindow (x11_window w)" and u = "xw_mapped_update (\<lambda>_. True)"])
      (simp_all add: ws_op_defs win_view_def)
next
  case (HideWindow i)
  then show ?thesis
    by (intro find_op_step [OF inv, where i = i and g = "\<lambda>w. w\<lparr>visible := False\<rparr>"
        and r = "\<lambda>w. XUnmapWindow (x11_window w)" and u = "xw_mapped_update (\<lambda>_. False)"])
      (simp_all add: ws_op_defs win_view_def)
next
  case (MoveWindow i p)
  then show ?thesis
    by (intro find_op_step [OF inv, where i = i and g = "\<lambda>w. w\<lparr>frame := (frame w)\<lparr>origin := p\<rparr>\<rparr>"
        and r = "\<lambda>w. XMoveWindow (x11_window w) p" and u = "xw_pos_update (\<lambda>_. p)"])
      (simp_all add: ws_op_defs win_view_def)
next
  case (ResizeWindow i z)
  then show ?thesis
    by (intro find_op_step [OF inv, where i = i and g = "\<lambda>w. w\<lparr>frame := (frame w)\<lparr>rect_size := z\<rparr>\<rparr>"
        and r = "\<lambda>w. XResizeWindow (x11_window w) z" and u = "xw_size_update (\<lambda>_. z)"])
      (simp_all add: ws_op_defs win_view_def)
next
  case (SetWindowTitle i t)
  show ?thesis
  proof (cases t)
    case None
    with inv SetWindowTitle have "ws_stepped a opn c s [] c s" by (simp add: ws_stepped_def ws_op_defs)
    then show ?thesis by blast
  next
    case (Some t')
    with SetWindowTitle show ?thesis
      by (intro find_op_step [OF inv, where i = i and g = "\<lambda>w. w\<lparr>win_title := Some t'\<rparr>"
          and r = "\<lambda>w. XStoreName (x11_window w) t'" and u = "xw_name_update (\<lambda>_. Some t')"])
        (simp_all add: ws_op_defs win_view_def)
  qed
next
  case (PostEvent e)
  show ?thesis unfolding PostEvent
    by (rule request_op_step [OF inv]) (auto simp: ws_op_defs split: OSXEventType.split)
next
  case (HideCursor b cur)
  show ?thesis unfolding HideCursor by (rule request_op_step [OF inv]) (auto simp: ws_op_defs)
next
  case (SetCursorPosition p)
  show ?thesis unfolding SetCursorPosition by (rule request_op_step [OF inv]) (auto simp: ws_op_defs)
qed

fun spec_run :: "'f ws_op list \<Rightarrow> (u32 \<rightharpoonup> 'f x_window) \<times> u32 \<Rightarrow> (u32 \<rightharpoonup> 'f x_window) \<times> u32" where
  "spec_run [] st = st"
| "spec_run (opn # ops) st = spec_run ops (spec_op opn st)"

lemma op_xids_Cons: "op_xids (opn # ops) = op_xids [opn] @ op_xids ops"
  by (cases opn) simp_all

lemma spec_op_next: "snd (spec_op opn (m, n)) = n + of_nat (length (op_xids [opn]))"
  by (cases opn) (auto split: option.splits)

lemma op_xids_length: "length (op_xids [opn]) \<le> 1"
  by (cases opn) simp_all

lemma ws_run_contract:
  assumes "ws_inv a c s" and "unat (next_window_id c) + length (op_xids ops) < 2 ^ 32"
    and "0 \<notin> set (op_xids ops)" and "distinct (op_xids ops)"
    and "set (op_xids ops) \<inter> x11_window ` set (windows c) = {}"
  shows "\<exists>c' s'. ws_run a ops s =
      Inr (map (\<lambda>k. next_window_id c + of_nat k) [0..<length (op_xids ops)], s') \<and>
    ws_inv a c' s' \<and> display c' = display c \<and>
    (ids_view (windows c'), next_window_id c') = spec_run ops (ids_view (windows c), next_window_id c)"
  using assms
proof (induction ops arbitrary: c s)
  case Nil
  then show ?case by auto
next
  case (Cons opn ops)
  let ?n = "next_window_id c" and ?k = "length (op_xids [opn])"
  note xids = op_xids_Cons [of opn ops]
  have "unat ?n + length (op_xids [opn]) < 2 ^ 32" "0 \<notin> set (op_xids [opn])"
    "set (op_xids [opn]) \<inter> x11_window ` set (windows c) = {}"
    using Cons.prems(2,3,5) unfolding xids by auto
  from ws_exec_step [OF Cons.prems(1) this] obtain ids c1 s1 where "ws_stepped a opn c s ids c1 s1" by blast
  then have S: "ws_exec a opn s = Inr (ids, s1)" "ws_inv a c1 s1" "display c1 = display c"
    "(ids_view (windows c1), next_window_id c1) = spec_op opn (ids_view (windows c), ?n)"
    "x11_window ` set (windows c1) \<subseteq> set (op_xids [opn]) \<union> x11_window ` set (windows c)"
    "ids = (if op_xids [opn] = [] then [] else [?n])"
    by (simp_all add: ws_stepped_def)
  have n1: "next_window_id c1 = ?n + of_nat ?k"
    using S(4) spec_op_next [of opn "ids_view (windows c)" ?n] by (metis snd_conv)
  have "unat (next_window_id c1) = unat ?n + ?k"
  proof (cases "op_xids [opn]")
    case Nil
    with n1 show ?thesis by simp
  next
    case (Cons x xs)
    with op_xids_length [of opn] have "?k = 1" by simp
    with n1 next_id_less(2) [of ?n] \<open>unat ?n + length (op_xids [opn]) < 2 ^ 32\<close> show ?thesis by simp
  qed
  then have n: "unat (next_window_id c1) + length (op_xids ops) < 2 ^ 32"
    using Cons.prems(2) unfolding xids by simp
  have d: "0 \<notin> set (op_xids ops)" "distinct (op_xids ops)" "set (op_xids [opn]) \<inter> set (op_xids ops) = {}"
    "set (op_xids ops) \<inter> x11_window ` set (windows c) = {}"
    using Cons.prems(3,4,5) unfolding xids by auto
  with S(5) have "set (op_xids ops) \<inter> x11_window ` set (windows c1) = {}" by blast
  from Cons.IH [OF S(2) n d(1,2) this] obtain c' s' where
    R: "ws_run a ops s1 = Inr (map (\<lambda>k. next_window_id c1 + of_nat k) [0..<length (op_xids ops)], s')"
    "ws_inv a c' s'" "display c' = display c1"
    "(ids_view (windows c'), next_window_id c') = spec_run ops (ids_view (windows c1), next_window_id c1)"
    by blast
  have "ids @ map (\<lambda>k. next_window_id c1 + of_nat k) [0..<length (op_xids ops)] =
      map (\<lambda>k. ?n + of_nat k) [0..<length (op_xids (opn # ops))]"
  proof (cases "op_xids [opn]")
    case Nil
    with S(6) n1 show ?thesis unfolding xids by simp
  next
    case (Cons x xs)
    with op_xids_length [of opn] have "?k = 1" "xs = []" by simp_all
    with Cons S(6) n1 show ?thesis unfolding xids
      by (simp add: map_upt_Suc add.assoc del: upt_Suc)
  qed
  with S R show ?case by (intro exI [of _ c'] exI [of _ s']) simp
qed

lemma ids_distinct:
  fixes n :: u32
  assumes "unat n + k < 2 ^ 32"
  shows "distinct (map (\<lambda>j. n + of_nat j) [0..<k])"
proof -
  have "i = j" if "i < k" "j < k" "n + of_nat i = n + (of_nat j :: u32)" for i j
  proof -
    from that(3) have "unat (of_nat i :: u32) = unat (of_nat j :: u32)" by simp
    with that(1,2) assms show ?thesis by (simp add: unat_of_nat)
  qed
  then show ?thesis by (auto simp: distinct_map inj_on_def)
qed

lemma connect_inv:
  assumes "g_connection s = None" and "xopen (case env of None \<Rightarrow> '':0'' | Some d \<Rightarrow> d) = Some x"
    and "xd_display x \<noteq> 0" and "ws_xlog s (xd_display x) = []"
  shows "\<exists>c s'. OSXWindowServerConnect (Some a) env xopen s = Inr (Some a, s') \<and> ws_inv a c s' \<and>
    windows c = [] \<and> next_window_id c = 1000 \<and> display c = xd_display x \<and> g_connection s' = Some a"
  using assms
  by (auto simp: OSXWindowServerConnect_def Let_def ws_inv_def ws_put_def wins_inv_def x_view_def)

lemma close_windows_effect:
  assumes "distinct (map x11_window ws)" and "0 \<notin> set (map x11_window ws)"
  shows "x_effects (close_windows ws) (x_view ws) = Some Map.empty"
  using assms
proof (induction ws)
  case Nil
  then show ?case by (simp add: x_view_def)
next
  case (Cons w ws)
  have "x_view ws (x11_window w) = None" using Cons.prems(1) by (auto simp: x_view_def map_of_eq_None_iff)
  then have "(x_view (w # ws))(x11_window w := None) = x_view ws" by (auto simp: x_view_def fun_eq_iff)
  moreover have "x_view (w # ws) (x11_window w) = Some (win_view w)" by (simp add: x_view_def)
  ultimately show ?case using Cons by simp
qed

lemma rect_eta: "\<lparr>origin = origin r, rect_size = rect_size r\<rparr> = r"
  by simp

lemma disconnect_result:
  assumes inv: "ws_inv a c s"
  shows "\<exists>s'. OSXWindowServerDisconnect (Some a) s = Inr s' \<and> ws_heap s' = (ws_heap s)(a := None) \<and>
    g_connection s' = (if g_connection s = Some a then None else g_connection s) \<and>
    ws_xlog s' (display c) = ws_xlog s (display c) @ close_windows (windows c) @ [XCloseDisplay]"
proof -
  from inv have "ws_heap s a = Some c" "display c \<noteq> 0" by (simp_all add: ws_inv_def)
  then show ?thesis
    by (cases "close_windows (windows c) = []")
      (auto simp: OSXWindowServerDisconnect_def ws_deref_def x_send_def Let_def)
qed

section \<open>Properties\<close>

text \<open>A display, a window and operations on it.\<close>

definition ws_example_display :: x_display where
  "ws_example_display = \<lparr>xd_display = 5, xd_screen = 0, xd_root = 1, xd_atom = (\<lambda>_. 7)\<rparr>"

definition ws_example_start :: "int ws" where
  "ws_example_start = \<lparr>ws_heap = Map.empty, g_connection = None, ws_xlog = (\<lambda>_. [])\<rparr>"

definition ws_example_ops :: "int ws_op list" where
  "ws_example_ops = [CreateWindow \<lparr>origin = (10, 20), rect_size = (30, 40)\<rparr> kOSXWindowTypeNormal 0 77,
     ShowWindow 1000, MoveWindow 1000 (1, 2), DestroyWindow 1001]"

definition ws_example_conn :: "int OSXWindowServerConnection" where
  "ws_example_conn = \<lparr>display = 5, screen = 0, root_window = 1, windows = [], next_window_id = 1000,
     wm_delete_window = 7, wm_protocols = 7, connected = True\<rparr>"

definition ws_example :: "int ws" where
  "ws_example = (ws_put 3 ws_example_conn ws_example_start)\<lparr>g_connection := Some 3\<rparr>"

lemma ws_example_inv: "ws_inv 3 ws_example_conn ws_example"
  by (simp add: ws_inv_def ws_example_def ws_example_conn_def ws_example_start_def ws_put_def wins_inv_def x_view_def)



text \<open>C32. From the opening of a connection on, no request is sent for a window that does not exist
  (one never made, or already destroyed), every operation succeeds, and the numbers of the
  windows made are pairwise different and at least 1000.\<close>

theorem OSXWindowServer_requests_safe:
  assumes "g_connection s = None" and "xopen (case env of None \<Rightarrow> '':0'' | Some d \<Rightarrow> d) = Some x"
    and "xd_display x \<noteq> 0" and "ws_xlog s (xd_display x) = []"
    and "length (op_xids ops) < 2 ^ 32 - 1000" and "0 \<notin> set (op_xids ops)" and "distinct (op_xids ops)"
  shows "\<exists>s1 ids s2. OSXWindowServerConnect (Some a) env xopen s = Inr (Some a, s1) \<and>
    ws_run a ops s1 = Inr (ids, s2) \<and> distinct ids \<and> (\<forall>i \<in> set ids. 1000 \<le> i) \<and>
    (\<forall>rs rs'. ws_xlog s2 (xd_display x) = rs @ rs' \<longrightarrow> x_effects rs Map.empty \<noteq> None)"
proof -
  from connect_inv [where xopen = xopen and env = env, OF assms(1-4)] obtain c s1 where
    C: "OSXWindowServerConnect (Some a) env xopen s = Inr (Some a, s1)" "ws_inv a c s1" "windows c = []"
    "next_window_id c = 1000" "display c = xd_display x" by blast
  have n: "unat (1000 :: u32) + length (op_xids ops) < 2 ^ 32" using assms(5) by simp
  from ws_run_contract [OF C(2), of ops] assms(6,7) C(3,4) n obtain c' s2 where
    R: "ws_run a ops s1 = Inr (map (\<lambda>k. 1000 + of_nat k) [0..<length (op_xids ops)], s2)"
    "ws_inv a c' s2" "display c' = display c" by auto
  have "1000 \<le> 1000 + (of_nat k :: u32)" if "k < length (op_xids ops)" for k
    using that n by (simp add: word_le_nat_alt unat_word_ariths unat_of_nat)
  moreover have "x_effects (ws_xlog s2 (xd_display x)) Map.empty \<noteq> None"
    using R(2,3) C(5) by (simp add: ws_inv_def)
  ultimately show ?thesis using C(1) R(1) ids_distinct [OF n]
    by (auto simp: x_effects_append split: option.splits)
qed

theorem OSXWindowServer_requests_safe_witness:
  "\<exists>s1 s2. OSXWindowServerConnect (Some 3) None (\<lambda>_. Some ws_example_display) ws_example_start = Inr (Some 3, s1) \<and>
     (\<exists>ids. ws_run 3 ws_example_ops s1 = Inr (ids, s2) \<and> distinct ids)"
proof -
  have "op_xids ws_example_ops = [77]" by (simp add: ws_example_ops_def)
  with OSXWindowServer_requests_safe [of ws_example_start "\<lambda>_. Some ws_example_display" None ws_example_display
      ws_example_ops 3]
  show ?thesis by (auto simp: ws_example_start_def ws_example_display_def)
qed

text \<open>Closing a connection destroys every window that exists on its display before the display is
  closed, frees the connection, and clears the global pointer to it, so that a later
  OSXWindowServerConnect opens a new connection; using the old one is a use after free.\<close>

theorem OSXWindowServerDisconnect_clean:
  assumes "ws_inv a c s" and "g_connection s = Some a"
  shows "\<exists>s' rs. OSXWindowServerDisconnect (Some a) s = Inr s' \<and>
    ws_xlog s' (display c) = rs @ [XCloseDisplay] \<and> x_effects rs Map.empty = Some Map.empty \<and>
    ws_heap s' a = None \<and> g_connection s' = None \<and>
    OSXWindowServerIsConnected (Some a) s' = Inl Use_After_Free \<and>
    (\<forall>b env xopen x. xopen (case env of None \<Rightarrow> '':0'' | Some d \<Rightarrow> d) = Some x \<longrightarrow>
      (\<exists>s''. OSXWindowServerConnect (Some b) env xopen s' = Inr (Some b, s'') \<and>
        OSXWindowServerIsConnected (Some b) s'' = Inr True))"
proof -
  from disconnect_result [OF assms(1)] assms(2) obtain s' where
    D: "OSXWindowServerDisconnect (Some a) s = Inr s'" "ws_heap s' = (ws_heap s)(a := None)"
    "g_connection s' = None"
    "ws_xlog s' (display c) = (ws_xlog s (display c) @ close_windows (windows c)) @ [XCloseDisplay]"
    by auto
  have "x_effects (ws_xlog s (display c) @ close_windows (windows c)) Map.empty = Some Map.empty"
    using assms(1) close_windows_effect [of "windows c"]
    by (simp add: ws_inv_def wins_inv_def x_effects_append)
  moreover have "\<exists>s''. OSXWindowServerConnect (Some b) env xopen s' = Inr (Some b, s'') \<and>
      OSXWindowServerIsConnected (Some b) s'' = Inr True"
    if "xopen (case env of None \<Rightarrow> '':0'' | Some d \<Rightarrow> d) = Some x" for b env xopen x
    using that D(3)
    by (auto simp: OSXWindowServerConnect_def OSXWindowServerIsConnected_def ws_deref_def ws_put_def Let_def)
  ultimately show ?thesis using D
    by (intro exI [of _ s'] exI [of _ "ws_xlog s (display c) @ close_windows (windows c)"])
      (simp add: OSXWindowServerIsConnected_def ws_deref_def)
qed

theorem OSXWindowServerDisconnect_clean_witness:
  "\<exists>s'. OSXWindowServerDisconnect (Some 3) ws_example = Inr s' \<and> g_connection s' = None \<and> ws_heap s' 3 = None"
  using OSXWindowServerDisconnect_clean [OF ws_example_inv] by (auto simp: ws_example_def)

end
