(* ===== verification/Shellspawn.thy ===== *)
theory Shellspawn
  imports Osxie_Prelude
begin

text \<open>
  How a program is started in the container: the launcher's side (startup/osxie.c) turns a
  command line into a stream of commands, and the daemon (shellspawn/shellspawn.c) reads
  them, starts the program, passes signals on and reports how it ended. The launcher's
  writes are taken to succeed; answers of the system (user names, terminals, process states)
  are arguments. The daemon is shown to start what the launcher was asked for.
\<close>

section \<open>The stream\<close>

text \<open>Bytes; the descriptors sent along with a message go with its first byte.\<close>

type_synonym wire = "(char \<times> int list option) list"

definition SHELLSPAWN_ADDARG :: nat where "SHELLSPAWN_ADDARG = 1"

definition SHELLSPAWN_SETENV :: nat where "SHELLSPAWN_SETENV = 2"

definition SHELLSPAWN_CHDIR :: nat where "SHELLSPAWN_CHDIR = 3"

definition SHELLSPAWN_GO :: nat where "SHELLSPAWN_GO = 4"

definition SHELLSPAWN_SIGNAL :: nat where "SHELLSPAWN_SIGNAL = 5"

definition SHELLSPAWN_SETUIDGID :: nat where "SHELLSPAWN_SETUIDGID = 6"

definition SHELLSPAWN_SETEXEC :: nat where "SHELLSPAWN_SETEXEC = 7"

lemmas shellspawn_types = SHELLSPAWN_ADDARG_def SHELLSPAWN_SETENV_def SHELLSPAWN_CHDIR_def SHELLSPAWN_GO_def
  SHELLSPAWN_SIGNAL_def SHELLSPAWN_SETUIDGID_def SHELLSPAWN_SETEXEC_def

section \<open>The launcher\<close>

text \<open>The length field has 16 bits; all of the data is sent.\<close>

definition pushShellspawnCommandData :: "nat \<Rightarrow> char list \<Rightarrow> wire" where
  "pushShellspawnCommandData type data =
     map (\<lambda>c. (c, None)) (le_bytes 2 type @ le_bytes 2 (length data mod 2 ^ 16) @ data)"

definition pushShellspawnCommand :: "nat \<Rightarrow> string option \<Rightarrow> wire" where
  "pushShellspawnCommand type value =
     (case value of
        None \<Rightarrow> pushShellspawnCommandData type []
      | Some v \<Rightarrow> pushShellspawnCommandData type (v @ [CHR 0x00]))"

definition pushShellspawnCommandFDs :: "nat \<Rightarrow> int list \<Rightarrow> wire" where
  "pushShellspawnCommandFDs type fds =
     (case le_bytes 2 type @ le_bytes 2 0 of
        [] \<Rightarrow> []
      | c # cs \<Rightarrow> (c, Some fds) # map (\<lambda>c. (c, None)) cs)"

text \<open>Each quote becomes \<open>'\''\<close>; the length that the code returns is the length of the result.\<close>

fun escapeQuotes :: "string \<Rightarrow> string" where
  "escapeQuotes [] = []"
| "escapeQuotes (c # src) =
     (if c = CHR 0x27 then [CHR 0x27, CHR 0x5C, CHR 0x27, CHR 0x27] @ escapeQuotes src
      else c # escapeQuotes src)"

text \<open>
  The launcher while it connects: its effective user, its open sockets (numbered by the
  attempts), and for every call of \<open>connect\<close> the attempt and the effective user.
\<close>

record launcher =
  euid :: int
  socks :: "nat list"
  tried :: "(nat \<times> int) list"

datatype connect_errno = ECONNREFUSED | ENOENT | EAGAIN | EOTHER

datatype 'a exit_or = Exit nat | Go 'a

definition sun_path :: "string \<Rightarrow> string \<Rightarrow> string" where
  "sun_path pidInit prefix =
     take 107 (''/proc/'' @ pidInit @ ''/root'' @ prefix @ ''/var/run/shellspawn.sock'')"

text \<open>
  \<open>sock\<close> and \<open>alive\<close> say for each attempt whether a socket can be made and whether the init
  process lives, \<open>conn\<close> has the error of \<open>connect\<close> (\<open>None\<close>: it succeeds). The loop is at
  attempt \<open>i\<close> with \<open>n\<close> attempts left; on \<open>break\<close> or after the last attempt the effective
  user is set back.
\<close>

fun connect_loop ::
    "(nat \<Rightarrow> bool) \<Rightarrow> (nat \<Rightarrow> bool) \<Rightarrow> (nat \<Rightarrow> connect_errno option) \<Rightarrow> int \<Rightarrow> nat \<Rightarrow> nat \<Rightarrow> launcher \<Rightarrow>
      nat exit_or \<times> launcher" where
  "connect_loop sock alive conn uid i 0 s = (Exit 1, s\<lparr>euid := uid\<rparr>)"
| "connect_loop sock alive conn uid i (Suc n) s =
     (let s = (if i > 0 then s\<lparr>socks := remove1 (i - 1) (socks s)\<rparr> else s) in
      if i > 0 \<and> \<not> sock i then (Exit 1, s\<lparr>euid := uid\<rparr>)
      else
        let s = (if i > 0 then s\<lparr>socks := i # socks s\<rparr> else s) in
        if \<not> alive i then (Exit 1, s\<lparr>euid := uid\<rparr>)
        else
          let s = s\<lparr>tried := tried s @ [(i, euid s)]\<rparr> in
          (case conn i of
             None \<Rightarrow> (Go i, s\<lparr>euid := uid\<rparr>)
           | Some e \<Rightarrow>
               if e \<noteq> ECONNREFUSED \<and> e \<noteq> ENOENT \<and> e \<noteq> EAGAIN then (Exit 1, s\<lparr>euid := uid\<rparr>)
               else connect_loop sock alive conn uid (Suc i) n s))"

definition connectToShellspawn ::
    "(nat \<Rightarrow> bool) \<Rightarrow> (nat \<Rightarrow> bool) \<Rightarrow> (nat \<Rightarrow> connect_errno option) \<Rightarrow> int \<Rightarrow> launcher \<Rightarrow> nat exit_or \<times> launcher" where
  "connectToShellspawn sock alive conn g_originalUid s =
     (if \<not> sock 0 then (Exit 1, s)
      else connect_loop sock alive conn g_originalUid 0 5 (s\<lparr>socks := 0 # socks s, euid := 0\<rparr>))"

text \<open>What the launcher knows of its user and its surroundings.\<close>

record user_env =
  pw_name :: "string option"
  login_name :: "string option"
  environ :: "string list"
  working_directory :: string
  original_uid :: int
  original_gid :: int

definition skip_vars :: "string list" where
  "skip_vars = [''PATH'', ''TMPDIR'', ''HOME'']"

definition skip_var :: "string \<Rightarrow> bool" where
  "skip_var var =
     (let name_len = length (takeWhile (\<lambda>c. c \<noteq> CHR ''='') var)
      in list_ex (\<lambda>v. length v = name_len \<and> take name_len var = v) skip_vars)"

definition login_of :: "user_env \<Rightarrow> string option" where
  "login_of u = (case pw_name u of Some n \<Rightarrow> Some n | None \<Rightarrow> login_name u)"

text \<open>The strings that are sent as variables, for a user with a name.\<close>

definition env_strings :: "string \<Rightarrow> string list \<Rightarrow> string list" where
  "env_strings login vars =
     [''PATH=/usr/bin:/bin:/usr/sbin:/sbin:/usr/local/bin'', ''TMPDIR=/private/tmp'', ''LP_NUM_THREADS=1'',
      ''GALLIUM_NTHREADS=1'', take 4095 (''HOME=/Users/'' @ login)] @
     filter (\<lambda>var. \<not> skip_var var) vars"

definition setupShellspawnEnv :: "user_env \<Rightarrow> wire exit_or" where
  "setupShellspawnEnv u =
     (case login_of u of
        None \<Rightarrow> Exit 1
      | Some login \<Rightarrow>
          Go (concat (map (\<lambda>v. pushShellspawnCommand SHELLSPAWN_SETENV (Some v)) (env_strings login (environ u)))))"

definition setupWorkingDir :: "string \<Rightarrow> user_env \<Rightarrow> wire" where
  "setupWorkingDir system_root u =
     pushShellspawnCommand SHELLSPAWN_CHDIR (Some (take 4095 (system_root @ working_directory u)))"

definition setupIDs :: "user_env \<Rightarrow> wire" where
  "setupIDs u = pushShellspawnCommandData SHELLSPAWN_SETUIDGID
     (int32_bytes (original_uid u) @ int32_bytes (original_gid u))"

text \<open>
  \<open>tty\<close>: which standard descriptors are terminals; \<open>pty\<close>: the master and the slave of the
  new pseudo terminal; \<open>dupin\<close>: the copy of the standard input.
\<close>

definition setupFDs :: "(nat \<Rightarrow> bool) \<Rightarrow> int \<times> int \<Rightarrow> int \<Rightarrow> int list \<times> int" where
  "setupFDs tty pty dupin =
     (let master = (if tty 0 then fst pty else -1);
          fd0 = (if tty 0 then snd pty else dupin)
      in ([fd0, if master = -1 \<or> \<not> tty 1 then 1 else fd0, if master = -1 \<or> \<not> tty 2 then 2 else fd0], master))"

text \<open>The command line for the shell, and the size of the buffer it is written to.\<close>

fun shell_words :: "string list \<Rightarrow> string \<Rightarrow> string" where
  "shell_words [] buffer = buffer"
| "shell_words (arg # args) buffer =
     shell_words args ((if buffer \<noteq> [] then buffer @ '' '' else buffer) @
       [CHR 0x27] @ escapeQuotes arg @ [CHR 0x27])"

definition shell_buffer_size :: "string list \<Rightarrow> nat" where
  "shell_buffer_size argv = sum_list (map (\<lambda>arg. length (escapeQuotes arg)) argv) + length argv * 3"

definition spawnShell_cmds :: "string \<Rightarrow> string list option \<Rightarrow> user_env \<Rightarrow> int list \<Rightarrow> wire exit_or" where
  "spawnShell_cmds system_root argv u fds =
     (case setupShellspawnEnv u of
        Exit n \<Rightarrow> Exit n
      | Go env \<Rightarrow>
          Go (env @
              (case argv of
                 None \<Rightarrow> []
               | Some args \<Rightarrow> pushShellspawnCommand SHELLSPAWN_ADDARG (Some ''-c'') @
                              pushShellspawnCommand SHELLSPAWN_ADDARG (Some (shell_words args []))) @
              setupWorkingDir system_root u @ setupIDs u @ pushShellspawnCommandFDs SHELLSPAWN_GO fds))"

definition spawnBinary_cmds :: "string \<Rightarrow> string \<Rightarrow> string list \<Rightarrow> user_env \<Rightarrow> int list \<Rightarrow> wire exit_or" where
  "spawnBinary_cmds system_root binary argv u fds =
     (case setupShellspawnEnv u of
        Exit n \<Rightarrow> Exit n
      | Go env \<Rightarrow>
          Go (env @ pushShellspawnCommand SHELLSPAWN_SETEXEC (Some binary) @
              concat (map (\<lambda>arg. pushShellspawnCommand SHELLSPAWN_ADDARG (Some arg)) argv) @
              setupWorkingDir system_root u @ setupIDs u @ pushShellspawnCommandFDs SHELLSPAWN_GO fds))"

text \<open>
  The end of \<open>main\<close>: which of the two is called, for the arguments after the program's name.
  \<open>realpath\<close> and the directories that are searched are arguments.
\<close>

fun search_dirs :: "(string \<Rightarrow> string option) \<Rightarrow> string list \<Rightarrow> string \<Rightarrow> string option" where
  "search_dirs realpath [] name = None"
| "search_dirs realpath (dir # dirs) name =
     (case realpath (take 4095 (dir @ ''/'' @ name)) of
        Some path \<Rightarrow> Some path
      | None \<Rightarrow> search_dirs realpath dirs name)"

definition resolve_program :: "(string \<Rightarrow> string option) \<Rightarrow> string list \<Rightarrow> string \<Rightarrow> string \<Rightarrow> string option" where
  "resolve_program realpath dirs system_root name =
     (let path = realpath name;
          path = (if path = None \<and> CHR ''/'' \<notin> set name then search_dirs realpath dirs name else path)
      in map_option (\<lambda>path. system_root @ path) path)"

definition osxie_main_spawn ::
    "(string \<Rightarrow> string option) \<Rightarrow> string list \<Rightarrow> string \<Rightarrow> string list \<Rightarrow> user_env \<Rightarrow> int list \<Rightarrow> wire exit_or" where
  "osxie_main_spawn realpath dirs system_root args u fds =
     (case args of
        [] \<Rightarrow> Exit 1
      | cmd # rest \<Rightarrow>
          if cmd = ''shell'' then spawnShell_cmds system_root (if rest \<noteq> [] then Some rest else None) u fds
          else if cmd = ''exec'' then
            (case rest of
               [] \<Rightarrow> Exit 1
             | name # rest \<Rightarrow>
                 (case resolve_program realpath dirs system_root name of
                    None \<Rightarrow> Exit 1
                  | Some fullPath \<Rightarrow> spawnBinary_cmds system_root fullPath (fullPath # rest) u fds))
          else
            (case resolve_program realpath dirs system_root cmd of
               None \<Rightarrow> Exit 1
             | Some fullPath \<Rightarrow> spawnShell_cmds system_root (Some (fullPath # rest)) u fds))"

section \<open>The daemon\<close>

datatype sp_error = Bad_Recvmsg | Short_Read | No_Rights | Bad_Rights_Length | Bad_Signal | Bad_Command | Kevent_Failed

record sp_state =
  sp_argv :: "string list"
  sp_env :: "string list"
  sp_chdir :: "string list"
  sp_ids :: "(int \<times> int) list"
  sp_exec :: "string option"
  sp_fds :: "int list"

definition sp_init :: sp_state where
  "sp_init = \<lparr>sp_argv = [''/bin/bash'', ''--login''], sp_env = [], sp_chdir = [], sp_ids = [], sp_exec = None,
     sp_fds = [-1, -1, -1]\<rparr>"

text \<open>Reading \<open>n\<close> bytes with the descriptors that come along; \<open>None\<close>: the stream ends before.\<close>

fun wire_rights :: "wire \<Rightarrow> int list option" where
  "wire_rights [] = None"
| "wire_rights ((c, r) # w) = (case r of Some fds \<Rightarrow> Some fds | None \<Rightarrow> wire_rights w)"

definition wire_recv :: "nat \<Rightarrow> wire \<Rightarrow> (char list \<times> int list option \<times> wire) option" where
  "wire_recv n w = (if length w < n then None else Some (map fst (take n w), wire_rights (take n w), drop n w))"

text \<open>The commands that only change the state; \<open>param\<close> has the data, if there are any.\<close>

definition sp_command :: "nat \<Rightarrow> char list option \<Rightarrow> sp_state \<Rightarrow> sp_state" where
  "sp_command cmd param st =
     (if cmd = SHELLSPAWN_ADDARG then
        (case param of None \<Rightarrow> st | Some p \<Rightarrow> st\<lparr>sp_argv := sp_argv st @ [cstr p]\<rparr>)
      else if cmd = SHELLSPAWN_SETENV then
        (case param of None \<Rightarrow> st | Some p \<Rightarrow> st\<lparr>sp_env := sp_env st @ [cstr p]\<rparr>)
      else if cmd = SHELLSPAWN_CHDIR then
        (case param of None \<Rightarrow> st | Some p \<Rightarrow> st\<lparr>sp_chdir := sp_chdir st @ [cstr p]\<rparr>)
      else if cmd = SHELLSPAWN_SETUIDGID then
        (case param of
           None \<Rightarrow> st
         | Some p \<Rightarrow> if length p < 8 then st
                     else st\<lparr>sp_ids := sp_ids st @ [(int32_val (take 4 p), int32_val (take 4 (drop 4 p)))]\<rparr>)
      else if cmd = SHELLSPAWN_SETEXEC then st\<lparr>sp_argv := [], sp_exec := map_option cstr param\<rparr>
      else st)"

function read_cmds :: "wire \<Rightarrow> sp_state \<Rightarrow> sp_error + sp_state \<times> wire" where
  "read_cmds w st =
     (case wire_recv 4 w of
        None \<Rightarrow> Inl Bad_Recvmsg
      | Some (hdr, rights, w1) \<Rightarrow>
          let cmd = le_val (take 2 hdr); data_length = le_val (drop 2 hdr) in
          (case wire_recv data_length w1 of
             None \<Rightarrow> Inl Short_Read
           | Some (data, _, w2) \<Rightarrow>
               if cmd = SHELLSPAWN_GO then
                 (case rights of
                    None \<Rightarrow> Inl No_Rights
                  | Some fds \<Rightarrow> if length fds \<noteq> 3 then Inl Bad_Rights_Length
                                else Inr (st\<lparr>sp_fds := fds\<rparr>, w2))
               else read_cmds w2 (sp_command cmd (if data_length = 0 then None else Some data) st)))"
  by pat_completeness auto
termination
  by (relation "measure (\<lambda>(w, st). length w)") (auto simp: wire_recv_def split: if_splits)

declare read_cmds.simps [simp del]

text \<open>What is executed: the program and its arguments.\<close>

definition sp_execv :: "sp_state \<Rightarrow> string \<times> string list" where
  "sp_execv st = (case sp_exec st of Some p \<Rightarrow> p | None \<Rightarrow> ''/bin/bash'', sp_argv st)"

text \<open>The signals of Darwin, by name.\<close>

datatype bsd_signal =
    SIGHUP | SIGINT | SIGQUIT | SIGILL | SIGTRAP | SIGABRT | SIGFPE | SIGKILL | SIGBUS | SIGSEGV | SIGSYS
  | SIGPIPE | SIGALRM | SIGTERM | SIGURG | SIGSTOP | SIGTSTP | SIGCONT | SIGCHLD | SIGTTIN | SIGTTOU | SIGIO
  | SIGXCPU | SIGXFSZ | SIGVTALRM | SIGPROF | SIGWINCH | SIGUSR1 | SIGUSR2

definition linux_signals :: "(int \<times> bsd_signal) list" where
  "linux_signals = [(1, SIGHUP), (2, SIGINT), (3, SIGQUIT), (4, SIGILL), (5, SIGTRAP), (6, SIGABRT), (8, SIGFPE),
     (9, SIGKILL), (7, SIGBUS), (11, SIGSEGV), (31, SIGSYS), (13, SIGPIPE), (14, SIGALRM), (15, SIGTERM),
     (23, SIGURG), (19, SIGSTOP), (20, SIGTSTP), (18, SIGCONT), (17, SIGCHLD), (21, SIGTTIN), (22, SIGTTOU),
     (29, SIGIO), (24, SIGXCPU), (25, SIGXFSZ), (26, SIGVTALRM), (27, SIGPROF), (28, SIGWINCH), (10, SIGUSR1),
     (12, SIGUSR2)]"

text \<open>\<open>None\<close>: the answer 0.\<close>

definition signum_linux_to_bsd :: "int \<Rightarrow> bsd_signal option" where
  "signum_linux_to_bsd signum = map_of linux_signals signum"

text \<open>
  The events that \<open>kevent\<close> reports while the program runs. When the socket is readable,
  \<open>fg\<close> is the foreground process group that \<open>tcgetpgrp\<close> would answer.
\<close>

datatype sp_event = Ev_Exit | Ev_Read int | Ev_Interrupted | Ev_Failed | Ev_Other

text \<open>
  The loop; the result has the signals sent (to a process or, negative, a group), and whether
  the loop was left (\<open>False\<close>: it waits for more events).
\<close>

fun signal_loop ::
    "int \<Rightarrow> sp_event list \<Rightarrow> wire \<Rightarrow> (int \<times> bsd_signal) list \<Rightarrow> sp_error + bool \<times> (int \<times> bsd_signal) list \<times> wire" where
  "signal_loop shell_pid [] w kills = Inr (False, kills, w)"
| "signal_loop shell_pid (Ev_Exit # evs) w kills = Inr (True, kills, w)"
| "signal_loop shell_pid (Ev_Interrupted # evs) w kills = signal_loop shell_pid evs w kills"
| "signal_loop shell_pid (Ev_Failed # evs) w kills = Inl Kevent_Failed"
| "signal_loop shell_pid (Ev_Other # evs) w kills = signal_loop shell_pid evs w kills"
| "signal_loop shell_pid (Ev_Read fg # evs) w kills =
     (case wire_recv 4 w of
        None \<Rightarrow> Inr (True, kills, [])
      | Some (hdr, _, w1) \<Rightarrow>
          if le_val (take 2 hdr) = SHELLSPAWN_SIGNAL then
            if le_val (drop 2 hdr) \<noteq> 4 then Inl Bad_Signal
            else
              (case wire_recv 4 w1 of
                 None \<Rightarrow> Inl Short_Read
               | Some (data, _, w2) \<Rightarrow>
                   (case signum_linux_to_bsd (int32_val data) of
                      None \<Rightarrow> signal_loop shell_pid evs w2 kills
                    | Some sig \<Rightarrow>
                        signal_loop shell_pid evs w2
                          (kills @ [if fg \<noteq> -1 then (fg, sig) else (- shell_pid, sig)])))
          else Inl Bad_Command)"

text \<open>How the program ended, and what is reported.\<close>

datatype wait_status = Exited nat | Signaled nat

fun report_status :: "wait_status \<Rightarrow> char list" where
  "report_status (Signaled sig) = int32_bytes (128 + int sig)"
| "report_status (Exited status) = int32_bytes (int status)"

definition EIO :: int where "EIO = 5"

definition report_error :: "int \<Rightarrow> char list" where
  "report_error errno = int32_bytes (if errno \<noteq> 0 then - errno else - EIO)"

section \<open>The launcher while the program runs\<close>

text \<open>The signal handler: what is sent, and whether the container is killed.\<close>

definition signalHandler :: "int \<Rightarrow> int \<Rightarrow> wire \<times> bool" where
  "signalHandler pty_master signo =
     (let (signo, kill) =
        (if pty_master = -1 \<and> signo = 2 then (15, True) else (signo, signo = 15))
      in (pushShellspawnCommandData SHELLSPAWN_SIGNAL (int32_bytes signo), kill))"

text \<open>The launcher's exit status for what the daemon sent (2: ENOENT); the system keeps 8 bits.\<close>

definition shellLoop_exit :: "char list \<Rightarrow> nat" where
  "shellLoop_exit reply =
     (if length reply \<ge> 4 then
        let exitStatus = int32_val (take 4 reply) in
        if exitStatus < 0 then (if - exitStatus = 2 then 127 else 126)
        else nat (exitStatus mod 256)
      else 1)"

section \<open>Commands arrive as they were sent\<close>

lemma wire_rights_plain [simp]: "wire_rights (map (\<lambda>c. (c, None)) bs) = None"
  by (induction bs) simp_all

lemma wire_recv_plain:
  assumes "n = length bs"
  shows "wire_recv n (map (\<lambda>c. (c, None)) bs @ w) = Some (bs, None, w)"
  using assms by (simp add: wire_recv_def comp_def)

lemma recv_header:
  assumes "type < 2 ^ 16"
  shows "\<exists>hdr. wire_recv 4 (pushShellspawnCommandData type data @ w) =
      Some (hdr, None, map (\<lambda>c. (c, None)) data @ w) \<and>
    le_val (take 2 hdr) = type \<and> le_val (drop 2 hdr) = length data mod 2 ^ 16"
proof -
  let ?hdr = "le_bytes 2 type @ le_bytes 2 (length data mod 2 ^ 16)"
  have "pushShellspawnCommandData type data @ w = map (\<lambda>c. (c, None)) ?hdr @ (map (\<lambda>c. (c, None)) data @ w)"
    by (simp add: pushShellspawnCommandData_def)
  then have "wire_recv 4 (pushShellspawnCommandData type data @ w) = Some (?hdr, None, map (\<lambda>c. (c, None)) data @ w)"
    by (simp only: wire_recv_plain length_append length_le_bytes)
  moreover have "le_val (take 2 ?hdr) = type" "le_val (drop 2 ?hdr) = length data mod 2 ^ 16"
    using assms by simp_all
  ultimately show ?thesis by blast
qed

lemma read_push:
  assumes "length data < 2 ^ 16" and "type < 2 ^ 16" and "type \<noteq> SHELLSPAWN_GO"
  shows "read_cmds (pushShellspawnCommandData type data @ w) st =
    read_cmds w (sp_command type (if data = [] then None else Some data) st)"
proof -
  from recv_header [OF assms(2), of data w] obtain hdr where
    "wire_recv 4 (pushShellspawnCommandData type data @ w) = Some (hdr, None, map (\<lambda>c. (c, None)) data @ w)"
    "le_val (take 2 hdr) = type" "le_val (drop 2 hdr) = length data mod 2 ^ 16" by blast
  with assms show ?thesis
    by (subst read_cmds.simps) (simp add: wire_recv_plain)
qed

definition sendable :: "string \<Rightarrow> bool" where
  "sendable v \<longleftrightarrow> c_string v \<and> length v < 65535"

lemma read_push_string:
  assumes "sendable v" and "type < 2 ^ 16" and "type \<noteq> SHELLSPAWN_GO"
  shows "read_cmds (pushShellspawnCommand type (Some v) @ w) st =
    read_cmds w (sp_command type (Some (v @ [CHR 0x00])) st)"
  using assms read_push [of "v @ [CHR 0x00]" type w st]
  by (simp add: pushShellspawnCommand_def sendable_def)

lemma read_push_env:
  assumes "\<forall>v \<in> set vs. sendable v"
  shows "read_cmds (concat (map (\<lambda>v. pushShellspawnCommand SHELLSPAWN_SETENV (Some v)) vs) @ w) st =
    read_cmds w (st\<lparr>sp_env := sp_env st @ vs\<rparr>)"
  using assms
proof (induction vs arbitrary: st)
  case Nil
  then show ?case by simp
next
  case (Cons v vs)
  then have "sendable v" "c_string v" by (simp_all add: sendable_def)
  with Cons read_push_string [of v SHELLSPAWN_SETENV] show ?case
    by (simp add: sp_command_def shellspawn_types)
qed

lemma read_push_args:
  assumes "\<forall>v \<in> set vs. sendable v"
  shows "read_cmds (concat (map (\<lambda>v. pushShellspawnCommand SHELLSPAWN_ADDARG (Some v)) vs) @ w) st =
    read_cmds w (st\<lparr>sp_argv := sp_argv st @ vs\<rparr>)"
  using assms
proof (induction vs arbitrary: st)
  case Nil
  then show ?case by simp
next
  case (Cons v vs)
  then have "sendable v" "c_string v" by (simp_all add: sendable_def)
  with Cons read_push_string [of v SHELLSPAWN_ADDARG] show ?case
    by (simp add: sp_command_def shellspawn_types)
qed

lemma read_push_fds:
  assumes "length fds = 3"
  shows "read_cmds (pushShellspawnCommandFDs SHELLSPAWN_GO fds @ w) st = Inr (st\<lparr>sp_fds := fds\<rparr>, w)"
proof -
  have "pushShellspawnCommandFDs SHELLSPAWN_GO fds =
      [(char_of (4::nat), Some fds), (char_of (0::nat), None), (char_of (0::nat), None), (char_of (0::nat), None)]"
    by (simp add: pushShellspawnCommandFDs_def shellspawn_types numeral_2_eq_2)
  then have "wire_recv 4 (pushShellspawnCommandFDs SHELLSPAWN_GO fds @ w) =
      Some (map char_of [4, 0, 0, 0 :: nat], Some fds, w)"
    by (simp add: wire_recv_def)
  moreover have "wire_recv 0 w = Some ([], None, w)" by (simp add: wire_recv_def)
  ultimately show ?thesis using assms
    by (subst read_cmds.simps) (simp add: shellspawn_types)
qed

text \<open>The end that the two ways to start a program share.\<close>

definition good_user :: "string \<Rightarrow> user_env \<Rightarrow> bool" where
  "good_user system_root u \<longleftrightarrow> (\<forall>v \<in> set (environ u). sendable v) \<and>
     c_string system_root \<and> c_string (working_directory u) \<and>
     (case login_of u of None \<Rightarrow> False | Some l \<Rightarrow> c_string l) \<and>
     - (2 ^ 31) \<le> original_uid u \<and> original_uid u < 2 ^ 31 \<and> - (2 ^ 31) \<le> original_gid u \<and> original_gid u < 2 ^ 31"

lemma read_finish:
  assumes "good_user system_root u" and "length fds = 3"
  shows "read_cmds (setupWorkingDir system_root u @ setupIDs u @ pushShellspawnCommandFDs SHELLSPAWN_GO fds) st =
    Inr (st\<lparr>sp_chdir := sp_chdir st @ [take 4095 (system_root @ working_directory u)],
            sp_ids := sp_ids st @ [(original_uid u, original_gid u)], sp_fds := fds\<rparr>, [])"
proof -
  define d where "d = take 4095 (system_root @ working_directory u)"
  define ids where "ids = int32_bytes (original_uid u) @ int32_bytes (original_gid u)"
  have "c_string d" unfolding d_def by (rule c_string_take) (use assms(1) in \<open>simp add: good_user_def\<close>)
  moreover have "length d \<le> 4095" by (simp add: d_def)
  ultimately have d: "sendable d" "c_string d" by (simp_all add: sendable_def)
  have "int32_val (take 4 ids) = original_uid u" "int32_val (take 4 (drop 4 ids)) = original_gid u"
    "length ids = 8" "ids \<noteq> []"
    using assms(1) by (auto simp: ids_def good_user_def int32_val_bytes simp flip: length_0_conv)
  with d read_push_string [OF d(1), of SHELLSPAWN_CHDIR] read_push [of ids SHELLSPAWN_SETUIDGID]
    read_push_fds [OF assms(2), of "[]"]
  show ?thesis
    unfolding setupWorkingDir_def setupIDs_def d_def [symmetric] ids_def [symmetric]
    by (simp add: sp_command_def shellspawn_types)
qed

lemma env_strings_sendable:
  assumes "good_user system_root u" and "login_of u = Some l"
  shows "\<forall>v \<in> set (env_strings l (environ u)). sendable v"
proof -
  from assms have "c_string (take 4095 (''HOME=/Users/'' @ l))"
    by (intro c_string_take) (simp add: good_user_def)
  with assms(1) show ?thesis by (auto simp: env_strings_def good_user_def sendable_def)
qed

section \<open>The command line for the shell\<close>

text \<open>
  The words of a line by the quoting rules of the shell: blanks separate words, what stands
  between single quotes and the character after a backslash are taken as they are. Any
  other unquoted character has no reading here (the shell might expand it). \<open>cur\<close> is the
  current word, if one has begun; \<open>q\<close>: within quotes.
\<close>

fun sh_lex :: "string \<Rightarrow> string option \<Rightarrow> bool \<Rightarrow> string list option" where
  "sh_lex [] cur q = (if q then None else Some (case cur of None \<Rightarrow> [] | Some w \<Rightarrow> [w]))"
| "sh_lex (c # cs) cur True =
     (if c = CHR 0x27 then sh_lex cs cur False
      else sh_lex cs (Some ((case cur of None \<Rightarrow> [] | Some w \<Rightarrow> w) @ [c])) True)"
| "sh_lex (c # cs) cur False =
     (if c = CHR 0x27 then sh_lex cs (Some (case cur of None \<Rightarrow> [] | Some w \<Rightarrow> w)) True
      else if c = CHR 0x20 then map_option (\<lambda>ws. (case cur of None \<Rightarrow> [] | Some w \<Rightarrow> [w]) @ ws) (sh_lex cs None False)
      else if c = CHR 0x5C then
        (case cs of
           [] \<Rightarrow> None
         | d # ds \<Rightarrow> sh_lex ds (Some ((case cur of None \<Rightarrow> [] | Some w \<Rightarrow> w) @ [d])) False)
      else None)"

definition sh_words :: "string \<Rightarrow> string list option" where
  "sh_words line = sh_lex line None False"

lemma sh_lex_quoted:
  "sh_lex (escapeQuotes a @ CHR 0x27 # rest) (Some w) True = sh_lex rest (Some (w @ a)) False"
  by (induction a arbitrary: w) simp_all

text \<open>The words appended to a line that ends outside of quotes.\<close>

fun shell_tail :: "string list \<Rightarrow> string" where
  "shell_tail [] = []"
| "shell_tail (arg # args) = '' '' @ [CHR 0x27] @ escapeQuotes arg @ [CHR 0x27] @ shell_tail args"

lemma shell_words_tail: "b \<noteq> [] \<Longrightarrow> shell_words args b = b @ shell_tail args"
  by (induction args arbitrary: b) simp_all

lemma shell_words_Cons:
  "shell_words (arg # args) [] = [CHR 0x27] @ escapeQuotes arg @ [CHR 0x27] @ shell_tail args"
  by (simp add: shell_words_tail)

lemma sh_lex_tail: "sh_lex (shell_tail args) (Some w) False = Some (w # args)"
  by (induction args arbitrary: w) (simp_all add: sh_lex_quoted [where w = "[]", simplified])

lemma sh_words_shell_words: "sh_words (shell_words args []) = Some args"
  by (cases args)
    (simp_all add: sh_words_def shell_words_Cons sh_lex_tail sh_lex_quoted [where w = "[]", simplified]
      del: shell_words.simps(2))

lemma length_shell_tail: "length (shell_tail args) = shell_buffer_size args"
  by (induction args) (simp_all add: shell_buffer_size_def)

lemma length_shell_words: "args \<noteq> [] \<Longrightarrow> length (shell_words args []) + 1 = shell_buffer_size args"
  by (cases args)
    (simp_all add: shell_words_Cons length_shell_tail del: shell_words.simps(2), simp add: shell_buffer_size_def)

lemma c_string_shell_words:
  assumes "\<forall>a \<in> set args. c_string a"
  shows "c_string (shell_words args [])"
proof -
  have esc: "c_string (escapeQuotes a)" if "c_string a" for a
    using that by (induction a) simp_all
  have "c_string (shell_tail args)" using assms by (induction args) (simp_all add: esc)
  with assms show ?thesis by (cases args) (simp_all add: shell_words_Cons esc del: shell_words.simps(2))
qed

section \<open>Properties\<close>

text \<open>C4. The exec command: when the program is found, the daemon reads from the stream the launcher
  writes exactly the program and the arguments that were given, the variables of the user
  (without PATH, TMPDIR and HOME, which are set anew), the working directory, the user and
  the descriptors, and it has read the whole stream.\<close>

theorem osxie_exec_starts_program:
  assumes "good_user system_root u" and "length fds = 3"
    and "resolve_program realpath dirs system_root name = Some path"
    and "\<forall>v \<in> set (path # args). sendable v"
  shows "\<exists>w st l. osxie_main_spawn realpath dirs system_root (''exec'' # name # args) u fds = Go w \<and>
    read_cmds w sp_init = Inr (st, []) \<and> sp_execv st = (path, path # args) \<and>
    login_of u = Some l \<and> sp_env st = env_strings l (environ u) \<and>
    sp_chdir st = [take 4095 (system_root @ working_directory u)] \<and>
    sp_ids st = [(original_uid u, original_gid u)] \<and> sp_fds st = fds"
proof -
  from assms(1) obtain l where l: "login_of u = Some l" by (auto simp: good_user_def split: option.splits)
  have path: "sendable path" "c_string path" using assms(4) by (simp_all add: sendable_def)
  note env = read_push_env [OF env_strings_sendable [OF assms(1) l]]
  note args = read_push_args [OF assms(4)]
  from env args path assms(3) l read_finish [OF assms(1,2)] read_push_string [OF path(1), of SHELLSPAWN_SETEXEC]
  show ?thesis
    by (simp add: osxie_main_spawn_def spawnBinary_cmds_def setupShellspawnEnv_def sp_execv_def sp_init_def
        sp_command_def shellspawn_types)
qed

text \<open>A user with a variable of its own.\<close>

definition user_example :: user_env where
  "user_example = \<lparr>pw_name = Some ''u'', login_name = None, environ = [''PATH=x'', ''A=1''],
     working_directory = ''/tmp'', original_uid = 1000, original_gid = 1000\<rparr>"

lemma user_example_good: "good_user ''/r'' user_example" "login_of user_example = Some ''u''"
  by (simp_all add: good_user_def user_example_def login_of_def sendable_def)

theorem osxie_exec_starts_program_witness:
  "\<exists>w st. osxie_main_spawn (\<lambda>_. Some ''/bin/ls'') [] ''/r'' [''exec'', ''ls'', ''-l''] user_example [4, 1, 2] = Go w \<and>
     read_cmds w sp_init = Inr (st, []) \<and> sp_execv st = (''/r/bin/ls'', [''/r/bin/ls'', ''-l'']) \<and>
     sp_fds st = [4, 1, 2]"
  using osxie_exec_starts_program [OF user_example_good(1), of "[4, 1, 2]" "\<lambda>_. Some ''/bin/ls''" "[]" "''ls''"
      "''/r/bin/ls''" "[''-l'']"]
  by (auto simp: resolve_program_def sendable_def)

text \<open>C21. Running a program through the shell: the daemon starts a login shell with one command line,
  whose words by the shell's quoting rules are the program and exactly the arguments that
  were given, whatever characters they have; the line fills the buffer allocated for it to
  the last byte and not beyond.\<close>

theorem osxie_shell_runs_program:
  assumes "good_user system_root u" and "length fds = 3"
    and "cmd \<noteq> ''shell''" and "cmd \<noteq> ''exec''"
    and "resolve_program realpath dirs system_root cmd = Some path"
    and "\<forall>v \<in> set (path # args). c_string v" and "shell_buffer_size (path # args) \<le> 65535"
  shows "\<exists>w st line. osxie_main_spawn realpath dirs system_root (cmd # args) u fds = Go w \<and>
    read_cmds w sp_init = Inr (st, []) \<and>
    sp_execv st = (''/bin/bash'', [''/bin/bash'', ''--login'', ''-c'', line]) \<and>
    sh_words line = Some (path # args) \<and> length line + 1 = shell_buffer_size (path # args) \<and>
    sp_chdir st = [take 4095 (system_root @ working_directory u)] \<and>
    sp_ids st = [(original_uid u, original_gid u)] \<and> sp_fds st = fds"
proof -
  define line where "line = shell_words (path # args) []"
  from assms(1) obtain l where l: "login_of u = Some l" by (auto simp: good_user_def split: option.splits)
  have len: "length line + 1 = shell_buffer_size (path # args)"
    unfolding line_def by (rule length_shell_words) simp
  have line: "sendable line" "c_string line"
    using c_string_shell_words [OF assms(6)] len assms(7) by (simp_all add: sendable_def line_def)
  have words: "sh_words line = Some (path # args)" unfolding line_def by (rule sh_words_shell_words)
  have "\<forall>v \<in> set [''-c'', line]. sendable v" using line by (simp add: sendable_def)
  note args = read_push_args [OF this]
  note env = read_push_env [OF env_strings_sendable [OF assms(1) l]]
  from env args len words assms(3-5) l read_finish [OF assms(1,2)] show ?thesis
    by (simp add: osxie_main_spawn_def spawnShell_cmds_def setupShellspawnEnv_def sp_execv_def sp_init_def
        del: shell_words.simps(2) flip: line_def)
qed

theorem osxie_shell_runs_program_witness:
  "\<exists>w st line. osxie_main_spawn (\<lambda>_. Some ''/bin/ls'') [] ''/r'' [''ls'', [CHR 0x27, CHR ''$'']] user_example [4, 1, 2] = Go w \<and>
     read_cmds w sp_init = Inr (st, []) \<and> sp_argv st = [''/bin/bash'', ''--login'', ''-c'', line] \<and>
     sh_words line = Some [''/r/bin/ls'', [CHR 0x27, CHR ''$'']]"
  using osxie_shell_runs_program [OF user_example_good(1), of "[4, 1, 2]" "''ls''" "\<lambda>_. Some ''/bin/ls''" "[]"
      "''/r/bin/ls''" "[[CHR 0x27, CHR ''$'']]"]
  by (auto simp: resolve_program_def shell_buffer_size_def sp_execv_def)

text \<open>A variable of 65535 bytes or more is not transmitted: the length field keeps only 16 bits of
  the length, the daemon takes that many bytes for the value, and reads the others as
  commands.\<close>

theorem pushShellspawnCommand_long_value:
  assumes "65535 \<le> length v" and "k = (length v + 1) mod 65536"
  shows "read_cmds (pushShellspawnCommand SHELLSPAWN_SETENV (Some v) @ w) st =
      read_cmds (map (\<lambda>c. (c, None)) (drop k (v @ [CHR 0x00])) @ w)
        (sp_command SHELLSPAWN_SETENV (if k = 0 then None else Some (take k (v @ [CHR 0x00]))) st) \<and>
    drop k (v @ [CHR 0x00]) \<noteq> []"
proof -
  let ?data = "v @ [CHR 0x00]"
  have "k \<le> 65535" using assms(2) by simp
  with assms(1) have k: "k < length ?data" by simp
  from recv_header [of SHELLSPAWN_SETENV ?data w] obtain hdr where
    H: "wire_recv 4 (pushShellspawnCommandData SHELLSPAWN_SETENV ?data @ w) =
      Some (hdr, None, map (\<lambda>c. (c, None)) ?data @ w)"
    "le_val (take 2 hdr) = SHELLSPAWN_SETENV" "le_val (drop 2 hdr) = k"
    using assms(2) by (auto simp: shellspawn_types)
  have "map (\<lambda>c. (c, None)) ?data @ w =
      map (\<lambda>c. (c, None)) (take k ?data) @ (map (\<lambda>c. (c, None)) (drop k ?data) @ w)"
    by (simp only: append_assoc [symmetric] map_append [symmetric] append_take_drop_id)
  then have "wire_recv k (map (\<lambda>c. (c, None)) ?data @ w) =
      Some (take k ?data, None, map (\<lambda>c. (c, None)) (drop k ?data) @ w)"
    using k by (simp only: wire_recv_plain length_take min.absorb2 less_imp_le)
  with H k show ?thesis
    unfolding pushShellspawnCommand_def option.case
    by (subst read_cmds.simps) (simp add: shellspawn_types)
qed

theorem pushShellspawnCommand_long_value_witness:
  "read_cmds (pushShellspawnCommand SHELLSPAWN_SETENV (Some (replicate 65535 CHR ''A''))) sp_init =
     read_cmds (map (\<lambda>c. (c, None)) (replicate 65535 CHR ''A'' @ [CHR 0x00])) sp_init"
proof -
  have "length (replicate 65535 CHR ''A'') = 65535" by (rule length_replicate)
  with pushShellspawnCommand_long_value [of "replicate 65535 CHR ''A''" 0 "[]" sp_init] show ?thesis
    by (simp add: sp_command_def shellspawn_types)
qed

lemma signal_loop_push:
  assumes "- (2 ^ 31) \<le> signo" and "signo < 2 ^ 31"
  shows "signal_loop pid (Ev_Read fg # evs) (pushShellspawnCommandData SHELLSPAWN_SIGNAL (int32_bytes signo) @ w) kills =
    signal_loop pid evs w (kills @ (case signum_linux_to_bsd signo of
       None \<Rightarrow> [] | Some sig \<Rightarrow> [if fg \<noteq> -1 then (fg, sig) else (- pid, sig)]))"
proof -
  from recv_header [of SHELLSPAWN_SIGNAL "int32_bytes signo" w] obtain hdr where
    H: "wire_recv 4 (pushShellspawnCommandData SHELLSPAWN_SIGNAL (int32_bytes signo) @ w) =
      Some (hdr, None, map (\<lambda>c. (c, None)) (int32_bytes signo) @ w)"
    "le_val (take 2 hdr) = SHELLSPAWN_SIGNAL" "le_val (drop 2 hdr) = 4"
    by (auto simp: shellspawn_types)
  have "wire_recv 4 (map (\<lambda>c. (c, None)) (int32_bytes signo) @ w) = Some (int32_bytes signo, None, w)"
    by (rule wire_recv_plain) simp
  with H int32_val_bytes [OF assms] show ?thesis by (simp split: option.split)
qed

text \<open>The signal that the handler passes on.\<close>

definition handled_signal :: "int \<Rightarrow> int \<Rightarrow> int" where
  "handled_signal pty_master signo = (if pty_master = -1 \<and> signo = 2 then 15 else signo)"

lemma signal_loop_signals:
  assumes "length fgs = length sigs" and "\<forall>s \<in> set sigs. 1 \<le> s \<and> s \<le> 31"
  shows "signal_loop pid (map Ev_Read fgs) (concat (map (\<lambda>s. fst (signalHandler pty s)) sigs)) kills =
    Inr (False, kills @ concat (map2 (\<lambda>s fg. case signum_linux_to_bsd (handled_signal pty s) of
       None \<Rightarrow> [] | Some sig \<Rightarrow> [if fg \<noteq> -1 then (fg, sig) else (- pid, sig)]) sigs fgs), [])"
  using assms
proof (induction fgs sigs arbitrary: kills rule: list_induct2)
  case Nil
  then show ?case by simp
next
  case (Cons fg fgs s sigs)
  have "fst (signalHandler pty s) =
      pushShellspawnCommandData SHELLSPAWN_SIGNAL (int32_bytes (handled_signal pty s))"
    by (simp add: signalHandler_def handled_signal_def)
  moreover have "- (2 ^ 31) \<le> handled_signal pty s" "handled_signal pty s < 2 ^ 31"
    using Cons.prems by (auto simp: handled_signal_def)
  note signal_loop_push [OF this]
  ultimately show ?case using Cons by simp
qed

text \<open>Signals that the launcher receives while the program runs reach the foreground process group
  in the container (or, without one, the group of the shell) in their order, as the signals
  of the same name; an interrupt outside of a terminal arrives as a termination. All Linux
  signals but two (16 and 30, which Darwin does not have) are passed on.\<close>

theorem signals_reach_program:
  assumes "length fgs = length sigs" and "\<forall>s \<in> set sigs. s \<in> {1..31} - {16, 30}"
  shows "\<exists>bsd. length bsd = length sigs \<and>
    (\<forall>i < length sigs. signum_linux_to_bsd (handled_signal pty (sigs ! i)) = Some (bsd ! i)) \<and>
    signal_loop pid (map Ev_Read fgs) (concat (map (\<lambda>s. fst (signalHandler pty s)) sigs)) [] =
      Inr (False, map2 (\<lambda>fg sig. (if fg \<noteq> -1 then fg else - pid, sig)) fgs bsd, [])"
proof -
  have all: "signum_linux_to_bsd s \<noteq> None" if "s \<in> {1..31} - {16, 30}" for s
  proof -
    have "s \<in> set [1..31]" using that by simp
    then have "s \<in> set [1, 2, 3, 4, 5, 6, 7, 8, 9, 10, 11, 12, 13, 14, 15, 16, 17, 18, 19, 20, 21, 22, 23, 24, 25,
        26, 27, 28, 29, 30, 31]" by (simp add: upto.simps)
    with that show ?thesis by (auto simp: signum_linux_to_bsd_def linux_signals_def)
  qed
  define bsd where "bsd = map (\<lambda>s. the (signum_linux_to_bsd (handled_signal pty s))) sigs"
  have some: "signum_linux_to_bsd (handled_signal pty s) = Some (the (signum_linux_to_bsd (handled_signal pty s)))"
    if "s \<in> set sigs" for s
    using all [of "handled_signal pty s"] assms(2) that by (auto simp: handled_signal_def)
  have "concat (map2 (\<lambda>s fg. case signum_linux_to_bsd (handled_signal pty s) of
       None \<Rightarrow> [] | Some sig \<Rightarrow> [if fg \<noteq> -1 then (fg, sig) else (- pid, sig)]) sigs fgs) =
     map2 (\<lambda>fg sig. (if fg \<noteq> -1 then fg else - pid, sig)) fgs bsd"
    using assms(1) some unfolding bsd_def
  proof (induction fgs sigs rule: list_induct2)
    case Nil
    then show ?case by simp
  next
    case (Cons fg fgs s sigs)
    from Cons.prems [of s] obtain sig where "signum_linux_to_bsd (handled_signal pty s) = Some sig" by auto
    with Cons show ?case by simp
  qed
  moreover have "\<forall>s \<in> set sigs. 1 \<le> s \<and> s \<le> 31" using assms(2) by auto
  note signal_loop_signals [OF assms(1) this, of pid pty "[]"]
  ultimately show ?thesis using some by (intro exI [of _ bsd]) (auto simp: bsd_def)
qed

theorem signals_reach_program_witness:
  "signal_loop 9 (map Ev_Read [-1, 5]) (concat (map (\<lambda>s. fst (signalHandler (-1) s)) [2, 10])) [] =
     Inr (False, [(-9, SIGTERM), (5, SIGUSR1)], [])"
proof -
  have "signum_linux_to_bsd (handled_signal (-1) 2) = Some SIGTERM" "signum_linux_to_bsd (handled_signal (-1) 10) = Some SIGUSR1"
    by (simp_all add: signum_linux_to_bsd_def linux_signals_def handled_signal_def)
  with signals_reach_program [of "[-1, 5]" "[2, 10]" "-1" 9] show ?thesis
    by (auto simp: less_Suc_eq length_Suc_conv)
qed

text \<open>The launcher exits the way the program did: with its exit status, with 128 plus the number
  of the signal that killed it, with 127 when the program does not exist (error 2) and 126
  when it cannot be started for another reason.\<close>

theorem exit_status_reported:
  assumes "status < 256" and "sig < 128" and "0 \<le> errno" and "errno < 2 ^ 31"
  shows "shellLoop_exit (report_status (Exited status)) = status \<and>
    shellLoop_exit (report_status (Signaled sig)) = 128 + sig \<and>
    shellLoop_exit (report_error errno) = (if errno = 2 then 127 else 126)"
proof -
  have "int32_val (int32_bytes (int status)) = int status"
    "int32_val (int32_bytes (128 + int sig)) = 128 + int sig"
    "int32_val (int32_bytes (- errno)) = - errno" "int32_val (int32_bytes (- EIO)) = - EIO"
    using assms by (auto intro!: int32_val_bytes simp: EIO_def)
  with assms show ?thesis
    by (auto simp: shellLoop_exit_def report_error_def Let_def EIO_def nat_eq_iff)
qed

theorem exit_status_reported_witness:
  "shellLoop_exit (report_status (Exited 3)) = 3 \<and> shellLoop_exit (report_error 2) = 127"
  using exit_status_reported [of 3 9 2] by simp

lemma connect_loop_result:
  assumes "connect_loop sock alive conn uid i n s = (r, s')" and "euid s = 0"
    and "socks s = (if i = 0 then [0] else [i - 1])"
  shows "euid s' = uid \<and> length (tried s') \<le> length (tried s) + n \<and>
    (\<exists>new. tried s' = tried s @ new \<and> (\<forall>(j, e) \<in> set new. e = 0)) \<and>
    (\<forall>k. r = Go k \<longrightarrow> conn k = None \<and> alive k \<and> socks s' = [k])"
  using assms
proof (induction n arbitrary: i s)
  case 0
  then show ?case by auto
next
  case (Suc n)
  define s1 where "s1 = s\<lparr>socks := [i], tried := tried s @ [(i, 0)]\<rparr>"
  show ?case
  proof (cases "(i > 0 \<longrightarrow> sock i) \<and> alive i \<and> (\<exists>e. conn i = Some e \<and> e \<in> {ECONNREFUSED, ENOENT, EAGAIN})")
    case True
    have "s1 = s\<lparr>tried := tried s @ [(i, 0)]\<rparr>" if "i = 0"
      using that Suc.prems(3) unfolding s1_def by (cases s) simp
    then have "connect_loop sock alive conn uid (Suc i) n s1 = (r, s')" if "i = 0"
      using that True Suc.prems by (auto simp: Let_def)
    moreover have "connect_loop sock alive conn uid (Suc i) n s1 = (r, s')" if "i \<noteq> 0"
      using that True Suc.prems by (auto simp: s1_def Let_def)
    ultimately have "connect_loop sock alive conn uid (Suc i) n s1 = (r, s')" by blast
    from Suc.IH [OF this] Suc.prems(2) show ?thesis by (auto simp: s1_def)
  next
    case False
    with Suc.prems show ?thesis
      by (cases "i = 0"; cases "conn i") (auto simp: Let_def split: if_splits)
  qed
qed

text \<open>Connecting to the daemon: on every path, success, failure and exit alike, the effective user
  is the original one again afterwards; every connection attempt was made as root, there
  are at most five, and after success exactly the connected socket is open.\<close>

theorem connectToShellspawn_restores_user:
  assumes "connectToShellspawn sock alive conn uid s = (r, s')"
    and "euid s = uid" and "socks s = []" and "tried s = []"
  shows "euid s' = uid \<and> length (tried s') \<le> 5 \<and> (\<forall>(j, e) \<in> set (tried s'). e = 0) \<and>
    (\<forall>k. r = Go k \<longrightarrow> conn k = None \<and> alive k \<and> socks s' = [k])"
proof (cases "sock 0")
  case True
  with assms have "connect_loop sock alive conn uid 0 5 (s\<lparr>socks := [0], euid := 0\<rparr>) = (r, s')"
    by (simp add: connectToShellspawn_def)
  from connect_loop_result [OF this] assms(4) show ?thesis by auto
next
  case False
  with assms show ?thesis by (auto simp: connectToShellspawn_def)
qed

theorem connectToShellspawn_restores_user_witness:
  "let (r, s) = connectToShellspawn (\<lambda>_. True) (\<lambda>_. True) (\<lambda>i. if i < 2 then Some ENOENT else None) 1000
     \<lparr>euid = 1000, socks = [], tried = []\<rparr>
   in r = Go 2 \<and> euid s = 1000 \<and> socks s = [2]"
proof -
  let ?c = "connectToShellspawn (\<lambda>_. True) (\<lambda>_. True) (\<lambda>i. if i < 2 then Some ENOENT else None) 1000
     \<lparr>euid = 1000, socks = [], tried = []\<rparr>"
  obtain r s where c: "?c = (r, s)" by (cases ?c)
  have "fst ?c = Go 2" by (simp add: connectToShellspawn_def numeral_eq_Suc)
  with c have "r = Go 2" by simp
  with connectToShellspawn_restores_user [OF c] show ?thesis unfolding c by simp
qed

end
