(* ===== verification/Fat_Files.thy ===== *)
theory Fat_Files
  imports Osxie_Prelude
begin

text \<open>
  The choice of an architecture in a fat file (load_fat of startup/mldr/mldr.c), against a
  definition of the best architecture.
\<close>

section \<open>The choice\<close>

record fat_arch =
  cputype :: u32
  cpusubtype :: u32
  arch_offset :: u32
  arch_size :: u32
  arch_align :: u32

definition bswap_32 :: "u32 \<Rightarrow> u32" where
  "bswap_32 x = push_bit 24 (x AND 0xFF) OR push_bit 8 (x AND 0xFF00) OR
     drop_bit 8 (x AND 0xFF0000) OR drop_bit 24 x"

definition swap_arch :: "bool \<Rightarrow> fat_arch \<Rightarrow> fat_arch" where
  "swap_arch swap arch =
     (if swap then
        \<lparr>cputype = bswap_32 (cputype arch), cpusubtype = bswap_32 (cpusubtype arch),
         arch_offset = bswap_32 (arch_offset arch), arch_size = bswap_32 (arch_size arch),
         arch_align = bswap_32 (arch_align arch)\<rparr>
      else arch)"

definition CPU_TYPE_ANY :: u32 where "CPU_TYPE_ANY = -1"

definition CPU_TYPE_X86 :: u32 where "CPU_TYPE_X86 = 7"

definition CPU_TYPE_X86_64 :: u32 where "CPU_TYPE_X86_64 = 0x01000007"

text \<open>
  The best architecture so far (\<open>None\<close>: CPU_TYPE_ANY) with the preference it was found
  under (\<open>None\<close>: none, the code's -1). The inner loop goes over the preferences from \<open>j\<close> on.
\<close>

fun match_bpref :: "u32 list \<Rightarrow> nat \<Rightarrow> fat_arch \<Rightarrow> fat_arch option \<times> nat option \<Rightarrow> fat_arch option \<times> nat option" where
  "match_bpref [] j arch (best, bpref) = (best, bpref)"
| "match_bpref (b # bs) j arch (best, bpref) =
     (if b \<noteq> 0 \<and> cputype arch = b \<and> (case bpref of None \<Rightarrow> True | Some k \<Rightarrow> k > j)
      then (Some arch, Some j)
      else match_bpref bs (Suc j) arch (best, bpref))"

definition best_is_any :: "fat_arch option \<Rightarrow> bool" where
  "best_is_any best = (case best of None \<Rightarrow> True | Some a \<Rightarrow> cputype a = CPU_TYPE_ANY)"

definition choose_arch ::
    "u32 \<Rightarrow> u32 list \<Rightarrow> fat_arch \<Rightarrow> fat_arch option \<times> nat option \<Rightarrow> fat_arch option \<times> nat option" where
  "choose_arch forced_arch prefs arch st =
     (if forced_arch = 0 then
        let (best, bpref) = match_bpref prefs 0 arch st
        in if bpref = None then
             if cputype arch = CPU_TYPE_X86_64 then (Some arch, bpref)
             else if best_is_any best \<and> cputype arch = CPU_TYPE_X86 then (Some arch, bpref)
             else (best, bpref)
           else (best, bpref)
      else if cputype arch = forced_arch then (Some arch, snd st) else st)"

definition best_arch :: "u32 \<Rightarrow> u32 list \<Rightarrow> fat_arch list \<Rightarrow> fat_arch option" where
  "best_arch forced_arch prefs archs =
     (let best = fst (fold (choose_arch forced_arch prefs) archs (None, None))
      in if best_is_any best then None else best)"

section \<open>The best architecture\<close>

text \<open>The first preference that an architecture meets.\<close>

fun pref_index :: "u32 list \<Rightarrow> u32 \<Rightarrow> nat option" where
  "pref_index [] c = None"
| "pref_index (b # bs) c = (if b \<noteq> 0 \<and> c = b then Some 0 else map_option Suc (pref_index bs c))"

definition first_of :: "('a \<Rightarrow> bool) \<Rightarrow> 'a list \<Rightarrow> 'a option" where
  "first_of P xs = (case filter P xs of [] \<Rightarrow> None | x # _ \<Rightarrow> Some x)"

definition last_of :: "('a \<Rightarrow> bool) \<Rightarrow> 'a list \<Rightarrow> 'a option" where
  "last_of P xs = (if filter P xs = [] then None else Some (last (filter P xs)))"

definition pref_indices :: "u32 list \<Rightarrow> fat_arch list \<Rightarrow> nat set" where
  "pref_indices prefs archs = {j. \<exists>a \<in> set archs. pref_index prefs (cputype a) = Some j}"

text \<open>
  With preferences that some architecture meets, the first architecture of the file that
  meets the foremost of them; else an architecture for x86-64, else the first one for i386.
\<close>

definition best_arch_spec :: "u32 list \<Rightarrow> fat_arch list \<Rightarrow> fat_arch option" where
  "best_arch_spec prefs archs =
     (if pref_indices prefs archs \<noteq> {}
      then first_of (\<lambda>a. pref_index prefs (cputype a) = Some (LEAST j. j \<in> pref_indices prefs archs)) archs
      else
        (case last_of (\<lambda>a. cputype a = CPU_TYPE_X86_64) archs of
           Some a \<Rightarrow> Some a
         | None \<Rightarrow> first_of (\<lambda>a. cputype a = CPU_TYPE_X86) archs))"

lemma first_of_snoc: "first_of P (xs @ [x]) = (case first_of P xs of Some y \<Rightarrow> Some y | None \<Rightarrow> if P x then Some x else None)"
  by (auto simp: first_of_def split: list.splits)

lemma last_of_snoc: "last_of P (xs @ [x]) = (if P x then Some x else last_of P xs)"
  by (simp add: last_of_def)

lemma first_of_None: "first_of P xs = None \<longleftrightarrow> (\<forall>x \<in> set xs. \<not> P x)"
  by (auto simp: first_of_def filter_empty_conv split: list.splits) (metis filter_empty_conv list.distinct(1))

lemma first_of_Some: "first_of P xs = Some x \<Longrightarrow> x \<in> set xs \<and> P x"
proof -
  assume "first_of P xs = Some x"
  then obtain ys where "filter P xs = x # ys" by (auto simp: first_of_def split: list.splits)
  then have "x \<in> set (filter P xs)" by simp
  then show ?thesis by simp
qed

lemma last_of_Some: "last_of P xs = Some x \<Longrightarrow> x \<in> set xs \<and> P x"
proof -
  assume "last_of P xs = Some x"
  then have "filter P xs \<noteq> []" "x = last (filter P xs)" by (simp_all add: last_of_def split: if_splits)
  then have "x \<in> set (filter P xs)" using last_in_set by blast
  then show ?thesis by simp
qed

lemma match_bpref_index:
  "match_bpref bs j arch (best, bpref) =
     (case pref_index bs (cputype arch) of
        None \<Rightarrow> (best, bpref)
      | Some i \<Rightarrow> if (case bpref of None \<Rightarrow> True | Some k \<Rightarrow> k > i + j) then (Some arch, Some (i + j)) else (best, bpref))"
proof (induction bs arbitrary: j)
  case Nil
  show ?case by simp
next
  case (Cons b bs)
  show ?case
  proof (cases "b \<noteq> 0 \<and> cputype arch = b")
    case True
    then show ?thesis using Cons.IH [of "Suc j"] by (auto split: option.splits)
  next
    case False
    then show ?thesis using Cons.IH [of "Suc j"] by (auto split: option.splits)
  qed
qed

lemma choose_arch_spec:
  assumes "\<forall>a \<in> set archs. cputype a \<noteq> CPU_TYPE_ANY"
  shows "fold (choose_arch 0 prefs) archs (None, None) =
    (best_arch_spec prefs archs,
     if pref_indices prefs archs = {} then None else Some (LEAST j. j \<in> pref_indices prefs archs))"
  using assms
proof (induction archs rule: rev_induct)
  case Nil
  show ?case by (simp add: best_arch_spec_def pref_indices_def first_of_def last_of_def)
next
  case (snoc a archs)
  let ?I = "pref_indices prefs archs" and ?L = "LEAST j. j \<in> pref_indices prefs archs"
  have IH: "fold (choose_arch 0 prefs) archs (None, None) = (best_arch_spec prefs archs, if ?I = {} then None else Some ?L)"
    using snoc by simp
  have I: "pref_indices prefs (archs @ [a]) = set_option (pref_index prefs (cputype a)) \<union> ?I"
    by (auto simp: pref_indices_def)
  have any: "best_is_any (best_arch_spec prefs archs) \<longleftrightarrow> best_arch_spec prefs archs = None"
  proof (cases "best_arch_spec prefs archs")
    case (Some b)
    then have "b \<in> set archs"
      by (auto simp: best_arch_spec_def dest: first_of_Some last_of_Some split: if_splits option.splits)
    with Some snoc.prems show ?thesis by (auto simp: best_is_any_def)
  qed (simp add: best_is_any_def)
  have fold: "fold (choose_arch 0 prefs) (archs @ [a]) (None, None) =
      choose_arch 0 prefs a (best_arch_spec prefs archs, if ?I = {} then None else Some ?L)"
    using IH by simp
  show ?case
  proof (cases "pref_index prefs (cputype a)")
    case None
    then have same: "pref_indices prefs (archs @ [a]) = ?I" using I by simp
    show ?thesis
    proof (cases "?I = {}")
      case True
      let ?l = "last_of (\<lambda>a. cputype a = CPU_TYPE_X86_64)" and ?f = "first_of (\<lambda>a. cputype a = CPU_TYPE_X86)"
      define B where "B = best_arch_spec prefs archs"
      have B: "B = (case ?l archs of Some b \<Rightarrow> Some b | None \<Rightarrow> ?f archs)"
        using True by (simp add: B_def best_arch_spec_def)
      have step: "fold (choose_arch 0 prefs) (archs @ [a]) (None, None) =
          (if cputype a = CPU_TYPE_X86_64 then Some a else if B = None \<and> cputype a = CPU_TYPE_X86 then Some a else B, None)"
        unfolding fold using True None any by (simp add: choose_arch_def match_bpref_index flip: B_def)
      have "best_arch_spec prefs (archs @ [a]) = (case ?l (archs @ [a]) of Some b \<Rightarrow> Some b | None \<Rightarrow> ?f (archs @ [a]))"
        using True same by (simp add: best_arch_spec_def)
      also have "\<dots> = (if cputype a = CPU_TYPE_X86_64 then Some a else if B = None \<and> cputype a = CPU_TYPE_X86 then Some a else B)"
        unfolding B by (cases "?l archs"; cases "?f archs") (simp_all add: first_of_snoc last_of_snoc CPU_TYPE_X86_def CPU_TYPE_X86_64_def)
      finally show ?thesis using True same by (simp only: step) simp
    next
      case False
      have "\<exists>b \<in> set archs. pref_index prefs (cputype b) = Some ?L"
        using LeastI_ex [of "\<lambda>j. j \<in> ?I"] False unfolding pref_indices_def by blast
      then have "first_of (\<lambda>b. pref_index prefs (cputype b) = Some ?L) archs \<noteq> None" by (auto simp: first_of_None)
      with None same False show ?thesis
        unfolding fold by (auto simp: choose_arch_def match_bpref_index best_arch_spec_def first_of_snoc)
    qed
  next
    case (Some i)
    then have I': "pref_indices prefs (archs @ [a]) = insert i ?I" using I by simp
    show ?thesis
    proof (cases "?I = {}")
      case True
      then have "\<forall>b \<in> set archs. pref_index prefs (cputype b) = None"
        by (auto simp: pref_indices_def) (metis not_None_eq)
      then have "first_of (\<lambda>b. pref_index prefs (cputype b) = Some i) archs = None" by (simp add: first_of_None)
      moreover have "(LEAST j. j = i) = i" by (rule Least_equality) simp_all
      ultimately show ?thesis using True Some I'
        unfolding fold by (simp add: choose_arch_def match_bpref_index best_arch_spec_def first_of_snoc)
    next
      case False
      then have L: "?L \<in> ?I" "\<And>j. j \<in> ?I \<Longrightarrow> ?L \<le> j"
        by (auto intro: LeastI_ex Least_le)
      then have least: "(LEAST j. j \<in> insert i ?I) = (if i < ?L then i else ?L)"
        by (intro Least_equality) (auto dest: L(2))
      have "first_of (\<lambda>b. pref_index prefs (cputype b) = Some i) archs = None" if "i < ?L"
        using that L(2) by (force simp: first_of_None pref_indices_def)
      moreover have "first_of (\<lambda>b. pref_index prefs (cputype b) = Some ?L) archs \<noteq> None"
        using L(1) unfolding first_of_None pref_indices_def by blast
      ultimately show ?thesis using False Some I' least
        unfolding fold by (auto simp: choose_arch_def match_bpref_index best_arch_spec_def first_of_snoc split: option.split)
    qed
  qed
qed

lemma choose_arch_forced:
  assumes "f \<noteq> 0"
  shows "fst (fold (choose_arch f prefs) archs (None, None)) = last_of (\<lambda>a. cputype a = f) archs"
proof (induction archs rule: rev_induct)
  case Nil
  show ?case by (simp add: last_of_def)
next
  case (snoc a archs)
  with assms show ?case by (simp add: choose_arch_def last_of_snoc)
qed

lemma best_arch_spec_member:
  "best_arch_spec prefs archs = Some a \<Longrightarrow> a \<in> set archs"
  by (auto simp: best_arch_spec_def dest: first_of_Some last_of_Some split: if_splits option.splits)

text \<open>C26. The single pass of load_fat over the architectures of a fat file chooses what the
  specification of the best architecture says. Without a forced architecture that is the first
  architecture meeting the foremost preference that any of them meets, and when no preference
  is met the last one for x86-64, or the first one for i386 when there is none. With a forced
  architecture it is the last one of that type. No architecture is chosen, and the
  loader gives up, exactly when there is no such one.\<close>
theorem best_arch_equiv:
  assumes "\<forall>a \<in> set archs. cputype a \<noteq> CPU_TYPE_ANY"
  shows "best_arch forced prefs archs =
    (if forced = 0 then best_arch_spec prefs archs else last_of (\<lambda>a. cputype a = forced) archs)"
proof (cases "forced = 0")
  case True
  have "best_is_any (best_arch_spec prefs archs) \<longleftrightarrow> best_arch_spec prefs archs = None"
    using assms by (cases "best_arch_spec prefs archs") (auto simp: best_is_any_def dest: best_arch_spec_member)
  with True choose_arch_spec [OF assms] show ?thesis by (simp add: best_arch_def)
next
  case False
  have "best_is_any (last_of (\<lambda>a. cputype a = forced) archs) \<longleftrightarrow> last_of (\<lambda>a. cputype a = forced) archs = None"
    using assms by (cases "last_of (\<lambda>a. cputype a = forced) archs") (auto simp: best_is_any_def dest: last_of_Some)
  with False choose_arch_forced [OF False] show ?thesis by (simp add: best_arch_def)
qed

definition example_arch :: "u32 \<Rightarrow> u32 \<Rightarrow> fat_arch" where
  "example_arch type off = \<lparr>cputype = type, cpusubtype = 3, arch_offset = off, arch_size = 4096, arch_align = 12\<rparr>"

theorem best_arch_equiv_witness:
  "best_arch 0 [7, 0, 0, 0] [example_arch 0x01000007 4096, example_arch 7 8192, example_arch 7 16384] =
     best_arch_spec [7, 0, 0, 0] [example_arch 0x01000007 4096, example_arch 7 8192, example_arch 7 16384] \<and>
   best_arch 0 [7, 0, 0, 0] [example_arch 0x01000007 4096, example_arch 7 8192, example_arch 7 16384] =
     Some (example_arch 7 8192)"
  (is "best_arch 0 ?p ?as = _ \<and> _")
proof
  show "best_arch 0 ?p ?as = best_arch_spec ?p ?as"
    using best_arch_equiv [of ?as 0 ?p] by (simp add: example_arch_def CPU_TYPE_ANY_def)
  show "best_arch 0 ?p ?as = Some (example_arch 7 8192)"
    by (simp add: example_arch_def best_arch_def choose_arch_def best_is_any_def Let_def CPU_TYPE_ANY_def
        CPU_TYPE_X86_64_def CPU_TYPE_X86_def)
qed

end
