(* ===== verification/Macho_Loader.thy ===== *)
theory Macho_Loader
  imports Fat_Files
begin

text \<open>
  The loader of Mach-O images of startup/mldr (mldr.c, loader.c; the 64-bit instance on
  x86-64): the placement of an image, the mapping of its segments, and the other load
  commands. Files are given by their headers and load commands; the address space is a map
  of pages to what is mapped there, without the loader's own temporary view of the header.
  The kernel's choice of an address is an argument.
\<close>

section \<open>Data\<close>

record macho_section =
  sectname :: string
  sect_addr :: nat
  sect_size :: nat

record segment =
  segname :: string
  vmaddr :: nat
  vmsize :: nat
  fileoff :: nat
  filesize :: nat
  maxprot :: nat
  initprot :: nat
  sections :: "macho_section list"

text \<open>
  The load commands that are read; the thread command has its program counter, the dylinker
  command the bytes of its path (up to the end of the command).
\<close>

datatype load_command =
    LC_SEGMENT_64 segment
  | LC_UNIXTHREAD nat
  | LC_LOAD_DYLINKER "char list"
  | LC_MAIN nat
  | LC_UUID "char list"
  | LC_OTHER

definition MH_EXECUTE :: nat where "MH_EXECUTE = 2"

definition MH_DYLINKER :: nat where "MH_DYLINKER = 7"

text \<open>The header, and the load commands with their sizes.\<close>

record macho =
  filetype :: nat
  mh_pie :: bool
  ncmds :: nat
  sizeofcmds :: nat
  mh_cputype :: u32
  cmds :: "(nat \<times> load_command) list"

text \<open>
  The results; the length of the root path is that of the string, the arguments and variables
  are in \<open>arg_area\<close>, and the path of the server's socket is not used in loading.
\<close>

record load_results =
  lr_mh :: nat
  entry_point :: nat
  stack_size :: nat
  dyld_all_image_location :: nat
  dyld_all_image_size :: nat
  lr_uuid :: "char list"
  vm_addr_max :: nat
  lr_base :: nat
  bprefs :: "u32 list"
  root_path :: "string option"
  stack_top :: nat
  stack_top_aligned :: nat
  kernfd :: int
  lifetime_pipe :: int

section \<open>The address space\<close>

datatype backing = Anon | FilePage string nat

type_synonym vm = "nat \<Rightarrow> (nat \<times> backing) option"

text \<open>
  What the system is like: whether the kernel knows MAP_FIXED_NOREPLACE (4.17 or later), the
  least address that may be mapped, and the address chosen for a mapping by hint and length.
\<close>

record os =
  knows_noreplace :: bool
  min_addr :: nat
  pick_addr :: "nat \<Rightarrow> nat \<Rightarrow> vm \<Rightarrow> nat option"

definition PAGE_SIZE :: nat where "PAGE_SIZE = 4096"

definition PAGE_ALIGN :: "nat \<Rightarrow> nat" where
  "PAGE_ALIGN x = x div PAGE_SIZE * PAGE_SIZE"

definition PAGE_ROUNDUP :: "nat \<Rightarrow> nat" where
  "PAGE_ROUNDUP x = ((x - 1) div PAGE_SIZE + 1) * PAGE_SIZE"

definition pages :: "nat \<Rightarrow> nat \<Rightarrow> nat \<Rightarrow> bool" where
  "pages addr len p \<longleftrightarrow> addr div PAGE_SIZE \<le> p \<and> p < (addr + len + PAGE_SIZE - 1) div PAGE_SIZE"

text \<open>The pages of a mapping at an address, of a file from an offset or anonymous.\<close>

definition vm_map :: "nat \<Rightarrow> nat \<Rightarrow> nat \<Rightarrow> (string \<times> nat) option \<Rightarrow> vm \<Rightarrow> vm" where
  "vm_map addr len prot file s p =
     (if pages addr len p
      then Some (prot, case file of
                         None \<Rightarrow> Anon
                       | Some (f, off) \<Rightarrow> FilePage f (off + (p - addr div PAGE_SIZE) * PAGE_SIZE))
      else s p)"

text \<open>A range is free when no page of it is mapped; this is decided over the range.\<close>

definition vm_free :: "nat \<Rightarrow> nat \<Rightarrow> vm \<Rightarrow> bool" where
  "vm_free addr len s = list_all (\<lambda>p. s p = None) [addr div PAGE_SIZE ..< (addr + len + PAGE_SIZE - 1) div PAGE_SIZE]"

datatype map_flag = MAP_FIXED | MAP_FIXED_NOREPLACE

text \<open>Mapping at a given address, as mmap(2) describes it.\<close>

definition mmap_at ::
    "os \<Rightarrow> nat \<Rightarrow> nat \<Rightarrow> nat \<Rightarrow> map_flag \<Rightarrow> (string \<times> nat) option \<Rightarrow> vm \<Rightarrow> vm option" where
  "mmap_at os addr len prot flag file s =
     (if addr mod PAGE_SIZE \<noteq> 0 \<or> len = 0 \<or> addr < min_addr os \<or>
         (case file of None \<Rightarrow> False | Some (f, off) \<Rightarrow> off mod PAGE_SIZE \<noteq> 0) \<or>
         (flag = MAP_FIXED_NOREPLACE \<and> \<not> vm_free addr len s)
      then None
      else Some (vm_map addr len prot file s))"

definition munmap :: "nat \<Rightarrow> nat \<Rightarrow> vm \<Rightarrow> vm" where
  "munmap addr len s p = (if pages addr len p then None else s p)"

text \<open>
  The result is whether the mapping was made (\<open>False\<close>: MAP_FAILED). On an old kernel the
  address is only a hint. MAP_GROWSDOWN makes no difference here, so that neither does the
  second try without it.
\<close>

definition compatible_mmap ::
    "os \<Rightarrow> nat \<Rightarrow> nat \<Rightarrow> nat \<Rightarrow> map_flag \<Rightarrow> (string \<times> nat) option \<Rightarrow> vm \<Rightarrow> bool \<times> vm" where
  "compatible_mmap os addr len prot flag file s =
     (if flag = MAP_FIXED_NOREPLACE \<and> \<not> knows_noreplace os then
        (case pick_addr os addr len s of
           None \<Rightarrow> (False, s)
         | Some r \<Rightarrow>
             let s = vm_map r len prot file s
             in if r \<noteq> addr then (False, munmap addr len s) else (True, s))
      else
        (case mmap_at os addr len prot flag file s of
           None \<Rightarrow> (False, s)
         | Some s \<Rightarrow> (True, s)))"

section \<open>Segments\<close>

definition native_prot :: "nat \<Rightarrow> nat" where
  "native_prot prot =
     (let protOut = 0;
          protOut = (if bit prot 0 then protOut OR 1 else protOut);
          protOut = (if bit prot 1 then protOut OR 2 else protOut);
          protOut = (if bit prot 2 then protOut OR 4 else protOut)
      in protOut)"

definition seg_prot :: "segment \<Rightarrow> nat" where
  "seg_prot seg =
     (let maxp = native_prot (maxprot seg); initp = native_prot (initprot seg)
      in if bit initp 2 then maxp else initp)"

datatype ld_stop =
    Cannot_Open | Unexpected_Type | Bad_Commands | Cannot_Reserve | Cannot_Map string | Nested_Dylinker
  | Dylinker_Path_Too_Long | Uninitialised_Path | No_Architecture | Reexec32 | Unknown_Format
  | No_Commpage | No_Stack | No_Socket | No_Lifetime_Pipe | No_Checkin | No_Vchroot

record load_state =
  st_lr :: load_results
  st_vm :: vm
  st_mapped_header :: nat
  st_entry :: nat

definition addr64 :: "nat \<Rightarrow> nat" where
  "addr64 a = a mod 2 ^ 64"

text \<open>A failed mapping is accepted for the segment at 0 without access.\<close>

definition mapped_or_pagezero :: "segment \<Rightarrow> bool \<times> vm \<Rightarrow> ld_stop + vm" where
  "mapped_or_pagezero seg r =
     (if fst r \<or> (vmaddr seg = 0 \<and> seg_prot seg = 0) then Inr (snd r) else Inl (Cannot_Map (segname seg)))"

definition map_zero_fill :: "os \<Rightarrow> nat \<Rightarrow> segment \<Rightarrow> vm \<Rightarrow> ld_stop + vm" where
  "map_zero_fill os slide seg s =
     (if filesize seg < vmsize seg then
        mapped_or_pagezero seg
          (if slide \<noteq> 0 then
             compatible_mmap os (if vmaddr seg \<noteq> 0 then addr64 (vmaddr seg + slide) else 0) (vmsize seg)
               (seg_prot seg) MAP_FIXED_NOREPLACE None s
           else
             let sz = vmsize seg - filesize seg
             in compatible_mmap os (PAGE_ALIGN (addr64 (vmaddr seg + vmsize seg - sz))) (PAGE_ROUNDUP sz)
                  (seg_prot seg) MAP_FIXED_NOREPLACE None s)
      else Inr s)"

definition map_contents :: "os \<Rightarrow> string \<Rightarrow> nat \<Rightarrow> nat \<Rightarrow> segment \<Rightarrow> vm \<Rightarrow> ld_stop + vm" where
  "map_contents os path fat_offset slide seg s =
     (if filesize seg > 0 then
        mapped_or_pagezero seg
          (compatible_mmap os (addr64 (vmaddr seg + slide)) (filesize seg) (seg_prot seg)
             (if filesize seg < vmsize seg then MAP_FIXED else MAP_FIXED_NOREPLACE)
             (Some (path, fileoff seg + fat_offset)) s)
      else Inr s)"

fun all_image_info :: "nat \<Rightarrow> macho_section list \<Rightarrow> load_results \<Rightarrow> load_results" where
  "all_image_info slide [] lr = lr"
| "all_image_info slide (sect # sects) lr =
     (if take 16 (sectname sect) = ''__all_image_info''
      then lr\<lparr>dyld_all_image_location := addr64 (slide + sect_addr sect), dyld_all_image_size := sect_size sect\<rparr>
      else all_image_info slide sects lr)"

definition map_segment :: "os \<Rightarrow> string \<Rightarrow> nat \<Rightarrow> nat \<Rightarrow> segment \<Rightarrow> load_state \<Rightarrow> ld_stop + load_state" where
  "map_segment os path fat_offset slide seg st =
     res_bind (map_zero_fill os slide seg (st_vm st)) (\<lambda>s.
     res_bind (map_contents os path fat_offset slide seg s) (\<lambda>s.
     let start = addr64 (vmaddr seg + slide); stop = addr64 (vmaddr seg + slide + vmsize seg); lr = st_lr st;
         lr = (if stop > vm_addr_max lr then lr\<lparr>vm_addr_max := stop\<rparr> else lr);
         lr = (if segname seg = ''__DATA'' then all_image_info slide (sections seg) lr else lr)
     in Inr (st\<lparr>st_vm := s, st_lr := lr,
               st_mapped_header := (if filesize seg > 0 \<and> fileoff seg = 0 then start else st_mapped_header st)\<rparr>)))"

section \<open>Load commands\<close>

definition PATH_BUFFER :: nat where "PATH_BUFFER = 4096"

text \<open>
  The path of the dynamic linker; without a root path the code tests a pointer that it has
  not set.
\<close>

definition dylinker_path :: "char list \<Rightarrow> load_results \<Rightarrow> ld_stop + string" where
  "dylinker_path name lr =
     (case root_path lr of
        None \<Rightarrow> Inl Uninitialised_Path
      | Some root \<Rightarrow>
          if length name + length root > PATH_BUFFER - 1 then Inl Dylinker_Path_Too_Long
          else Inr (cstr (root @ name)))"

text \<open>
  One load command of the image \<open>m\<close>; \<open>load_dy\<close> is the call of \<open>load\<close> for the dynamic
  linker, with its path and the processor type.
\<close>

fun load_cmd ::
    "(string \<Rightarrow> u32 \<Rightarrow> load_results \<Rightarrow> vm \<Rightarrow> ld_stop + load_results \<times> vm) \<Rightarrow> os \<Rightarrow> string \<Rightarrow> nat \<Rightarrow> nat \<Rightarrow> macho \<Rightarrow>
      load_command \<Rightarrow> load_state \<Rightarrow> ld_stop + load_state" where
  "load_cmd load_dy os path fat_offset slide m (LC_SEGMENT_64 seg) st = map_segment os path fat_offset slide seg st"
| "load_cmd load_dy os path fat_offset slide m (LC_UNIXTHREAD pc) st = Inr (st\<lparr>st_entry := addr64 (pc + slide)\<rparr>)"
| "load_cmd load_dy os path fat_offset slide m (LC_LOAD_DYLINKER name) st =
     (if filetype m \<noteq> MH_EXECUTE then Inl Nested_Dylinker
      else
        res_bind (dylinker_path name (st_lr st)) (\<lambda>dpath.
        res_bind (load_dy dpath (mh_cputype m) (st_lr st) (st_vm st)) (\<lambda>(lr, s).
        Inr (st\<lparr>st_lr := lr, st_vm := s\<rparr>))))"
| "load_cmd load_dy os path fat_offset slide m (LC_MAIN stacksize) st =
     Inr (if stacksize > stack_size (st_lr st) then st\<lparr>st_lr := (st_lr st)\<lparr>stack_size := stacksize\<rparr>\<rparr> else st)"
| "load_cmd load_dy os path fat_offset slide m (LC_UUID uuid) st =
     Inr (if filetype m = MH_EXECUTE then st\<lparr>st_lr := (st_lr st)\<lparr>lr_uuid := uuid\<rparr>\<rparr> else st)"
| "load_cmd load_dy os path fat_offset slide m LC_OTHER st = Inr st"

text \<open>The loop over the commands: \<open>n\<close> are left, \<open>p\<close> is the position.\<close>

fun load_cmds ::
    "(string \<Rightarrow> u32 \<Rightarrow> load_results \<Rightarrow> vm \<Rightarrow> ld_stop + load_results \<times> vm) \<Rightarrow> os \<Rightarrow> string \<Rightarrow> nat \<Rightarrow> nat \<Rightarrow> macho \<Rightarrow>
      nat \<Rightarrow> nat \<Rightarrow> (nat \<times> load_command) list \<Rightarrow> load_state \<Rightarrow> ld_stop + load_state" where
  "load_cmds load_dy os path fat_offset slide m 0 p cs st = Inr st"
| "load_cmds load_dy os path fat_offset slide m (Suc n) p cs st =
     (if p \<ge> sizeofcmds m then Inr st
      else
        (case cs of
           [] \<Rightarrow> Inl Bad_Commands
         | (sz, lc) # cs \<Rightarrow>
             res_bind (load_cmd load_dy os path fat_offset slide m lc st) (\<lambda>st.
             load_cmds load_dy os path fat_offset slide m n (p + sz) cs st)))"

section \<open>Images\<close>

text \<open>
  The range that the segments need: the address of the first one (the largest number: none
  was seen yet) and the length up to the end of the last one.
\<close>

fun segment_range :: "nat \<Rightarrow> (nat \<times> load_command) list \<Rightarrow> nat \<Rightarrow> nat \<Rightarrow> ld_stop + nat \<times> nat" where
  "segment_range 0 cs base mmapSize = Inr (base, mmapSize)"
| "segment_range (Suc n) [] base mmapSize = Inl Bad_Commands"
| "segment_range (Suc n) ((sz, LC_SEGMENT_64 seg) # cs) base mmapSize =
     (if segname seg \<noteq> ''__PAGEZERO'' then
        let base = (if base = 2 ^ 64 - 1 then vmaddr seg else base)
        in segment_range n cs base (addr64 (vmaddr seg + vmsize seg + 2 ^ 64 - base))
      else segment_range n cs base mmapSize)"
| "segment_range (Suc n) (c # cs) base mmapSize = segment_range n cs base mmapSize"

text \<open>Where the image goes; the range is reserved and given up again.\<close>

definition place_image :: "os \<Rightarrow> macho \<Rightarrow> load_results \<Rightarrow> vm \<Rightarrow> ld_stop + nat \<times> load_results" where
  "place_image os m lr s =
     (if (filetype m = MH_EXECUTE \<and> mh_pie m) \<or> filetype m = MH_DYLINKER then
        res_bind (segment_range (ncmds m) (cmds m) (2 ^ 64 - 1) 0) (\<lambda>(base, mmapSize).
        (case pick_addr os base mmapSize s of
           None \<Rightarrow> Inl Cannot_Reserve
         | Some a \<Rightarrow>
             let e = addr64 (a + mmapSize);
                 lr = (if e > vm_addr_max lr then lr\<lparr>vm_addr_max := e, lr_base := e\<rparr> else lr)
             in Inr (addr64 (a + 2 ^ 64 - base), lr)))
      else Inr (0, lr))"

text \<open>What \<open>setup_space\<close> finds: limits, descriptors, and the answers of the server.\<close>

record space_env =
  commpage_addr :: nat
  commpage_at :: "nat option"
  commpage_len :: nat
  rlim_stack :: "nat option"
  rpc_socket :: "int option"
  pipe_slot :: int
  dup2_ok :: bool
  new_pipe :: "(int \<times> int) option"
  checkin_ok :: bool
  vchroot_path :: "string option"

definition setup_space :: "os \<Rightarrow> space_env \<Rightarrow> load_results \<Rightarrow> vm \<Rightarrow> ld_stop + load_results \<times> vm" where
  "setup_space os e lr s =
     (case commpage_at e of
        None \<Rightarrow> Inl No_Commpage
      | Some at \<Rightarrow>
          let s = vm_map at (commpage_len e) 3 None s;
              lr = lr\<lparr>stack_top := commpage_addr e, stack_top_aligned := commpage_addr e\<rparr>;
              sz = (case rlim_stack e of None \<Rightarrow> PAGE_SIZE * 16 | Some l \<Rightarrow> l);
              (ok, s) = compatible_mmap os (addr64 (stack_top lr + 2 ^ 64 - sz)) sz 3 MAP_FIXED_NOREPLACE None s
          in if \<not> ok then Inl No_Stack
             else
               (case rpc_socket e of
                  None \<Rightarrow> Inl No_Socket
                | Some fd \<Rightarrow>
                    let lr = lr\<lparr>kernfd := fd\<rparr> in
                    res_bind
                      (if lifetime_pipe lr \<noteq> -1 then
                         if lifetime_pipe lr \<noteq> pipe_slot e \<and> \<not> dup2_ok e then Inl No_Lifetime_Pipe else Inr (pipe_slot e)
                       else (case new_pipe e of None \<Rightarrow> Inl No_Lifetime_Pipe | Some (r, w) \<Rightarrow> Inr w)) (\<lambda>w.
                    let lr = lr\<lparr>lifetime_pipe := w\<rparr> in
                    if \<not> checkin_ok e then Inl No_Checkin
                    else if root_path lr \<noteq> None then Inr (lr, s)
                    else
                      (case vchroot_path e of
                         None \<Rightarrow> Inl No_Vchroot
                       | Some path \<Rightarrow>
                           if length path \<ge> PATH_BUFFER then Inl No_Vchroot
                           else if length path > 0 then Inr (lr\<lparr>root_path := Some path\<rparr>, s)
                           else Inr (lr, s)))))"

text \<open>
  The function of loader.c; \<open>setup\<close> is the call of \<open>setup_space\<close> for a program, which is
  not made for a dynamic linker.
\<close>

definition load64 ::
    "(string \<Rightarrow> u32 \<Rightarrow> load_results \<Rightarrow> vm \<Rightarrow> ld_stop + load_results \<times> vm) \<Rightarrow>
     (load_results \<Rightarrow> vm \<Rightarrow> ld_stop + load_results \<times> vm) \<Rightarrow>
     os \<Rightarrow> string \<Rightarrow> nat \<Rightarrow> macho \<Rightarrow> bool \<Rightarrow> load_results \<Rightarrow> vm \<Rightarrow> ld_stop + load_results \<times> vm" where
  "load64 load_dy setup os path fat_offset m expect_dylinker lr s =
     res_bind (if expect_dylinker then Inr (lr, s) else setup lr s) (\<lambda>(lr, s).
     if filetype m \<noteq> (if expect_dylinker then MH_DYLINKER else MH_EXECUTE) then Inl Unexpected_Type
     else
       res_bind (place_image os m lr s) (\<lambda>(slide, lr).
       res_bind (load_cmds load_dy os path fat_offset slide m (ncmds m) 0 (cmds m)
                   \<lparr>st_lr = lr, st_vm = s, st_mapped_header = 0, st_entry = 0\<rparr>) (\<lambda>st.
       let lr = st_lr st;
           lr = (if filetype m = MH_EXECUTE then lr\<lparr>lr_mh := st_mapped_header st\<rparr> else lr);
           lr = (if st_entry st \<noteq> 0 \<and> entry_point lr = 0 then lr\<lparr>entry_point := st_entry st\<rparr> else lr)
       in Inr (lr, st_vm st))))"

section \<open>Files\<close>

text \<open>
  A file by its magic number. A fat file has its architectures as they stand in the file
  (swapped or not) and the images by their offsets.
\<close>

datatype macho_file =
    File64 macho
  | File32
  | FatFile bool "fat_arch list" "nat \<Rightarrow> macho option"
  | OtherFile

definition load_fat ::
    "(nat \<Rightarrow> macho \<Rightarrow> load_results \<Rightarrow> vm \<Rightarrow> ld_stop + load_results \<times> vm) \<Rightarrow> u32 \<Rightarrow> bool \<Rightarrow> fat_arch list \<Rightarrow>
      (nat \<Rightarrow> macho option) \<Rightarrow> load_results \<Rightarrow> vm \<Rightarrow> ld_stop + load_results \<times> vm" where
  "load_fat l64 forced_arch swap archs images lr s =
     (case best_arch forced_arch (bprefs lr) (map (swap_arch swap) archs) of
        None \<Rightarrow> Inl No_Architecture
      | Some a \<Rightarrow>
          if cputype a AND 0x01000000 \<noteq> 0 then
            (case images (unat (arch_offset a)) of
               None \<Rightarrow> Inl Bad_Commands
             | Some m \<Rightarrow> l64 (unat (arch_offset a)) m lr s)
          else Inl Reexec32)"

definition load_file ::
    "(string \<Rightarrow> nat \<Rightarrow> macho \<Rightarrow> load_results \<Rightarrow> vm \<Rightarrow> ld_stop + load_results \<times> vm) \<Rightarrow> (string \<Rightarrow> macho_file option) \<Rightarrow>
      string \<Rightarrow> u32 \<Rightarrow> load_results \<Rightarrow> vm \<Rightarrow> ld_stop + load_results \<times> vm" where
  "load_file l64 fs path forced_arch lr s =
     (case fs path of
        None \<Rightarrow> Inl Cannot_Open
      | Some (File64 m) \<Rightarrow> l64 path 0 m lr s
      | Some File32 \<Rightarrow> Inl Reexec32
      | Some (FatFile swap archs images) \<Rightarrow> load_fat (l64 path) forced_arch swap archs images lr s
      | Some OtherFile \<Rightarrow> Inl Unknown_Format)"

text \<open>\<open>load\<close> for the dynamic linker (which cannot load another one), and for the program.\<close>

definition load_dylinker ::
    "os \<Rightarrow> (string \<Rightarrow> macho_file option) \<Rightarrow> string \<Rightarrow> u32 \<Rightarrow> load_results \<Rightarrow> vm \<Rightarrow> ld_stop + load_results \<times> vm" where
  "load_dylinker os fs path cpu lr s =
     load_file (\<lambda>path off m. load64 (\<lambda>_ _ _ _. Inl Nested_Dylinker) (\<lambda>_ _. Inl Unexpected_Type) os path off m True)
       fs path cpu lr s"

definition load_program ::
    "os \<Rightarrow> space_env \<Rightarrow> (string \<Rightarrow> macho_file option) \<Rightarrow> string \<Rightarrow> load_results \<Rightarrow> vm \<Rightarrow> ld_stop + load_results \<times> vm" where
  "load_program os e fs path lr s =
     load_file (\<lambda>path off m. load64 (load_dylinker os fs) (setup_space os e) os path off m False) fs path 0 lr s"

section \<open>Pages\<close>

lemma page_size [simp]: "PAGE_SIZE = 4096"
  by (simp add: PAGE_SIZE_def)

lemma pages_aligned:
  assumes "addr mod 4096 = 0" and "len mod 4096 = 0"
  shows "pages addr len p \<longleftrightarrow> addr div 4096 \<le> p \<and> p < addr div 4096 + len div 4096"
proof -
  from assms obtain k n where "addr = 4096 * k" "len = 4096 * n" by (metis mod_0_imp_dvd dvdE)
  then have "(addr + len + PAGE_SIZE - 1) div PAGE_SIZE = k + n" by simp
  then show ?thesis using \<open>addr = 4096 * k\<close> \<open>len = 4096 * n\<close> by (simp add: pages_def)
qed

lemma vm_free_iff: "vm_free addr len s \<longleftrightarrow> (\<forall>p. pages addr len p \<longrightarrow> s p = None)"
  by (auto simp: vm_free_def pages_def list_all_iff)

lemma PAGE_ALIGN_id: "x mod 4096 = 0 \<Longrightarrow> PAGE_ALIGN x = x"
  by (auto simp: PAGE_ALIGN_def dvd_div_mult_self mod_eq_0_iff_dvd)

lemma PAGE_ROUNDUP_id:
  assumes "x mod 4096 = 0" and "0 < x"
  shows "PAGE_ROUNDUP x = x"
proof -
  from assms(1) obtain n where x: "x = 4096 * n" by auto
  with assms(2) obtain k where n: "n = Suc k" by (cases n) auto
  have "(4096 * Suc k - 1) div 4096 = k" by simp
  with x n show ?thesis by (simp add: PAGE_ROUNDUP_def)
qed

lemma aligned_add: "x mod 4096 = 0 \<Longrightarrow> y mod 4096 = 0 \<Longrightarrow> (x + y) mod 4096 = (0 :: nat)"
  by (simp add: mod_eq_0_iff_dvd)

lemma aligned_diff: "x mod 4096 = 0 \<Longrightarrow> y mod 4096 = 0 \<Longrightarrow> (x - y) mod 4096 = (0 :: nat)"
  by (simp add: mod_eq_0_iff_dvd)

section \<open>Mapping one segment\<close>

definition seg_ok :: "segment \<Rightarrow> bool" where
  "seg_ok seg \<longleftrightarrow> vmaddr seg mod 4096 = 0 \<and> vmsize seg mod 4096 = 0 \<and> filesize seg mod 4096 = 0 \<and>
     fileoff seg mod 4096 = 0 \<and> filesize seg \<le> vmsize seg \<and> 0 < vmsize seg \<and> (vmaddr seg = 0 \<longrightarrow> filesize seg = vmsize seg)"

text \<open>The pages that a segment should have at the address \<open>addr\<close>.\<close>

definition seg_vm :: "string \<Rightarrow> nat \<Rightarrow> nat \<Rightarrow> segment \<Rightarrow> vm \<Rightarrow> vm" where
  "seg_vm path off addr seg s p =
     (if pages addr (vmsize seg) p
      then Some (seg_prot seg,
             if p - addr div 4096 < filesize seg div 4096
             then FilePage path (fileoff seg + off + (p - addr div 4096) * 4096) else Anon)
      else s p)"

definition slide_to :: "nat \<Rightarrow> nat \<Rightarrow> nat" where
  "slide_to a base = addr64 (a + 2 ^ 64 - base)"

lemma slide_addr:
  assumes "base \<le> v" and "a + (v - base) < 2 ^ 64" and "base < 2 ^ 64"
  shows "addr64 (v + slide_to a base) = a + (v - base)"
proof -
  have "addr64 (v + slide_to a base) = (v + (a + 2 ^ 64 - base)) mod 2 ^ 64"
    by (simp add: addr64_def slide_to_def mod_simps)
  also have "v + (a + 2 ^ 64 - base) = (a + (v - base)) + 2 ^ 64" using assms(1,3) by simp
  finally show ?thesis using assms(2) by simp
qed

lemma slide_zero:
  assumes "slide_to a base = 0" and "a < 2 ^ 64" and "base < 2 ^ 64"
  shows "a = base"
proof (rule ccontr)
  assume "a \<noteq> base"
  show False
  proof (cases "a < base")
    case True
    then have "(a + 2 ^ 64 - base) mod 2 ^ 64 = a + 2 ^ 64 - base" by (intro mod_less) simp
    with assms True show False by (simp add: slide_to_def addr64_def)
  next
    case False
    then have eq: "a + 2 ^ 64 - base = (a - base) + 2 ^ 64" by simp
    have "slide_to a base = (a - base) mod 2 ^ 64" unfolding slide_to_def addr64_def eq by (rule mod_add_self2)
    moreover have "(a - base) mod 2 ^ 64 = a - base" using assms(2) by (intro mod_less) simp
    ultimately show False using assms(1) False \<open>a \<noteq> base\<close> by simp
  qed
qed

lemma compatible_mmap_ok:
  assumes "knows_noreplace os" and "addr mod 4096 = 0" and "0 < len" and "min_addr os \<le> addr"
    and "case file of None \<Rightarrow> True | Some (f, off) \<Rightarrow> off mod 4096 = 0"
    and "flag = MAP_FIXED_NOREPLACE \<Longrightarrow> vm_free addr len s"
  shows "compatible_mmap os addr len prot flag file s = (True, vm_map addr len prot file s)"
  using assms by (auto simp: compatible_mmap_def mmap_at_def split: option.splits prod.splits)

lemma vm_free_sub:
  assumes "vm_free addr len s" and "addr \<le> addr'" and "addr' + len' \<le> addr + len"
  shows "vm_free addr' len' s"
proof -
  have "pages addr len p" if "pages addr' len' p" for p
  proof -
    have "addr div 4096 \<le> addr' div 4096" using assms(2) by (rule div_le_mono)
    moreover have "(addr' + len' + 4096 - 1) div 4096 \<le> (addr + len + 4096 - 1) div 4096"
      using assms(3) by (intro div_le_mono) simp
    ultimately show ?thesis using that unfolding pages_def page_size by linarith
  qed
  with assms(1) show ?thesis by (simp add: vm_free_iff)
qed

lemma map_zero_fill_ok:
  assumes os: "knows_noreplace os" and seg: "seg_ok seg" and base: "base \<le> vmaddr seg" "base < 2 ^ 64"
    and pos: "pos = a + (vmaddr seg - base)" "pos + vmsize seg < 2 ^ 64"
    and a: "a mod 4096 = 0" "base mod 4096 = 0" "min_addr os \<le> a" and free: "vm_free pos (vmsize seg) s"
  shows "map_zero_fill os (slide_to a base) seg s =
    Inr (if filesize seg = vmsize seg then s
         else if slide_to a base \<noteq> 0 then vm_map pos (vmsize seg) (seg_prot seg) None s
         else vm_map (pos + filesize seg) (vmsize seg - filesize seg) (seg_prot seg) None s)"
proof (cases "filesize seg = vmsize seg")
  case True
  then show ?thesis by (simp add: map_zero_fill_def)
next
  case False
  with seg have f: "filesize seg < vmsize seg" "vmaddr seg \<noteq> 0" by (auto simp: seg_ok_def)
  have aligned: "pos mod 4096 = 0"
    using seg a unfolding pos(1) by (simp add: seg_ok_def aligned_add aligned_diff)
  have addr: "addr64 (vmaddr seg + slide_to a base) = pos"
    unfolding pos(1) by (rule slide_addr) (use base pos in simp_all)
  have min: "min_addr os \<le> pos" using a(3) by (simp add: pos(1))
  show ?thesis
  proof (cases "slide_to a base = 0")
    case True
    have "a = base" by (rule slide_zero [OF True]) (use pos base in simp_all)
    then have pv: "pos = vmaddr seg" using pos(1) base(1) by simp
    have sz: "(vmsize seg - filesize seg) mod 4096 = 0" "0 < vmsize seg - filesize seg"
      using seg f(1) by (simp_all add: seg_ok_def aligned_diff)
    have endp: "(pos + filesize seg) mod 4096 = 0" using aligned seg by (simp add: seg_ok_def aligned_add)
    have "addr64 (vmaddr seg + vmsize seg - (vmsize seg - filesize seg)) = pos + filesize seg"
      using f(1) pos(2) by (simp add: addr64_def pv)
    then have "PAGE_ALIGN (addr64 (vmaddr seg + vmsize seg - (vmsize seg - filesize seg))) = pos + filesize seg"
      using endp by (simp add: PAGE_ALIGN_id)
    moreover note PAGE_ROUNDUP_id [OF sz] endp
    moreover have "vm_free (pos + filesize seg) (vmsize seg - filesize seg) s"
      by (rule vm_free_sub [OF free]) (use f in simp_all)
    ultimately show ?thesis using True f sz(2) min os
      by (simp add: map_zero_fill_def compatible_mmap_ok mapped_or_pagezero_def)
  next
    case slide: False
    with f addr aligned min free os seg show ?thesis
      by (simp add: map_zero_fill_def compatible_mmap_ok mapped_or_pagezero_def seg_ok_def)
  qed
qed

definition seg_placed :: "os \<Rightarrow> nat \<Rightarrow> nat \<Rightarrow> segment \<Rightarrow> bool" where
  "seg_placed os a base seg \<longleftrightarrow> seg_ok seg \<and> base \<le> vmaddr seg \<and> base < 2 ^ 64 \<and>
     a + (vmaddr seg - base) + vmsize seg < 2 ^ 64 \<and> a mod 4096 = 0 \<and> base mod 4096 = 0 \<and> min_addr os \<le> a"

definition seg_pos :: "nat \<Rightarrow> nat \<Rightarrow> segment \<Rightarrow> nat" where
  "seg_pos a base seg = a + (vmaddr seg - base)"

lemma seg_pos_aligned: "seg_placed os a base seg \<Longrightarrow> seg_pos a base seg mod 4096 = 0"
  by (simp add: seg_placed_def seg_ok_def seg_pos_def aligned_add aligned_diff)

lemma seg_vm_maps:
  assumes "pos mod 4096 = 0" and "seg_ok seg" and "0 < filesize seg"
  shows "vm_map pos (filesize seg) (seg_prot seg) (Some (path, fileoff seg + off))
      (if filesize seg = vmsize seg then s
       else if b then vm_map pos (vmsize seg) (seg_prot seg) None s
       else vm_map (pos + filesize seg) (vmsize seg - filesize seg) (seg_prot seg) None s) =
    seg_vm path off pos seg s"
proof
  fix p
  have al: "filesize seg mod 4096 = 0" "vmsize seg mod 4096 = 0" "filesize seg \<le> vmsize seg"
    using assms(2) by (simp_all add: seg_ok_def)
  then have al': "(pos + filesize seg) mod 4096 = 0" "(vmsize seg - filesize seg) mod 4096 = 0"
    using assms(1) by (simp_all add: aligned_add aligned_diff)
  have div: "(pos + filesize seg) div 4096 = pos div 4096 + filesize seg div 4096"
    "(vmsize seg - filesize seg) div 4096 = vmsize seg div 4096 - filesize seg div 4096"
    using assms(1) al by (auto elim!: dvdE simp: mod_eq_0_iff_dvd simp flip: diff_mult_distrib2)
  have le: "filesize seg div 4096 \<le> vmsize seg div 4096" using al(3) by (rule div_le_mono)
  note P = pages_aligned [OF assms(1) al(1), of p] pages_aligned [OF assms(1) al(2), of p]
    pages_aligned [OF al'(1,2), of p]
  show "vm_map pos (filesize seg) (seg_prot seg) (Some (path, fileoff seg + off))
      (if filesize seg = vmsize seg then s
       else if b then vm_map pos (vmsize seg) (seg_prot seg) None s
       else vm_map (pos + filesize seg) (vmsize seg - filesize seg) (seg_prot seg) None s) p =
    seg_vm path off pos seg s p"
    using le by (cases "filesize seg = vmsize seg"; cases b) (auto simp: seg_vm_def vm_map_def P div)
qed

lemma seg_vm_zero:
  assumes "pos mod 4096 = 0" and "seg_ok seg" and "filesize seg = 0"
  shows "(if b then vm_map pos (vmsize seg) (seg_prot seg) None s
       else vm_map (pos + filesize seg) (vmsize seg - filesize seg) (seg_prot seg) None s) =
    seg_vm path off pos seg s"
  using assms(3) by (auto simp: fun_eq_iff seg_vm_def vm_map_def)

lemma map_segment_ok:
  assumes os: "knows_noreplace os" and seg: "seg_placed os a base seg" and off: "off mod 4096 = 0"
    and free: "vm_free (seg_pos a base seg) (vmsize seg) (st_vm st)"
  shows "\<exists>lr'. map_segment os path off (slide_to a base) seg st =
      Inr (st\<lparr>st_vm := seg_vm path off (seg_pos a base seg) seg (st_vm st), st_lr := lr',
        st_mapped_header := (if filesize seg > 0 \<and> fileoff seg = 0 then seg_pos a base seg else st_mapped_header st)\<rparr>) \<and>
    root_path lr' = root_path (st_lr st)"
proof -
  let ?pos = "seg_pos a base seg"
  from seg have P: "seg_ok seg" "base \<le> vmaddr seg" "base < 2 ^ 64" "?pos + vmsize seg < 2 ^ 64"
    "a mod 4096 = 0" "base mod 4096 = 0" "min_addr os \<le> a"
    unfolding seg_placed_def seg_pos_def by blast+
  note al = seg_pos_aligned [OF seg]
  have zero: "map_zero_fill os (slide_to a base) seg (st_vm st) = Inr (if filesize seg = vmsize seg then st_vm st
         else if slide_to a base \<noteq> 0 then vm_map ?pos (vmsize seg) (seg_prot seg) None (st_vm st)
         else vm_map (?pos + filesize seg) (vmsize seg - filesize seg) (seg_prot seg) None (st_vm st))" (is "_ = Inr ?s1")
    by (rule map_zero_fill_ok [OF os P(1,2,3) seg_pos_def P(4,5,6,7) free])
  have addr: "addr64 (vmaddr seg + slide_to a base) = ?pos"
    unfolding seg_pos_def by (rule slide_addr) (use P(2,3,4) seg_pos_def [of a base seg] in simp_all)
  have cont: "map_contents os path off (slide_to a base) seg ?s1 = Inr (seg_vm path off ?pos seg (st_vm st))"
  proof (cases "filesize seg = 0")
    case True
    with P(1) seg_vm_zero [OF al P(1) True] show ?thesis by (simp add: map_contents_def seg_ok_def)
  next
    case False
    have "min_addr os \<le> ?pos" using P(7) by (simp add: seg_pos_def)
    moreover have "vm_free ?pos (filesize seg) ?s1" if "filesize seg = vmsize seg" using that free by simp
    moreover have "(fileoff seg + off) mod 4096 = 0" using P(1) off by (simp add: seg_ok_def aligned_add)
    ultimately have "compatible_mmap os ?pos (filesize seg) (seg_prot seg)
        (if filesize seg < vmsize seg then MAP_FIXED else MAP_FIXED_NOREPLACE) (Some (path, fileoff seg + off)) ?s1 =
        (True, vm_map ?pos (filesize seg) (seg_prot seg) (Some (path, fileoff seg + off)) ?s1)"
      using os al False P(1) by (intro compatible_mmap_ok) (auto simp: seg_ok_def split: if_splits)
    with False seg_vm_maps [OF al P(1), of path off "st_vm st" "slide_to a base \<noteq> 0"] show ?thesis
      by (simp add: map_contents_def addr mapped_or_pagezero_def)
  qed
  have sect: "root_path (all_image_info slide sects lr) = root_path lr" for slide sects lr
    by (induction sects) simp_all
  define stop where "stop = addr64 (vmaddr seg + slide_to a base + vmsize seg)"
  define lr1 where "lr1 = (if stop > vm_addr_max (st_lr st) then (st_lr st)\<lparr>vm_addr_max := stop\<rparr> else st_lr st)"
  define lr2 where "lr2 = (if segname seg = ''__DATA'' then all_image_info (slide_to a base) (sections seg) lr1 else lr1)"
  have "map_segment os path off (slide_to a base) seg st =
      Inr (st\<lparr>st_vm := seg_vm path off ?pos seg (st_vm st), st_lr := lr2,
        st_mapped_header := (if filesize seg > 0 \<and> fileoff seg = 0 then ?pos else st_mapped_header st)\<rparr>)"
    unfolding map_segment_def lr2_def lr1_def stop_def by (simp only: zero cont addr res_bind_simps Let_def)
  moreover have "root_path lr2 = root_path (st_lr st)" by (simp add: lr2_def lr1_def sect)
  ultimately show ?thesis by blast
qed

section \<open>Mapping an image\<close>

fun segs_of :: "(nat \<times> load_command) list \<Rightarrow> segment list" where
  "segs_of [] = []"
| "segs_of ((sz, LC_SEGMENT_64 seg) # cs) = seg # segs_of cs"
| "segs_of (c # cs) = segs_of cs"

definition real_segs :: "(nat \<times> load_command) list \<Rightarrow> segment list" where
  "real_segs cs = filter (\<lambda>seg. segname seg \<noteq> ''__PAGEZERO'') (segs_of cs)"

definition no_dylinker :: "(nat \<times> load_command) list \<Rightarrow> bool" where
  "no_dylinker cs \<longleftrightarrow> (\<forall>name. LC_LOAD_DYLINKER name \<notin> snd ` set cs)"

definition pagezero_ok :: "segment \<Rightarrow> bool" where
  "pagezero_ok seg \<longleftrightarrow> vmaddr seg = 0 \<and> filesize seg = 0 \<and> seg_prot seg = 0"

lemma map_pagezero:
  assumes "knows_noreplace os" and "0 < min_addr os" and "pagezero_ok seg"
  shows "\<exists>lr'. map_segment os path off slide seg st = Inr (st\<lparr>st_lr := lr'\<rparr>) \<and> root_path lr' = root_path (st_lr st)"
proof -
  have fail: "compatible_mmap os 0 len prot MAP_FIXED_NOREPLACE None s = (False, s)" for len prot s
    using assms(1,2) by (simp add: compatible_mmap_def mmap_at_def)
  have sect: "root_path (all_image_info slide sects lr) = root_path lr" for slide sects lr
    by (induction sects) simp_all
  define stop where "stop = addr64 (vmaddr seg + slide + vmsize seg)"
  define lr1 where "lr1 = (if stop > vm_addr_max (st_lr st) then (st_lr st)\<lparr>vm_addr_max := stop\<rparr> else st_lr st)"
  define lr2 where "lr2 = (if segname seg = ''__DATA'' then all_image_info slide (sections seg) lr1 else lr1)"
  have "map_zero_fill os slide seg (st_vm st) = Inr (st_vm st)"
    using assms(3) by (auto simp: map_zero_fill_def pagezero_ok_def mapped_or_pagezero_def fail addr64_def PAGE_ALIGN_def)
  moreover have "map_contents os path off slide seg (st_vm st) = Inr (st_vm st)"
    using assms(3) by (simp add: map_contents_def pagezero_ok_def)
  ultimately have "map_segment os path off slide seg st = Inr (st\<lparr>st_lr := lr2\<rparr>)"
    using assms(3) by (simp add: map_segment_def lr2_def lr1_def stop_def Let_def pagezero_ok_def)
  moreover have "root_path lr2 = root_path (st_lr st)" by (simp add: lr2_def lr1_def sect)
  ultimately show ?thesis by blast
qed

lemma seg_disjoint:
  assumes "seg_placed os a base seg" and "seg_placed os a base t" and "vmaddr seg + vmsize seg \<le> vmaddr t"
    and "pages (seg_pos a base t) (vmsize t) p"
  shows "\<not> pages (seg_pos a base seg) (vmsize seg) p"
proof -
  have al: "vmsize seg mod 4096 = 0" "vmsize t mod 4096 = 0"
    using assms(1,2) by (simp_all add: seg_placed_def seg_ok_def)
  have "seg_pos a base seg + vmsize seg \<le> seg_pos a base t"
    using assms(1,2,3) by (auto simp: seg_pos_def seg_placed_def)
  then have "(seg_pos a base seg + vmsize seg) div 4096 \<le> seg_pos a base t div 4096" by (rule div_le_mono)
  moreover have "(seg_pos a base seg + vmsize seg) div 4096 = seg_pos a base seg div 4096 + vmsize seg div 4096"
    using seg_pos_aligned [OF assms(1)] by (metis add.commute al(1) div_add dvd_eq_mod_eq_0)
  ultimately show ?thesis
    using assms(4) pages_aligned [OF seg_pos_aligned [OF assms(1)] al(1), of p]
      pages_aligned [OF seg_pos_aligned [OF assms(2)] al(2), of p] by linarith
qed

lemma seg_vm_free:
  assumes "seg_placed os a base seg" and "seg_placed os a base t" and "vmaddr seg + vmsize seg \<le> vmaddr t"
    and "vm_free (seg_pos a base t) (vmsize t) s"
  shows "vm_free (seg_pos a base t) (vmsize t) (seg_vm path off (seg_pos a base seg) seg s)"
  using assms(4) seg_disjoint [OF assms(1-3)] by (auto simp: vm_free_iff seg_vm_def)

primrec cmds_fold :: "(load_command \<Rightarrow> load_state \<Rightarrow> ld_stop + load_state) \<Rightarrow> (nat \<times> load_command) list \<Rightarrow>
    load_state \<Rightarrow> ld_stop + load_state" where
  "cmds_fold f [] st = Inr st"
| "cmds_fold f (c # cs) st = res_bind (f (snd c) st) (cmds_fold f cs)"

lemma cmds_fold_append: "cmds_fold f (cs @ cs') st = res_bind (cmds_fold f cs st) (cmds_fold f cs')"
proof (induction cs arbitrary: st)
  case (Cons c cs)
  then show ?case by (cases "f (snd c) st") simp_all
qed simp

lemma load_cmds_fold:
  assumes "\<forall>c \<in> set cs. 0 < fst c" and "p + sum_list (map fst cs) = sizeofcmds m"
  shows "load_cmds load_dy os path off slide m (length cs) p cs st =
    cmds_fold (load_cmd load_dy os path off slide m) cs st"
  using assms
proof (induction cs arbitrary: p st)
  case Nil
  then show ?case by simp
next
  case (Cons c cs)
  obtain sz lc where c: "c = (sz, lc)" by (cases c)
  from Cons.prems c have "p < sizeofcmds m" "p + sz + sum_list (map fst cs) = sizeofcmds m"
    "\<forall>c \<in> set cs. 0 < fst c" by auto
  with Cons.IH [of "p + sz"] c show ?case
    by (cases "load_cmd load_dy os path off slide m lc st") simp_all
qed

text \<open>The header address that the loop leaves.\<close>

definition header_pos :: "nat \<Rightarrow> nat \<Rightarrow> segment \<Rightarrow> nat \<Rightarrow> nat" where
  "header_pos a base seg h = (if filesize seg > 0 \<and> fileoff seg = 0 then seg_pos a base seg else h)"

definition segs_placed :: "os \<Rightarrow> nat \<Rightarrow> nat \<Rightarrow> (nat \<times> load_command) list \<Rightarrow> bool" where
  "segs_placed os a base cs \<longleftrightarrow>
     (\<forall>seg \<in> set (segs_of cs). if segname seg = ''__PAGEZERO'' then pagezero_ok seg else seg_placed os a base seg) \<and>
     sorted_wrt (\<lambda>s t. vmaddr s + vmsize s \<le> vmaddr t) (real_segs cs)"

lemma cmds_fold_segments:
  assumes os: "knows_noreplace os" "0 < min_addr os" and off: "off mod 4096 = 0"
    and "segs_placed os a base cs" and "no_dylinker cs"
    and "\<forall>seg \<in> set (real_segs cs). vm_free (seg_pos a base seg) (vmsize seg) (st_vm st)"
  shows "\<exists>st'. cmds_fold (load_cmd load_dy os path off (slide_to a base) m) cs st = Inr st' \<and>
    st_vm st' = fold (\<lambda>seg. seg_vm path off (seg_pos a base seg) seg) (real_segs cs) (st_vm st) \<and>
    st_mapped_header st' = fold (header_pos a base) (real_segs cs) (st_mapped_header st) \<and>
    root_path (st_lr st') = root_path (st_lr st)"
  using assms(4-6)
proof (induction cs arbitrary: st)
  case Nil
  then show ?case by (simp add: real_segs_def)
next
  case (Cons c cs)
  obtain sz lc where c: "c = (sz, lc)" by (cases c)
  have nd: "no_dylinker cs" using Cons.prems(2) by (auto simp: no_dylinker_def)
  show ?case
  proof (cases "\<exists>seg. lc = LC_SEGMENT_64 seg")
    case False
    have same: "segs_of (c # cs) = segs_of cs" using False c by (cases lc) auto
    then have "segs_placed os a base cs" "real_segs (c # cs) = real_segs cs"
      using Cons.prems(1) by (simp_all add: segs_placed_def real_segs_def)
    moreover have "\<exists>st1. load_cmd load_dy os path off (slide_to a base) m lc st = Inr st1 \<and> st_vm st1 = st_vm st \<and>
        st_mapped_header st1 = st_mapped_header st \<and> root_path (st_lr st1) = root_path (st_lr st)"
      using False Cons.prems(2) c by (cases lc) (auto simp: no_dylinker_def)
    then obtain st1 where "load_cmd load_dy os path off (slide_to a base) m lc st = Inr st1" "st_vm st1 = st_vm st"
      "st_mapped_header st1 = st_mapped_header st" "root_path (st_lr st1) = root_path (st_lr st)" by blast
    ultimately show ?thesis using Cons.IH [of st1] nd Cons.prems(3) c by simp
  next
    case True
    then obtain seg where lc: "lc = LC_SEGMENT_64 seg" by blast
    show ?thesis
    proof (cases "segname seg = ''__PAGEZERO''")
      case True
      with Cons.prems(1) c lc have "pagezero_ok seg" "segs_placed os a base cs" "real_segs (c # cs) = real_segs cs"
        by (simp_all add: segs_placed_def real_segs_def)
      moreover from map_pagezero [OF os this(1), of path off "slide_to a base" st] obtain lr' where
        "map_segment os path off (slide_to a base) seg st = Inr (st\<lparr>st_lr := lr'\<rparr>)"
        "root_path lr' = root_path (st_lr st)" by blast
      ultimately show ?thesis using Cons.IH [of "st\<lparr>st_lr := lr'\<rparr>"] nd Cons.prems(3) c lc by simp
    next
      case False
      with Cons.prems(1) c lc have P: "seg_placed os a base seg" "segs_placed os a base cs"
        "real_segs (c # cs) = seg # real_segs cs" "\<forall>t \<in> set (real_segs cs). vmaddr seg + vmsize seg \<le> vmaddr t"
        by (simp_all add: segs_placed_def real_segs_def)
      have placed: "seg_placed os a base t" if "t \<in> set (real_segs cs)" for t
        using that P(2) by (auto simp: segs_placed_def real_segs_def)
      have free: "vm_free (seg_pos a base seg) (vmsize seg) (st_vm st)" using Cons.prems(3) P(3) by simp
      from map_segment_ok [OF os(1) P(1) off free, of path] obtain lr' where
        "map_segment os path off (slide_to a base) seg st =
          Inr (st\<lparr>st_vm := seg_vm path off (seg_pos a base seg) seg (st_vm st), st_lr := lr',
            st_mapped_header := header_pos a base seg (st_mapped_header st)\<rparr>)" (is "_ = Inr ?st1")
        "root_path lr' = root_path (st_lr st)" unfolding header_pos_def by blast
      moreover have "\<forall>t \<in> set (real_segs cs). vm_free (seg_pos a base t) (vmsize t) (st_vm ?st1)"
        using P(1,4) placed Cons.prems(3) unfolding P(3) by (auto intro: seg_vm_free)
      ultimately show ?thesis using Cons.IH [of ?st1] P(2,3) nd c lc by simp
    qed
  qed
qed

lemma fold_seg_vm:
  assumes "\<forall>seg \<in> set segs. seg_placed os a base seg"
    and "sorted_wrt (\<lambda>s t. vmaddr s + vmsize s \<le> vmaddr t) segs"
  shows "(\<forall>seg \<in> set segs. \<not> pages (seg_pos a base seg) (vmsize seg) p) \<Longrightarrow>
      fold (\<lambda>seg. seg_vm path off (seg_pos a base seg) seg) segs s p = s p"
    and "seg \<in> set segs \<Longrightarrow> pages (seg_pos a base seg) (vmsize seg) p \<Longrightarrow>
      fold (\<lambda>seg. seg_vm path off (seg_pos a base seg) seg) segs s p = seg_vm path off (seg_pos a base seg) seg (\<lambda>_. None) p"
  using assms
proof (induction segs arbitrary: s)
  case Nil
  {
    case 1
    show ?case by simp
  next
    case 2
    then show ?case by simp
  }
next
  case (Cons x segs)
  {
    case 1
    with Cons.IH(1) show ?case by (simp add: seg_vm_def)
  next
    case 2
    show ?case
    proof (cases "seg \<in> set segs")
      case True
      with 2 Cons.IH(2) show ?thesis by simp
    next
      case False
      with 2 have x: "seg = x" by simp
      have "\<forall>t \<in> set segs. \<not> pages (seg_pos a base t) (vmsize t) p"
        using 2(2-4) seg_disjoint [of os a base x _ p] unfolding x by auto
      with Cons.IH(1) 2 x show ?thesis by (simp add: seg_vm_def)
    qed
  }
qed

fun range_of :: "segment list \<Rightarrow> nat \<Rightarrow> nat \<Rightarrow> nat \<times> nat" where
  "range_of [] b z = (b, z)"
| "range_of (seg # segs) b z =
     (let b = (if b = 2 ^ 64 - 1 then vmaddr seg else b)
      in range_of segs b (addr64 (vmaddr seg + vmsize seg + 2 ^ 64 - b)))"

lemma segment_range_fold: "segment_range (length cs) cs b z = Inr (range_of (real_segs cs) b z)"
proof (induction cs arbitrary: b z)
  case Nil
  show ?case by (simp add: real_segs_def)
next
  case (Cons c cs)
  obtain sz lc where "c = (sz, lc)" by (cases c)
  with Cons.IH show ?case by (cases lc) (simp_all add: real_segs_def Let_def)
qed

lemma range_of_last:
  assumes "b < 2 ^ 64 - 1" and "\<forall>seg \<in> set segs. b \<le> vmaddr seg \<and> vmaddr seg + vmsize seg < 2 ^ 64"
  shows "range_of segs b z = (b, if segs = [] then z else vmaddr (last segs) + vmsize (last segs) - b)"
  using assms(2)
proof (induction segs arbitrary: z)
  case Nil
  show ?case by simp
next
  case (Cons seg segs)
  have "addr64 (vmaddr seg + vmsize seg + 2 ^ 64 - b) = vmaddr seg + vmsize seg - b"
  proof -
    have "vmaddr seg + vmsize seg + 2 ^ 64 - b = (vmaddr seg + vmsize seg - b) + 2 ^ 64"
      using Cons.prems by simp
    moreover have "(vmaddr seg + vmsize seg - b) mod 2 ^ 64 = vmaddr seg + vmsize seg - b"
      using Cons.prems by (intro mod_less) (simp add: less_imp_diff_less)
    ultimately show ?thesis unfolding addr64_def by (simp only: mod_add_self2)
  qed
  with Cons assms(1) show ?case by (simp add: Let_def)
qed

definition image_base :: "macho \<Rightarrow> nat" where
  "image_base m = vmaddr (hd (real_segs (cmds m)))"

definition image_size :: "macho \<Rightarrow> nat" where
  "image_size m = vmaddr (last (real_segs (cmds m))) + vmsize (last (real_segs (cmds m))) - image_base m"

text \<open>
  Well-formed images: commands of the announced number and size, segments in order that do
  not overlap and consist of whole pages.
\<close>

definition wf_image :: "macho \<Rightarrow> bool" where
  "wf_image m \<longleftrightarrow> ncmds m = length (cmds m) \<and> sizeofcmds m = sum_list (map fst (cmds m)) \<and>
     (\<forall>c \<in> set (cmds m). 0 < fst c) \<and> real_segs (cmds m) \<noteq> [] \<and>
     (\<forall>seg \<in> set (segs_of (cmds m)). if segname seg = ''__PAGEZERO'' then pagezero_ok seg
        else seg_ok seg \<and> vmaddr seg + vmsize seg < 2 ^ 64 - 1) \<and>
     sorted_wrt (\<lambda>s t. vmaddr s + vmsize s \<le> vmaddr t) (real_segs (cmds m))"

lemma sorted_segs:
  assumes "sorted_wrt (\<lambda>s t. vmaddr s + vmsize s \<le> vmaddr t) segs" and "seg \<in> set segs"
  shows "vmaddr (hd segs) \<le> vmaddr seg \<and> vmaddr seg + vmsize seg \<le> vmaddr (last segs) + vmsize (last segs)"
  using assms
proof (induction segs)
  case (Cons x segs)
  show ?case
  proof (cases "segs = []")
    case False
    then have "last segs \<in> set segs" "hd segs \<in> set segs" by simp_all
    with Cons show ?thesis by (cases "seg = x") fastforce+
  qed (use Cons.prems in auto)
qed simp

lemma image_segs:
  assumes "wf_image m" and "seg \<in> set (real_segs (cmds m))"
  shows "seg_ok seg" and "image_base m \<le> vmaddr seg" and "vmaddr seg - image_base m + vmsize seg \<le> image_size m"
    and "vmaddr seg + vmsize seg < 2 ^ 64 - 1" and "image_base m < 2 ^ 64 - 1" and "image_base m mod 4096 = 0"
proof -
  let ?segs = "real_segs (cmds m)"
  have ok: "seg_ok t \<and> vmaddr t + vmsize t < 2 ^ 64 - 1" if "t \<in> set ?segs" for t
    using assms(1) that by (auto simp: wf_image_def real_segs_def)
  from ok [OF assms(2)] show "seg_ok seg" "vmaddr seg + vmsize seg < 2 ^ 64 - 1" by simp_all
  have sorted: "sorted_wrt (\<lambda>s t. vmaddr s + vmsize s \<le> vmaddr t) ?segs" using assms(1) by (simp add: wf_image_def)
  from sorted_segs [OF sorted assms(2)]
  show "image_base m \<le> vmaddr seg" "vmaddr seg - image_base m + vmsize seg \<le> image_size m"
    by (auto simp: image_base_def image_size_def)
  have "hd ?segs \<in> set ?segs" using assms(2) by (cases ?segs) simp_all
  from ok [OF this] show "image_base m < 2 ^ 64 - 1" "image_base m mod 4096 = 0"
    by (auto simp: image_base_def seg_ok_def)
qed

lemma image_range:
  assumes "wf_image m"
  shows "segment_range (ncmds m) (cmds m) (2 ^ 64 - 1) 0 = Inr (image_base m, image_size m)"
proof -
  from assms obtain seg segs where S: "real_segs (cmds m) = seg # segs"
    by (cases "real_segs (cmds m)") (auto simp: wf_image_def)
  have I: "image_base m \<le> vmaddr t" "vmaddr t + vmsize t < 2 ^ 64 - 1" if "t \<in> set (seg # segs)" for t
    using image_segs [OF assms] that unfolding S by blast+
  have b: "image_base m = vmaddr seg" by (simp add: image_base_def S)
  have "range_of (seg # segs) (2 ^ 64 - 1) 0 = range_of (seg # segs) (image_base m) 0"
    using I(2) [of seg] by (simp add: b Let_def)
  also have "\<dots> = (image_base m, image_size m)"
  proof -
    have "\<forall>t \<in> set (seg # segs). image_base m \<le> vmaddr t \<and> vmaddr t + vmsize t < 2 ^ 64"
    proof
      fix t assume "t \<in> set (seg # segs)"
      with I [OF this] show "image_base m \<le> vmaddr t \<and> vmaddr t + vmsize t < 2 ^ 64" by simp
    qed
    moreover have "image_base m < 2 ^ 64 - 1" using image_segs(5) [OF assms, of seg] by (simp add: S)
    ultimately have "range_of (seg # segs) (image_base m) 0 =
        (image_base m, if seg # segs = [] then 0
           else vmaddr (last (seg # segs)) + vmsize (last (seg # segs)) - image_base m)"
      by (intro range_of_last)
    then show ?thesis unfolding image_size_def S by simp
  qed
  finally show ?thesis using segment_range_fold [of "cmds m"] assms by (simp add: S wf_image_def)
qed

text \<open>The kernel chooses free ranges of whole pages.\<close>

definition pick_law :: "os \<Rightarrow> bool" where
  "pick_law os \<longleftrightarrow> (\<forall>h len s a. pick_addr os h len s = Some a \<longrightarrow>
     a mod 4096 = 0 \<and> min_addr os \<le> a \<and> a + len < 2 ^ 64 \<and> vm_free a len s)"

text \<open>The image stands in memory from \<open>a\<close> on.\<close>

definition image_mapped :: "string \<Rightarrow> macho \<Rightarrow> nat \<Rightarrow> vm \<Rightarrow> bool" where
  "image_mapped path m a s \<longleftrightarrow> (\<forall>seg \<in> set (real_segs (cmds m)). \<forall>k < vmsize seg div 4096.
     s (seg_pos a (image_base m) seg div 4096 + k) =
       Some (seg_prot seg, if k < filesize seg div 4096 then FilePage path (fileoff seg + k * 4096) else Anon))"

lemma image_placed:
  assumes wf: "wf_image m" and law: "pick_law os"
    and pick: "pick_addr os (image_base m) (image_size m) s = Some a"
  shows "segs_placed os a (image_base m) (cmds m)"
    and "seg \<in> set (real_segs (cmds m)) \<Longrightarrow> vm_free (seg_pos a (image_base m) seg) (vmsize seg) s"
proof -
  from law pick have A: "a mod 4096 = 0" "min_addr os \<le> a" "a + image_size m < 2 ^ 64" "vm_free a (image_size m) s"
    unfolding pick_law_def by blast+
  have "seg_placed os a (image_base m) seg" if "seg \<in> set (real_segs (cmds m))" for seg
    using image_segs [OF wf that] A(1-3) by (simp add: seg_placed_def)
  moreover have "pagezero_ok seg" if "seg \<in> set (segs_of (cmds m))" "segname seg = ''__PAGEZERO''" for seg
    using wf that by (auto simp: wf_image_def split: if_splits)
  ultimately show "segs_placed os a (image_base m) (cmds m)"
    using wf by (simp add: segs_placed_def wf_image_def real_segs_def)
  show "vm_free (seg_pos a (image_base m) seg) (vmsize seg) s" if "seg \<in> set (real_segs (cmds m))"
    by (rule vm_free_sub [OF A(4)]) (use image_segs(2,3) [OF wf that] in \<open>simp_all add: seg_pos_def\<close>)
qed

text \<open>The address space with the image added.\<close>

definition image_vm :: "string \<Rightarrow> macho \<Rightarrow> nat \<Rightarrow> vm \<Rightarrow> vm" where
  "image_vm path m a s = fold (\<lambda>seg. seg_vm path 0 (seg_pos a (image_base m) seg) seg) (real_segs (cmds m)) s"

lemma image_fold_mapped:
  assumes wf: "wf_image m" and law: "pick_law os"
    and pick: "pick_addr os (image_base m) (image_size m) s = Some a"
    and s': "s' = image_vm path m a s"
  shows "image_mapped path m a s'" and "s p \<noteq> None \<Longrightarrow> s' p = s p"
proof -
  let ?b = "image_base m"
  note placed = image_placed [OF wf law pick]
  from placed(1) have P: "\<forall>seg \<in> set (real_segs (cmds m)). seg_placed os a ?b seg"
    "sorted_wrt (\<lambda>s t. vmaddr s + vmsize s \<le> vmaddr t) (real_segs (cmds m))"
    by (auto simp: segs_placed_def real_segs_def)
  show "image_mapped path m a s'"
    unfolding image_mapped_def
  proof (intro ballI allI impI)
    fix seg k assume seg: "seg \<in> set (real_segs (cmds m))" and k: "k < vmsize seg div 4096"
    let ?p = "seg_pos a ?b seg div 4096 + k"
    have placed: "seg_placed os a ?b seg" using P(1) seg by blast
    then have "vmsize seg mod 4096 = 0" by (simp add: seg_placed_def seg_ok_def)
    with k pages_aligned [OF seg_pos_aligned [OF placed] this, of ?p]
    have "pages (seg_pos a ?b seg) (vmsize seg) ?p" by simp
    with fold_seg_vm(2) [OF P seg this, of path 0 s] show
      "s' ?p = Some (seg_prot seg, if k < filesize seg div 4096 then FilePage path (fileoff seg + k * 4096) else Anon)"
      by (simp add: s' image_vm_def seg_vm_def)
  qed
  show "s' p = s p" if "s p \<noteq> None"
  proof -
    have "\<not> pages (seg_pos a ?b seg) (vmsize seg) p" if "seg \<in> set (real_segs (cmds m))" for seg
      using placed(2) [OF that] \<open>s p \<noteq> None\<close> by (auto simp: vm_free_iff)
    then show ?thesis unfolding s' image_vm_def by (intro fold_seg_vm(1) [OF P]) blast
  qed
qed

lemma place_image_ok:
  assumes "wf_image m" and "(filetype m = MH_EXECUTE \<and> mh_pie m) \<or> filetype m = MH_DYLINKER"
    and "pick_addr os (image_base m) (image_size m) s = Some a"
  obtains lr' where "place_image os m lr s = Inr (slide_to a (image_base m), lr')" and "root_path lr' = root_path lr"
  using assms(2,3) unfolding place_image_def image_range [OF assms(1)]
  by (auto simp: slide_to_def Let_def split: if_splits)

lemma load_dylinker_ok:
  assumes os: "knows_noreplace os" "0 < min_addr os" "pick_law os"
    and md: "fs path = Some (File64 md)" "wf_image md" "filetype md = MH_DYLINKER" "no_dylinker (cmds md)"
    and pick: "pick_addr os (image_base md) (image_size md) s = Some b"
  shows "\<exists>lr'. load_dylinker os fs path cpu lr s = Inr (lr', image_vm path md b s)"
proof -
  from md(3) obtain lr1 where place: "place_image os md lr s = Inr (slide_to b (image_base md), lr1)"
    by (auto intro: place_image_ok [OF md(2) _ pick, of lr])
  let ?st = "\<lparr>st_lr = lr1, st_vm = s, st_mapped_header = 0, st_entry = 0\<rparr>"
  note placed = image_placed [OF md(2) os(3) pick]
  from placed(2) have free: "\<forall>seg \<in> set (real_segs (cmds md)). vm_free (seg_pos b (image_base md) seg) (vmsize seg) (st_vm ?st)"
    by simp
  from cmds_fold_segments [OF os(1,2) _ placed(1) md(4) free,
      of 0 "\<lambda>_ _ _ _. Inl Nested_Dylinker" path md] obtain st' where
    fold: "cmds_fold (load_cmd (\<lambda>_ _ _ _. Inl Nested_Dylinker) os path 0 (slide_to b (image_base md)) md) (cmds md) ?st = Inr st'"
    and vm: "st_vm st' = image_vm path md b s"
    by (auto simp: image_vm_def)
  have "load_cmds (\<lambda>_ _ _ _. Inl Nested_Dylinker) os path 0 (slide_to b (image_base md)) md (ncmds md) 0 (cmds md) ?st = Inr st'"
    using load_cmds_fold [of "cmds md" 0 md] md(2) fold by (simp add: wf_image_def)
  then show ?thesis
    using md(1,3) place vm by (simp add: load_dylinker_def load_file_def load64_def Let_def)
qed

lemma image_mapped_mono:
  assumes "image_mapped path m a s" and "\<And>p. s p \<noteq> None \<Longrightarrow> s' p = s p"
  shows "image_mapped path m a s'"
  using assms unfolding image_mapped_def by (metis option.distinct(1))

text \<open>
  On a kernel without MAP_FIXED_NOREPLACE the address is only a hint. When the kernel chooses
  another one, the range that was asked for is unmapped instead of the new mapping: what was
  mapped there is lost, and the new mapping stays.
\<close>

lemma compatible_mmap_old_kernel:
  assumes "\<not> knows_noreplace os" and "pick_addr os addr len s = Some r" and "r \<noteq> addr"
  shows "compatible_mmap os addr len prot MAP_FIXED_NOREPLACE file s = (False, munmap addr len (vm_map r len prot file s))"
    and "pages addr len p \<Longrightarrow> snd (compatible_mmap os addr len prot MAP_FIXED_NOREPLACE file s) p = None"
    and "pages r len p \<Longrightarrow> \<not> pages addr len p \<Longrightarrow> snd (compatible_mmap os addr len prot MAP_FIXED_NOREPLACE file s) p \<noteq> None"
  using assms by (simp_all add: compatible_mmap_def munmap_def vm_map_def Let_def)

section \<open>Properties\<close>

text \<open>C2. Loading a position independent program, when the kernel finds room for it and for its dynamic
  linker: every page of the segments of both is mapped with the segment's protection, to the
  page of the file it belongs to or, past the segment's contents, to zeros; nothing that was
  mapped before is replaced, and the header address is where the segment that starts the
  file was put. (Images are well formed; the segments precede the command that names the
  dynamic linker.)\<close>
theorem load_program_maps_images:
  assumes os: "knows_noreplace os" "0 < min_addr os" "pick_law os"
    and space: "setup_space os e lr s = Inr (lr1, s1)" "root_path lr1 = Some root"
    and m: "fs path = Some (File64 m)" "wf_image m" "filetype m = MH_EXECUTE" "mh_pie m"
      "cmds m = before @ (sz, LC_LOAD_DYLINKER name) # after" "no_dylinker before" "no_dylinker after" "segs_of after = []"
    and name: "length name + length root \<le> 4095"
    and md: "fs (cstr (root @ name)) = Some (File64 md)" "wf_image md" "filetype md = MH_DYLINKER" "no_dylinker (cmds md)"
    and pick: "pick_addr os (image_base m) (image_size m) s1 = Some a"
      "pick_addr os (image_base md) (image_size md) (image_vm path m a s1) = Some b"
  shows "\<exists>lr' s'. load_program os e fs path lr s = Inr (lr', s') \<and> image_mapped path m a s' \<and>
       image_mapped (cstr (root @ name)) md b s' \<and> (\<forall>p. s1 p \<noteq> None \<longrightarrow> s' p = s1 p) \<and>
       lr_mh lr' = fold (header_pos a (image_base m)) (real_segs (cmds m)) 0"
proof -
  let ?b = "image_base m" and ?dy = "load_dylinker os fs" and ?dpath = "cstr (root @ name)"
  let ?s2 = "image_vm path m a s1"
  let ?s3 = "image_vm ?dpath md b ?s2"
  obtain lr2 where place: "place_image os m lr1 s1 = Inr (slide_to a ?b, lr2)" and root: "root_path lr2 = Some root"
    using place_image_ok [OF m(2) _ pick(1), of lr1] m(3,4) space(2) by metis
  let ?st = "\<lparr>st_lr = lr2, st_vm = s1, st_mapped_header = 0, st_entry = 0\<rparr>"
  let ?f = "load_cmd ?dy os path 0 (slide_to a ?b) m"
  have segs: "segs_of (xs @ ys) = segs_of xs @ segs_of ys" for xs ys
    by (induction xs rule: segs_of.induct) simp_all
  have same: "segs_of (cmds m) = segs_of before" "real_segs (cmds m) = real_segs before" "real_segs after = []"
    using m(5,8) by (simp_all add: segs real_segs_def)
  note placed = image_placed [OF m(2) os(3) pick(1)]
  have placed1: "segs_placed os a ?b before" using placed(1) by (simp add: segs_placed_def same)
  have free: "\<forall>seg \<in> set (real_segs before). vm_free (seg_pos a ?b seg) (vmsize seg) (st_vm ?st)"
    using placed(2) same(2) by simp
  from cmds_fold_segments [OF os(1,2) _ placed1 m(6) free, of 0 ?dy path m] obtain st1 where
    st1: "cmds_fold ?f before ?st = Inr st1" "root_path (st_lr st1) = Some root"
      "st_mapped_header st1 = fold (header_pos a ?b) (real_segs before) 0" "st_vm st1 = ?s2"
    using root same(2) by (auto simp: image_vm_def)
  have load: "load_program os e fs path lr s =
      res_bind (cmds_fold ?f (cmds m) ?st) (\<lambda>st.
       let lr = (st_lr st)\<lparr>lr_mh := st_mapped_header st\<rparr>;
           lr = (if st_entry st \<noteq> 0 \<and> entry_point lr = 0 then lr\<lparr>entry_point := st_entry st\<rparr> else lr)
       in Inr (lr, st_vm st))"
    using load_cmds_fold [of "cmds m" 0 m ?dy os path 0 "slide_to a ?b" ?st] m(1-3) space(1) place
    by (simp add: load_program_def load_file_def load64_def wf_image_def Let_def)
  from load_dylinker_ok [where fs = fs and path = ?dpath, OF os md pick(2), of "mh_cputype m" "st_lr st1"]
  obtain lr3 where dyl: "?dy ?dpath (mh_cputype m) (st_lr st1) (st_vm st1) = Inr (lr3, ?s3)"
    unfolding st1(4) by blast
  let ?st2 = "st1\<lparr>st_lr := lr3, st_vm := ?s3\<rparr>"
  have dy: "?f (LC_LOAD_DYLINKER name) st1 = Inr ?st2"
    using m(3) st1(2) name dyl by (simp add: dylinker_path_def PATH_BUFFER_def)
  have "segs_placed os a ?b after" using m(8) by (simp add: segs_placed_def real_segs_def)
  from cmds_fold_segments [OF os(1,2) _ this m(7), of 0 ?st2 ?dy path m] obtain st3 where
    st3: "cmds_fold ?f after ?st2 = Inr st3" "st_vm st3 = ?s3" "st_mapped_header st3 = st_mapped_header st1"
    using same(3) by auto
  have "cmds_fold ?f (cmds m) ?st = Inr st3" using st1(1) dy st3(1) m(5) by (simp add: cmds_fold_append)
  with load st3 have "\<exists>lr'. load_program os e fs path lr s = Inr (lr', ?s3) \<and> lr_mh lr' = st_mapped_header st1"
    by (simp add: Let_def)
  then obtain lr' where L: "load_program os e fs path lr s = Inr (lr', ?s3)" "lr_mh lr' = st_mapped_header st1"
    by blast
  moreover have "lr_mh lr' = fold (header_pos a ?b) (real_segs (cmds m)) 0" using L(2) st1(3) same(2) by simp
  moreover note img = image_fold_mapped [where path = path, OF m(2) os(3) pick(1) refl]
    image_fold_mapped [where path = ?dpath, OF md(2) os(3) pick(2) refl]
  moreover have "image_mapped path m a ?s3" using img(1,4) by (blast intro: image_mapped_mono)
  moreover have "?s3 p = s1 p" if "s1 p \<noteq> None" for p
    using img(2) [OF that] img(4) that by metis
  ultimately show ?thesis by blast
qed

text \<open>A program of three segments with a dynamic linker of one.\<close>

definition seg_example :: "string \<Rightarrow> nat \<Rightarrow> nat \<Rightarrow> nat \<Rightarrow> nat \<Rightarrow> nat \<Rightarrow> nat \<times> load_command" where
  "seg_example n addr sz off fsz prot = (72, LC_SEGMENT_64 \<lparr>segname = n, vmaddr = addr, vmsize = sz, fileoff = off,
     filesize = fsz, maxprot = prot, initprot = prot, sections = []\<rparr>)"

definition program_example :: macho where
  "program_example = \<lparr>filetype = MH_EXECUTE, mh_pie = True, ncmds = 4, sizeofcmds = 248, mh_cputype = CPU_TYPE_X86_64,
     cmds = [seg_example ''__PAGEZERO'' 0 65536 0 0 0, seg_example ''__TEXT'' 65536 4096 0 4096 5,
       seg_example ''__DATA'' 69632 8192 4096 4096 3] @ (32, LC_LOAD_DYLINKER ''/d'') # []\<rparr>"

definition dylinker_example :: macho where
  "dylinker_example = \<lparr>filetype = MH_DYLINKER, mh_pie = False, ncmds = 1, sizeofcmds = 72, mh_cputype = CPU_TYPE_X86_64,
     cmds = [seg_example ''__TEXT'' 131072 4096 0 4096 5]\<rparr>"

definition os_example :: os where
  "os_example = \<lparr>knows_noreplace = True, min_addr = 4096, pick_addr = (\<lambda>h len s.
     if h mod 4096 = 0 \<and> 4096 \<le> h \<and> h + len < 2 ^ 64 \<and> vm_free h len s then Some h else None)\<rparr>"

definition space_example :: space_env where
  "space_example = \<lparr>commpage_addr = 409600, commpage_at = Some 409600, commpage_len = 4096, rlim_stack = Some 8192,
     rpc_socket = Some 1023, pipe_slot = 1022, dup2_ok = True, new_pipe = Some (-1, -1), checkin_ok = True, vchroot_path = Some ''/r''\<rparr>"

definition lr_example :: load_results where
  "lr_example = \<lparr>lr_mh = 0, entry_point = 0, stack_size = 0, dyld_all_image_location = 0, dyld_all_image_size = 0,
     lr_uuid = [], vm_addr_max = 0, lr_base = 0, bprefs = [0, 0, 0, 0], root_path = None, stack_top = 0,
     stack_top_aligned = 0, kernfd = -1, lifetime_pipe = -1\<rparr>"

definition fs_example :: "string \<Rightarrow> macho_file option" where
  "fs_example path = (if path = ''p'' then Some (File64 program_example)
     else if path = ''/r/d'' then Some (File64 dylinker_example) else None)"

lemma examples_wf: "wf_image program_example" "wf_image dylinker_example"
  by (simp_all add: wf_image_def program_example_def dylinker_example_def seg_example_def real_segs_def seg_ok_def
      pagezero_ok_def seg_prot_def native_prot_def)

theorem load_program_maps_images_witness:
  "\<exists>lr' s'. load_program os_example space_example fs_example ''p'' lr_example (\<lambda>_. None) = Inr (lr', s') \<and>
     image_mapped ''p'' program_example 65536 s' \<and> image_mapped ''/r/d'' dylinker_example 131072 s'"
proof -
  let ?s1 = "vm_map 401408 8192 3 None (vm_map 409600 4096 3 None (\<lambda>_. None))"
  have pick: "pick_addr os_example h len s =
      (if h mod 4096 = 0 \<and> 4096 \<le> h \<and> h + len < 2 ^ 64 \<and> vm_free h len s then Some h else None)"
    "knows_noreplace os_example" "min_addr os_example = 4096" for h len s
    by (simp_all add: os_example_def)
  then have "pick_law os_example" by (auto simp: pick_law_def)
  have "\<exists>lr1. setup_space os_example space_example lr_example (\<lambda>_. None) = Inr (lr1, ?s1) \<and> root_path lr1 = Some ''/r''"
    by (simp add: setup_space_def space_example_def lr_example_def compatible_mmap_def mmap_at_def vm_free_def
        vm_map_def pages_def PATH_BUFFER_def addr64_def pick)
  then obtain lr1 where space: "setup_space os_example space_example lr_example (\<lambda>_. None) = Inr (lr1, ?s1)"
    "root_path lr1 = Some ''/r''" by blast
  have img: "image_base program_example = 65536" "image_size program_example = 12288"
    "image_base dylinker_example = 131072" "image_size dylinker_example = 4096"
    by (simp_all add: image_base_def image_size_def real_segs_def program_example_def dylinker_example_def seg_example_def)
  have free: "vm_free 65536 12288 ?s1" "vm_free 131072 4096 (image_vm ''p'' program_example 65536 ?s1)"
    by (simp_all add: vm_free_def vm_map_def pages_def image_vm_def seg_vm_def real_segs_def program_example_def
        seg_example_def seg_pos_def image_base_def)
  let ?cs = "[seg_example ''__PAGEZERO'' 0 65536 0 0 0, seg_example ''__TEXT'' 65536 4096 0 4096 5,
      seg_example ''__DATA'' 69632 8192 4096 4096 3]"
  have cs: "cmds program_example = ?cs @ (32, LC_LOAD_DYLINKER ''/d'') # []" "no_dylinker ?cs" "no_dylinker []"
    "no_dylinker (cmds dylinker_example)" "segs_of [] = []"
    by (simp_all add: program_example_def dylinker_example_def no_dylinker_def seg_example_def)
  have types: "filetype program_example = MH_EXECUTE" "mh_pie program_example" "filetype dylinker_example = MH_DYLINKER"
    by (simp_all add: program_example_def dylinker_example_def)
  have path: "cstr (''/r'' @ ''/d'') = ''/r/d''" by (simp add: cstr_def)
  have files: "fs_example ''p'' = Some (File64 program_example)"
    "fs_example (cstr (''/r'' @ ''/d'')) = Some (File64 dylinker_example)"
    unfolding path by (simp_all add: fs_example_def)
  have picks: "pick_addr os_example (image_base program_example) (image_size program_example) ?s1 = Some 65536"
    "pick_addr os_example (image_base dylinker_example) (image_size dylinker_example)
      (image_vm ''p'' program_example 65536 ?s1) = Some 131072"
    using free by (simp_all add: pick img)
  have "0 < min_addr os_example" "length ''/d'' + length ''/r'' \<le> 4095" by (simp_all add: pick)
  from load_program_maps_images [where fs = fs_example and path = "''p''" and name = "''/d''",
      OF pick(2) this(1) \<open>pick_law os_example\<close> space files(1) examples_wf(1) types(1,2) cs(1-3,5) this(2) files(2)
        examples_wf(2) types(3) cs(4) picks]
  show ?thesis unfolding path by blast
qed

end
