(* ===== verification/Memory_Block.thy ===== *)
theory Memory_Block
  imports Osxie_Prelude
begin

text \<open>
  Memory by bytes: reading and writing blocks, and the strings that end with a byte 0.
\<close>

type_synonym memory = "nat \<Rightarrow> char"

definition get_bytes :: "memory \<Rightarrow> nat \<Rightarrow> nat \<Rightarrow> char list" where
  "get_bytes m a n = map m [a ..< a + n]"

definition put_bytes :: "nat \<Rightarrow> char list \<Rightarrow> memory \<Rightarrow> memory" where
  "put_bytes a bs m i = (if a \<le> i \<and> i < a + length bs then bs ! (i - a) else m i)"

lemma length_get_bytes [simp]: "length (get_bytes m a n) = n"
  by (simp add: get_bytes_def)

lemma get_bytes_nth: "i < n \<Longrightarrow> get_bytes m a n ! i = m (a + i)"
  by (simp add: get_bytes_def)

lemma get_bytes_append: "get_bytes m a (n + k) = get_bytes m a n @ get_bytes m (a + n) k"
  using upt_add_eq_append [of a "a + n" k] by (simp add: get_bytes_def add.assoc)

lemma get_bytes_0 [simp]: "get_bytes m a 0 = []"
  by (simp add: get_bytes_def)

lemma get_bytes_cong: "(\<And>i. a \<le> i \<Longrightarrow> i < a + n \<Longrightarrow> m i = m' i) \<Longrightarrow> get_bytes m a n = get_bytes m' a n"
  by (simp add: get_bytes_def)

lemma get_put_sub:
  assumes "a \<le> b" and "b + n \<le> a + length bs"
  shows "get_bytes (put_bytes a bs m) b n = take n (drop (b - a) bs)"
  using assms by (intro nth_equalityI) (auto simp: get_bytes_nth put_bytes_def)

lemma get_put_same: "length bs = n \<Longrightarrow> get_bytes (put_bytes a bs m) a n = bs"
  by (simp add: get_put_sub)

lemma get_put_other:
  "a + n \<le> b \<or> b + length bs \<le> a \<Longrightarrow> get_bytes (put_bytes b bs m) a n = get_bytes m a n"
  by (rule get_bytes_cong) (auto simp: put_bytes_def)

lemma put_bytes_other: "i < a \<or> a + length bs \<le> i \<Longrightarrow> put_bytes a bs m i = m i"
  by (auto simp: put_bytes_def)

text \<open>A string stands at an address with its end.\<close>

definition string_at :: "memory \<Rightarrow> nat \<Rightarrow> string \<Rightarrow> bool" where
  "string_at m a s \<longleftrightarrow> c_string s \<and> get_bytes m a (length s + 1) = s @ [CHR 0x00]"

lemma string_at_unique:
  assumes "string_at m a s" and "string_at m a t"
  shows "s = t"
proof -
  define k where "k = length s + length t + 1"
  have "cstr (get_bytes m a k) = s"
    using assms(1) get_bytes_append [of m a "length s + 1" "length t"]
    by (simp add: string_at_def k_def add.commute add.left_commute)
  moreover have "cstr (get_bytes m a k) = t"
    using assms(2) get_bytes_append [of m a "length t + 1" "length s"]
    by (simp add: string_at_def k_def add.commute add.left_commute)
  ultimately show ?thesis by simp
qed

lemma string_at_put_other:
  "a + length s + 1 \<le> b \<or> b + length bs \<le> a \<Longrightarrow> string_at (put_bytes b bs m) a s \<longleftrightarrow> string_at m a s"
  unfolding string_at_def by (subst get_put_other) auto

lemma string_at_put:
  "c_string s \<Longrightarrow> string_at (put_bytes a (s @ [CHR 0x00]) m) a s"
  by (simp add: string_at_def get_put_same)

lemma string_at_put_padded:
  "c_string s \<Longrightarrow> string_at (put_bytes a (s @ CHR 0x00 # rest) m) a s"
  by (simp add: string_at_def get_put_sub)

end
