(* ===== verification/Commpage.thy ===== *)
theory Commpage
  imports Memory_Block
begin

text \<open>
  The page that tells programs about the machine (startup/mldr/commpage.c and commpage.h,
  the 64-bit page on x86-64), with the offsets and flags of i386/cpu_capabilities.h. The
  answers of the processor and of the system are arguments.
\<close>

section \<open>Registers of the cpuid instruction\<close>

text \<open>The fields of the unions of commpage.h, from the lowest bit on.\<close>

definition cpu_flags2 :: "string list" where
  "cpu_flags2 = [''fpu'', ''vme'', ''de'', ''pse'', ''tsc'', ''msr'', ''pae'', ''mce'', ''cx8'', ''apic'',
     ''reserved1'', ''sep'', ''mtrr'', ''pge'', ''mca'', ''cmov'', ''pat'', ''pse36'', ''psn'', ''clfsh'',
     ''reserved2'', ''ds'', ''acpi'', ''mmx'', ''fxsr'', ''sse'', ''sse2'', ''ss'', ''htt'', ''tm'', ''ia64'', ''pbe'']"

definition cpu_flags3 :: "string list" where
  "cpu_flags3 = [''sse3'', ''pclmulqdq'', ''dtes64'', ''monitor'', ''dscpl'', ''vmx'', ''smx'', ''est'', ''tm2'',
     ''ssse3'', ''cntxid'', ''sdbg'', ''fma'', ''cx16'', ''xtpr'', ''pdcm'', ''reserved1'', ''pcid'', ''dca'',
     ''sse41'', ''sse42'', ''x2apic'', ''movbe'', ''popcnt'', ''tscdadline'', ''aes'', ''xsave'', ''osxsave'',
     ''avx'', ''f16c'', ''rdrnd'', ''hypervisor'']"

definition cpu_flags4 :: "string list" where
  "cpu_flags4 = [''fsgsbase'', ''ia32tscadjust'', ''sgx'', ''bmi1'', ''hle'', ''avx2'', ''reserved1'', ''smep'',
     ''bmi2'', ''erms'', ''invpcid'', ''rtm'', ''pqm'', ''fpucsdsdeprecated'', ''mpx'', ''pqe'', ''avx512f'',
     ''avx512dq'', ''rdseed'', ''adx'', ''smap'', ''avx512ifma'', ''pcommit'', ''clflushopt'', ''clwb'',
     ''intelproctrace'', ''avx512pf'', ''avx512er'', ''avx512cd'', ''sha'', ''avx512bw'', ''avx512vl'']"

fun field_bit :: "string list \<Rightarrow> string \<Rightarrow> nat" where
  "field_bit [] f = 0"
| "field_bit (g # gs) f = (if f = g then 0 else field_bit gs f + 1)"

definition flag :: "string list \<Rightarrow> u32 \<Rightarrow> string \<Rightarrow> bool" where
  "flag layout reg f = bit reg (field_bit layout f)"

text \<open>What the processor and the system answer.\<close>

record machine =
  cpuid1_ecx :: u32
  cpuid1_edx :: u32
  cpuid7_ebx :: u32
  nprocs_conf :: nat
  nprocs_onln :: nat
  pagesize :: nat
  sysinfo :: "(nat \<times> nat) option"

section \<open>Capabilities\<close>

definition set_cap :: "bool \<Rightarrow> u64 \<Rightarrow> u64 \<Rightarrow> u64" where
  "set_cap c k caps = (if c then caps OR k else caps)"

text \<open>
  The first call of cpuid fills \<open>ecx\<close>, which has the layout \<open>cpu_flags2\<close>, and \<open>edx\<close>, which has
  the layout \<open>cpu_flags3\<close>; the second one fills \<open>ebx\<close> with the layout \<open>cpu_flags4\<close>.
\<close>

definition get_cpu_caps :: "machine \<Rightarrow> u64" where
  "get_cpu_caps mc =
     (let ecx = flag cpu_flags2 (cpuid1_ecx mc);
          edx = flag cpu_flags3 (cpuid1_edx mc);
          caps = 0;
          caps = set_cap (ecx ''mmx'') 0x00000001 caps;
          caps = set_cap (ecx ''sse'') 0x00000002 caps;
          caps = set_cap (ecx ''sse2'') 0x00000004 caps;
          caps = set_cap (edx ''sse3'') 0x00000008 caps;
          caps = set_cap (ecx ''ia64'') 0x00000200 caps;
          caps = set_cap (edx ''ssse3'') 0x00000100 caps;
          caps = set_cap (edx ''sse41'') 0x00000400 caps;
          caps = set_cap (edx ''sse42'') 0x00000800 caps;
          caps = set_cap (edx ''aes'') 0x00001000 caps;
          caps = set_cap (edx ''avx'') 0x01000000 caps;
          caps = set_cap (edx ''rdrnd'') 0x02000000 caps;
          caps = set_cap (edx ''fma'') 0x10000000 caps;
          caps = set_cap (edx ''f16c'') 0x04000000 caps;
          ebx = flag cpu_flags4 (cpuid7_ebx mc);
          caps = set_cap (ebx ''erms'') 0x08000000 caps;
          caps = set_cap (ebx ''avx2'') 0x20000000 caps;
          caps = set_cap (ebx ''bmi1'') 0x40000000 caps;
          caps = set_cap (ebx ''bmi2'') 0x80000000 caps;
          caps = set_cap (ebx ''rtm'') 0x0000000100000000 caps;
          caps = set_cap (ebx ''hle'') 0x0000000200000000 caps;
          caps = set_cap (ebx ''rdseed'') 0x0000000800000000 caps;
          caps = set_cap (ebx ''adx'') 0x0000000400000000 caps;
          caps = set_cap (ebx ''mpx'') 0x0000001000000000 caps;
          caps = set_cap (ebx ''sgx'') 0x0000002000000000 caps
      in caps)"

section \<open>The page\<close>

text \<open>Offsets of the fields (\<open>CGET\<close> subtracts the address they are defined from).\<close>

definition COMM_PAGE_SIGNATURE :: nat where "COMM_PAGE_SIGNATURE = 0x000"

definition COMM_PAGE_CPU_CAPABILITIES64 :: nat where "COMM_PAGE_CPU_CAPABILITIES64 = 0x010"

definition COMM_PAGE_VERSION :: nat where "COMM_PAGE_VERSION = 0x01E"

definition COMM_PAGE_CPU_CAPABILITIES :: nat where "COMM_PAGE_CPU_CAPABILITIES = 0x020"

definition COMM_PAGE_NCPUS :: nat where "COMM_PAGE_NCPUS = 0x022"

definition COMM_PAGE_ACTIVE_CPUS :: nat where "COMM_PAGE_ACTIVE_CPUS = 0x034"

definition COMM_PAGE_PHYSICAL_CPUS :: nat where "COMM_PAGE_PHYSICAL_CPUS = 0x035"

definition COMM_PAGE_LOGICAL_CPUS :: nat where "COMM_PAGE_LOGICAL_CPUS = 0x036"

definition COMM_PAGE_MEMORY_SIZE :: nat where "COMM_PAGE_MEMORY_SIZE = 0x038"

definition COMM_PAGE_KERNEL_PAGE_SHIFT :: nat where "COMM_PAGE_KERNEL_PAGE_SHIFT = 0x04D"

definition COMM_PAGE_USER_PAGE_SHIFT_64 :: nat where "COMM_PAGE_USER_PAGE_SHIFT_64 = 0x04E"

definition COMM_PAGE_THIS_VERSION :: nat where "COMM_PAGE_THIS_VERSION = 14"

lemmas commpage_offsets = COMM_PAGE_SIGNATURE_def COMM_PAGE_CPU_CAPABILITIES64_def COMM_PAGE_VERSION_def
  COMM_PAGE_CPU_CAPABILITIES_def COMM_PAGE_NCPUS_def COMM_PAGE_ACTIVE_CPUS_def COMM_PAGE_PHYSICAL_CPUS_def
  COMM_PAGE_LOGICAL_CPUS_def COMM_PAGE_MEMORY_SIZE_def COMM_PAGE_KERNEL_PAGE_SHIFT_def
  COMM_PAGE_USER_PAGE_SHIFT_64_def COMM_PAGE_THIS_VERSION_def

definition ctzl :: "nat \<Rightarrow> nat" where
  "ctzl n = length (takeWhile (\<lambda>i. \<not> bit n i) [0 ..< 64])"

definition field :: "nat \<Rightarrow> nat \<Rightarrow> memory \<Rightarrow> nat" where
  "field off n page = le_val (get_bytes page off n)"

definition put_field :: "nat \<Rightarrow> nat \<Rightarrow> nat \<Rightarrow> memory \<Rightarrow> memory" where
  "put_field off n v page = put_bytes off (le_bytes n v) page"

text \<open>The page by offsets, from the fresh mapping \<open>page\<close> on.\<close>

definition commpage_setup :: "machine \<Rightarrow> memory \<Rightarrow> memory" where
  "commpage_setup mc page =
     (let page = put_bytes COMM_PAGE_SIGNATURE (''commpage 64-bit'' @ [CHR 0x00]) page;
          page = put_field COMM_PAGE_VERSION 2 COMM_PAGE_THIS_VERSION page;
          page = put_field COMM_PAGE_NCPUS 1 (nprocs_conf mc) page;
          page = put_field COMM_PAGE_ACTIVE_CPUS 1 (nprocs_onln mc) page;
          ncpus = field COMM_PAGE_NCPUS 1 page;
          page = put_field COMM_PAGE_LOGICAL_CPUS 1 ncpus page;
          page = put_field COMM_PAGE_PHYSICAL_CPUS 1 ncpus page;
          shift = ctzl (pagesize mc);
          page = put_field COMM_PAGE_USER_PAGE_SHIFT_64 1 shift page;
          page = put_field COMM_PAGE_KERNEL_PAGE_SHIFT 1 shift page;
          my_caps = get_cpu_caps mc;
          my_caps = (if field COMM_PAGE_NCPUS 1 page = 1 then my_caps OR 0x8000 else my_caps);
          page = put_field COMM_PAGE_CPU_CAPABILITIES 4 (unat my_caps) page;
          page = put_field COMM_PAGE_CPU_CAPABILITIES64 8 (unat my_caps) page
      in case sysinfo mc of
           None \<Rightarrow> page
         | Some (totalram, mem_unit) \<Rightarrow> put_field COMM_PAGE_MEMORY_SIZE 8 (totalram * mem_unit) page)"

section \<open>Facts\<close>

lemma bit_set_cap: "bit (set_cap c k caps) n \<longleftrightarrow> c \<and> bit k n \<or> bit caps n"
  by (auto simp: set_cap_def bit_or_iff)

lemma flags_cpuid1:
  "flag cpu_flags2 r ''mmx'' = bit r 23" "flag cpu_flags2 r ''sse'' = bit r 25"
  "flag cpu_flags2 r ''sse2'' = bit r 26" "flag cpu_flags2 r ''ia64'' = bit r 30"
  "flag cpu_flags3 r ''sse3'' = bit r 0" "flag cpu_flags3 r ''ssse3'' = bit r 9"
  "flag cpu_flags3 r ''sse41'' = bit r 19" "flag cpu_flags3 r ''sse42'' = bit r 20"
  "flag cpu_flags3 r ''aes'' = bit r 25" "flag cpu_flags3 r ''avx'' = bit r 28"
  "flag cpu_flags3 r ''rdrnd'' = bit r 30" "flag cpu_flags3 r ''fma'' = bit r 12"
  "flag cpu_flags3 r ''f16c'' = bit r 29"
  by (simp_all add: flag_def cpu_flags2_def cpu_flags3_def eval_nat_numeral)

text \<open>The bits 16 to 23, where the number of processors goes, are never set.\<close>

lemma caps_count_clear:
  assumes "16 \<le> n" and "n < 24"
  shows "\<not> bit (get_cpu_caps mc) n" "\<not> bit (0x8000 :: u64) n"
proof -
  have "n = 16 \<or> n = 17 \<or> n = 18 \<or> n = 19 \<or> n = 20 \<or> n = 21 \<or> n = 22 \<or> n = 23" using assms by arith
  then show "\<not> bit (get_cpu_caps mc) n" "\<not> bit (0x8000 :: u64) n"
    by (elim disjE; simp add: get_cpu_caps_def Let_def bit_set_cap)+
qed

lemma field_put_same: "field off n (put_field off n v page) = v mod 256 ^ n"
  by (simp add: field_def put_field_def get_put_same)

lemma field_put_other:
  "off + n \<le> off' \<or> off' + n' \<le> off \<Longrightarrow> field off n (put_field off' n' v page) = field off n page"
  by (simp add: field_def put_field_def get_put_other)

lemma field_put_bytes_other:
  "off + n \<le> off' \<or> off' + length bs \<le> off \<Longrightarrow> field off n (put_bytes off' bs page) = field off n page"
  by (simp add: field_def get_put_other)

lemma field_put_within:
  assumes "off' \<le> off" and "off < off' + n'"
  shows "field off 1 (put_field off' n' v page) = v div 256 ^ (off - off') mod 256"
proof -
  have "le_bytes n' v ! i = char_of (v div 256 ^ i)" if "i < n'" for i
    using that
  proof (induction i arbitrary: n' v)
    case 0
    then show ?case by (cases n') simp_all
  next
    case (Suc i)
    then obtain k where "n' = Suc k" "i < k" by (cases n') simp_all
    with Suc.IH [of k "v div 256"] show ?case by (simp add: div_mult2_eq)
  qed
  with assms show ?thesis
    by (simp add: field_def put_field_def get_put_sub take_Suc_conv_app_nth hd_drop_conv_nth take_Suc)
qed

text \<open>The capabilities that are stored: those of the processor, and whether it is a single one.\<close>

definition stored_caps :: "machine \<Rightarrow> u64" where
  "stored_caps mc = (if nprocs_conf mc mod 256 = 1 then get_cpu_caps mc OR 0x8000 else get_cpu_caps mc)"

definition commpage_fields :: "(nat \<times> nat) list" where
  "commpage_fields = [(COMM_PAGE_SIGNATURE, 16), (COMM_PAGE_CPU_CAPABILITIES64, 8), (COMM_PAGE_VERSION, 2),
     (COMM_PAGE_CPU_CAPABILITIES, 4), (COMM_PAGE_ACTIVE_CPUS, 1), (COMM_PAGE_PHYSICAL_CPUS, 1),
     (COMM_PAGE_LOGICAL_CPUS, 1), (COMM_PAGE_MEMORY_SIZE, 8), (COMM_PAGE_KERNEL_PAGE_SHIFT, 1),
     (COMM_PAGE_USER_PAGE_SHIFT_64, 1)]"

lemma commpage_setup_writes:
  "commpage_setup mc page =
       (case sysinfo mc of None \<Rightarrow> id | Some (totalram, mem_unit) \<Rightarrow> put_field COMM_PAGE_MEMORY_SIZE 8 (totalram * mem_unit))
         (put_field COMM_PAGE_CPU_CAPABILITIES64 8 (unat (stored_caps mc))
         (put_field COMM_PAGE_CPU_CAPABILITIES 4 (unat (stored_caps mc))
         (put_field COMM_PAGE_KERNEL_PAGE_SHIFT 1 (ctzl (pagesize mc))
         (put_field COMM_PAGE_USER_PAGE_SHIFT_64 1 (ctzl (pagesize mc))
         (put_field COMM_PAGE_PHYSICAL_CPUS 1 (nprocs_conf mc mod 256)
         (put_field COMM_PAGE_LOGICAL_CPUS 1 (nprocs_conf mc mod 256)
         (put_field COMM_PAGE_ACTIVE_CPUS 1 (nprocs_onln mc)
         (put_field COMM_PAGE_NCPUS 1 (nprocs_conf mc)
         (put_field COMM_PAGE_VERSION 2 COMM_PAGE_THIS_VERSION
         (put_bytes COMM_PAGE_SIGNATURE (''commpage 64-bit'' @ [CHR 0x00]) page))))))))))"
  by (auto simp: commpage_setup_def Let_def stored_caps_def field_put_same field_put_other commpage_offsets split: option.split)

lemma field_zero_size [simp]: "field off 0 page = 0"
  by (simp add: field_def)

lemma ctzl_bound: "ctzl n \<le> 64"
  using length_takeWhile_le [of _ "[0 ..< 64]"] by (simp add: ctzl_def)

lemma unat_u64_mod: "unat (w :: u64) mod 18446744073709551616 = unat w"
proof -
  have "unat w < 2 ^ 64" using unsigned_less [of w] by simp
  then show ?thesis by simp
qed

lemma put_field_other: "i < off \<or> off + n \<le> i \<Longrightarrow> put_field off n v page i = page i"
  by (simp add: put_field_def put_bytes_other)

section \<open>Properties\<close>


text \<open>What the page tells of the processors is wrong. The number of configured processors lies
  in the third byte of the 32-bit capabilities, which are written after it and have zeros
  there: programs always read 0. And the registers of the first call of cpuid are taken for
  each other: SSE2 is reported when the bit 26 of ECX is set, which tells of XSAVE, and MMX for
  the bit of POPCNT, while the bits of EDX for them are ignored; SSE3 is reported for the bit 0
  of EDX, which tells of a floating point unit.\<close>
theorem commpage_setup_wrong_cpus:
  "field COMM_PAGE_NCPUS 1 (commpage_setup mc page) = 0 \<and>
   bit (get_cpu_caps mc) 0 = bit (cpuid1_ecx mc) 23 \<and>
   bit (get_cpu_caps mc) 2 = bit (cpuid1_ecx mc) 26 \<and>
   bit (get_cpu_caps mc) 3 = bit (cpuid1_edx mc) 0"
proof (intro conjI)
  have "\<not> bit (stored_caps mc) n" if "16 \<le> n" "n < 24" for n
    using caps_count_clear [OF that] by (simp add: stored_caps_def bit_or_iff)
  then have "take_bit 8 (drop_bit 16 (unat (stored_caps mc))) = 0"
    by (intro bit_eqI) (auto simp: bit_simps)
  then have "unat (stored_caps mc) div 256 ^ 2 mod 256 = 0"
    by (simp add: take_bit_eq_mod drop_bit_eq_div)
  then have "field COMM_PAGE_NCPUS 1 (put_field COMM_PAGE_CPU_CAPABILITIES 4 (unat (stored_caps mc)) p) = 0" for p
    using field_put_within [of 32 34 4] by (simp add: commpage_offsets)
  then show "field COMM_PAGE_NCPUS 1 (commpage_setup mc page) = 0"
    by (cases "sysinfo mc") (auto simp: commpage_setup_writes field_put_other commpage_offsets)
  show "bit (get_cpu_caps mc) 0 = bit (cpuid1_ecx mc) 23"
    by (simp add: get_cpu_caps_def Let_def bit_set_cap flags_cpuid1)
  show "bit (get_cpu_caps mc) 2 = bit (cpuid1_ecx mc) 26"
    by (simp add: get_cpu_caps_def Let_def bit_set_cap flags_cpuid1)
  show "bit (get_cpu_caps mc) 3 = bit (cpuid1_edx mc) 0"
    by (simp add: get_cpu_caps_def Let_def bit_set_cap flags_cpuid1)
qed

end
