(* ===== verification/Mldr_Args.thy ===== *)
theory Mldr_Args
  imports Memory_Block
begin

text \<open>
  The arguments and the environment that mldr hands over to the program it has loaded
  (main and unset_special_env of startup/mldr/mldr.c): the loader's own first argument and
  its variables are removed from the memory in which the kernel has put the strings.
\<close>

section \<open>Memory of the arguments\<close>

datatype arg_error = Null_Pointer | Bad_Address | Buffer_Overflow

type_synonym ptr = "nat option"

text \<open>
  The memory of the strings (\<open>area_start\<close> to \<open>area_end\<close>), and the arrays with their counts,
  which are in load_results.
\<close>

record arg_area =
  am :: memory
  area_start :: nat
  area_end :: nat
  argc :: nat
  argv :: "ptr list"
  envc :: nat
  envp :: "ptr list"

definition ptr_at :: "ptr list \<Rightarrow> nat \<Rightarrow> arg_error + ptr" where
  "ptr_at ps i = (if i < length ps then Inr (ps ! i) else Inl Bad_Address)"

definition in_area :: "arg_area \<Rightarrow> nat \<Rightarrow> nat \<Rightarrow> bool" where
  "in_area a p n \<longleftrightarrow> area_start a \<le> p \<and> p + n \<le> area_end a"

text \<open>The string from an address on.\<close>

definition read_str :: "arg_area \<Rightarrow> ptr \<Rightarrow> arg_error + string" where
  "read_str a p =
     (case p of
        None \<Rightarrow> Inl Null_Pointer
      | Some q \<Rightarrow>
          let bs = get_bytes (am a) q (area_end a - q)
          in if area_start a \<le> q \<and> CHR 0x00 \<in> set bs then Inr (cstr bs) else Inl Bad_Address)"

definition strlen :: "arg_area \<Rightarrow> ptr \<Rightarrow> arg_error + nat" where
  "strlen a p = res_bind (read_str a p) (\<lambda>s. Inr (length s))"

definition memmove :: "ptr \<Rightarrow> ptr \<Rightarrow> nat \<Rightarrow> arg_area \<Rightarrow> arg_error + arg_area" where
  "memmove dst src n a =
     (if n = 0 then Inr a
      else
        (case (dst, src) of
           (Some d, Some s) \<Rightarrow>
             if in_area a d n \<and> in_area a s n
             then Inr (a\<lparr>am := put_bytes d (get_bytes (am a) s n) (am a)\<rparr>) else Inl Bad_Address
         | _ \<Rightarrow> Inl Null_Pointer))"

definition memset0 :: "ptr \<Rightarrow> nat \<Rightarrow> arg_area \<Rightarrow> arg_error + arg_area" where
  "memset0 dst n a =
     (if n = 0 then Inr a
      else
        (case dst of
           None \<Rightarrow> Inl Null_Pointer
         | Some d \<Rightarrow>
             if in_area a d n then Inr (a\<lparr>am := put_bytes d (replicate n (CHR 0x00)) (am a)\<rparr>) else Inl Bad_Address))"

definition ptr_add :: "ptr \<Rightarrow> nat \<Rightarrow> ptr" where
  "ptr_add p n = map_option (\<lambda>q. q + n) p"

section \<open>Removing a string\<close>

text \<open>
  Both loops over the pointers: \<open>n\<close> of them are left from the index \<open>j\<close> on; each is set to the
  one at \<open>k\<close> plus the length of the strings so far.
\<close>

fun shift_ptrs :: "arg_area \<Rightarrow> nat \<Rightarrow> nat \<Rightarrow> nat \<Rightarrow> nat \<Rightarrow> ptr list \<Rightarrow> arg_error + ptr list \<times> nat" where
  "shift_ptrs a k 0 j len_after ps = Inr (ps, len_after)"
| "shift_ptrs a k (Suc n) j len_after ps =
     res_bind (ptr_at ps k) (\<lambda>b.
     let ps = ps[j := ptr_add b len_after] in
     res_bind (ptr_at ps (j + 1)) (\<lambda>p.
     res_bind (strlen a p) (\<lambda>l.
     shift_ptrs a k n (j + 1) (len_after + l + 1) ps)))"

text \<open>
  The string at the index \<open>k\<close> of an array goes, and \<open>n\<close> strings stay: the code is the same
  for the first argument and for a variable.
\<close>

definition remove_string :: "nat \<Rightarrow> nat \<Rightarrow> ptr list \<Rightarrow> arg_area \<Rightarrow> arg_error + ptr list \<times> arg_area" where
  "remove_string k n ps a =
     res_bind (ptr_at ps k) (\<lambda>p.
     res_bind (strlen a p) (\<lambda>l.
     res_bind (ptr_at ps (k + 1)) (\<lambda>orig_next.
     res_bind (shift_ptrs a k (n - k) k 0 ps) (\<lambda>(ps, len_after).
     let ps = ps[n := None] in
     res_bind (ptr_at ps k) (\<lambda>q.
     res_bind (memmove q orig_next len_after a) (\<lambda>a.
     res_bind (memset0 (ptr_add q len_after) (l + 1) a) (\<lambda>a.
     Inr (ps, a))))))))"

definition adjust_argv :: "arg_area \<Rightarrow> arg_error + arg_area" where
  "adjust_argv a =
     res_bind (remove_string 0 (argc a - 1) (argv a) a) (\<lambda>(ps, a).
     Inr (a\<lparr>argc := argc a - 1, argv := ps\<rparr>))"

section \<open>The environment\<close>

text \<open>The macro \<open>ENV_VAR_MATCHES\<close>.\<close>

definition env_var_matches :: "string \<Rightarrow> string \<Rightarrow> bool" where
  "env_var_matches s nm \<longleftrightarrow> length s + 1 > length nm \<and> take (length nm) s = nm"

definition own_variable :: "string \<Rightarrow> bool" where
  "own_variable s \<longleftrightarrow> env_var_matches s ''__mldr_bprefs='' \<or> env_var_matches s ''__mldr_sockpath=''"

text \<open>
  The loop over the variables, from the index \<open>i\<close> on. Every round makes the distance of \<open>i\<close>
  to the count one less, so \<open>envc - i\<close> rounds are enough.
\<close>

fun adjust_env_from :: "nat \<Rightarrow> nat \<Rightarrow> arg_area \<Rightarrow> arg_error + arg_area" where
  "adjust_env_from 0 i a = Inr a"
| "adjust_env_from (Suc n) i a =
     (if i < envc a then
        res_bind (ptr_at (envp a) i) (\<lambda>p.
        if p = None then Inr (a\<lparr>envc := i\<rparr>)
        else
          res_bind (read_str a p) (\<lambda>s.
          if own_variable s then
            res_bind (remove_string i (envc a - 1) (envp a) a) (\<lambda>(ps, a).
            adjust_env_from n i (a\<lparr>envc := envc a - 1, envp := ps\<rparr>))
          else if env_var_matches s ''__mldr_DYLD_ROOT_PATH='' then
            res_bind (strlen a (ptr_add p 7)) (\<lambda>l.
            res_bind (memmove p (ptr_add p 7) (l + 1) a) (\<lambda>a.
            adjust_env_from n (i + 1) a))
          else adjust_env_from n (i + 1) a))
      else Inr a)"

definition adjust_env :: "arg_area \<Rightarrow> arg_error + arg_area" where
  "adjust_env a = adjust_env_from (envc a) 0 a"

text \<open>
  The C library's \<open>unsetenv\<close>: all entries of the name are taken out of the array, up to the
  first null pointer.
\<close>

definition names_var :: "string \<Rightarrow> string \<Rightarrow> bool" where
  "names_var nm s \<longleftrightarrow> take (length nm + 1) s = nm @ ''=''"

definition unsetenv :: "string \<Rightarrow> arg_area \<Rightarrow> arg_area" where
  "unsetenv nm a =
     (let live = takeWhile (\<lambda>p. p \<noteq> None) (envp a);
          kept = filter (\<lambda>p. case read_str a p of Inl _ \<Rightarrow> True | Inr s \<Rightarrow> \<not> names_var nm s) live
      in a\<lparr>envp := kept @ replicate (length (envp a) - length kept) None\<rparr>)"

definition unset_special_env :: "arg_area \<Rightarrow> arg_area" where
  "unset_special_env a =
     unsetenv ''__mldr_lifetime_pipe'' (unsetenv ''__mldr_sockpath'' (unsetenv ''__mldr_bprefs'' a))"

section \<open>Paths of the container\<close>

definition SYSTEM_ROOT :: string where "SYSTEM_ROOT = ''/Volumes/SystemRoot''"

text \<open>A path of the host as the program knows it: under the root, or where the host's files are.\<close>

definition unexpand_path :: "string \<Rightarrow> string \<Rightarrow> string" where
  "unexpand_path root path = (if take (length root) path = root then drop (length root) path else SYSTEM_ROOT @ path)"

text \<open>
  The first argument is replaced by such a path in the static buffer at \<open>unexpanded\<close>, which has
  4096 bytes; the code does not check that they are enough.
\<close>

definition vchroot_unexpand_interpreter :: "string option \<Rightarrow> nat \<Rightarrow> arg_area \<Rightarrow> arg_error + arg_area" where
  "vchroot_unexpand_interpreter root unexpanded a =
     (case root of
        None \<Rightarrow> Inr a
      | Some r \<Rightarrow>
          res_bind (ptr_at (argv a) 0) (\<lambda>p.
          res_bind (read_str a p) (\<lambda>s.
          let path = unexpand_path r s in
          if length path + 1 > 4096 then Inl Buffer_Overflow
          else Inr (a\<lparr>am := put_bytes unexpanded (path @ [CHR 0x00]) (am a), argv := (argv a)[0 := Some unexpanded]\<rparr>))))"

text \<open>
  What main does to both after loading, in which \<open>unset_special_env\<close> was called; \<open>marked\<close>: the
  program was named in the loader's first argument, after an exclamation mark.
\<close>

definition main_handover :: "bool \<Rightarrow> string option \<Rightarrow> nat \<Rightarrow> arg_area \<Rightarrow> arg_error + arg_area" where
  "main_handover marked root unexpanded a =
     res_bind (adjust_argv (unset_special_env a)) (\<lambda>a.
     res_bind (if marked then Inr a else vchroot_unexpand_interpreter root unexpanded a) (\<lambda>a.
     adjust_env a))"

section \<open>Strings one after the other\<close>

definition flat :: "string list \<Rightarrow> char list" where
  "flat ss = concat (map (\<lambda>s. s @ [CHR 0x00]) ss)"

fun offsets :: "nat \<Rightarrow> string list \<Rightarrow> nat list" where
  "offsets c [] = []"
| "offsets c (s # ss) = c # offsets (c + length s + 1) ss"

lemma flat_simps [simp]: "flat [] = []" "flat (s # ss) = s @ CHR 0x00 # flat ss"
  by (simp_all add: flat_def)

lemma length_offsets [simp]: "length (offsets c ss) = length ss"
  by (induction ss arbitrary: c) simp_all

text \<open>Strings at rising addresses between two bounds.\<close>

fun placed :: "memory \<Rightarrow> nat \<Rightarrow> nat \<Rightarrow> nat list \<Rightarrow> string list \<Rightarrow> bool" where
  "placed m c e [] [] = (c \<le> e)"
| "placed m c e (p # ps) (s # ss) = (c \<le> p \<and> string_at m p s \<and> placed m (p + length s + 1) e ps ss)"
| "placed m c e _ _ = False"

lemma placed_le: "placed m c e ps ss \<Longrightarrow> c \<le> e"
  by (induction m c e ps ss rule: placed.induct) auto

lemma placed_length: "placed m c e ps ss \<Longrightarrow> length ps = length ss"
  by (induction m c e ps ss rule: placed.induct) auto

lemma placed_mono: "placed m c e ps ss \<Longrightarrow> c' \<le> c \<Longrightarrow> placed m c' e ps ss"
  by (cases "(m, c, e, ps, ss)" rule: placed.cases) auto

lemma placed_append:
  "placed m c d ps ss \<Longrightarrow> placed m d e qs ts \<Longrightarrow> placed m c e (ps @ qs) (ss @ ts)"
  by (induction m c d ps ss rule: placed.induct) (auto intro: placed_mono)

lemma placed_cong:
  "placed m c e ps ss \<Longrightarrow> (\<And>i. c \<le> i \<Longrightarrow> i < e \<Longrightarrow> m' i = m i) \<Longrightarrow> placed m' c e ps ss"
proof (induction m c e ps ss rule: placed.induct)
  case (2 m c e p ps s ss)
  have "p + length s + 1 \<le> e" using 2(2) placed_le by auto
  then have "get_bytes m' p (length s + 1) = get_bytes m p (length s + 1)"
    using 2(2,3) by (intro get_bytes_cong) auto
  with 2 show ?case by (auto simp: string_at_def)
qed auto

lemma placed_offsets:
  assumes "get_bytes m c (length (flat ss)) = flat ss" and "list_all c_string ss"
  shows "placed m c (c + length (flat ss)) (offsets c ss) ss"
  using assms
proof (induction ss arbitrary: c)
  case Nil
  show ?case by simp
next
  case (Cons s ss)
  have "get_bytes m c ((length s + 1) + length (flat ss)) = (s @ [CHR 0x00]) @ flat ss"
    using Cons.prems(1) by (simp add: add.commute)
  then have "get_bytes m c (length s + 1) @ get_bytes m (c + (length s + 1)) (length (flat ss)) = (s @ [CHR 0x00]) @ flat ss"
    by (simp only: get_bytes_append [of m c "length s + 1"])
  then have s: "get_bytes m c (length s + 1) = s @ [CHR 0x00]"
    and rest: "get_bytes m (c + length s + 1) (length (flat ss)) = flat ss"
    by (subst (asm) append_eq_append_conv; simp)+
  with s Cons.IH [OF rest] Cons.prems(2) show ?case by (simp add: string_at_def add.assoc)
qed

lemma placed_flat:
  assumes "placed m c e (offsets c ss) ss"
  shows "get_bytes m c (length (flat ss)) = flat ss \<and> list_all c_string ss \<and> c + length (flat ss) \<le> e"
  using assms
proof (induction ss arbitrary: c)
  case Nil
  then show ?case by simp
next
  case (Cons s ss)
  then have s: "string_at m c s" and ss: "placed m (c + length s + 1) e (offsets (c + length s + 1) ss) ss" by simp_all
  have rest: "get_bytes m (c + (length s + 1)) (length (flat ss)) = flat ss"
    using Cons.IH [OF ss] by (simp add: add.assoc)
  have "get_bytes m c ((length s + 1) + length (flat ss)) = (s @ [CHR 0x00]) @ flat ss"
    unfolding get_bytes_append [of m c "length s + 1"] rest using s by (simp only: string_at_def)
  with s Cons.IH [OF ss] show ?case by (simp add: string_at_def add.assoc)
qed

lemma read_str_at:
  assumes "string_at (am a) q s" and "area_start a \<le> q" and "q + length s + 1 \<le> area_end a"
  shows "read_str a (Some q) = Inr s" and "strlen a (Some q) = Inr (length s)"
proof -
  define k where "k = area_end a - q - (length s + 1)"
  have "area_end a - q = (length s + 1) + k" using assms(3) by (simp add: k_def)
  then have "get_bytes (am a) q (area_end a - q) = s @ CHR 0x00 # get_bytes (am a) (q + length s + 1) k"
    using assms(1) unfolding string_at_def by (metis add.assoc append.assoc append_Cons append_Nil get_bytes_append)
  with assms show "read_str a (Some q) = Inr s" by (simp add: read_str_def string_at_def)
  then show "strlen a (Some q) = Inr (length s)" by (simp add: strlen_def)
qed

section \<open>Removing a string\<close>

lemma ptr_at_simps [simp]:
  "ptr_at (xs @ y # ys) (length xs) = Inr y"
  "ptr_at (y # ys) 0 = Inr y"
  "ptr_at (xs @ y # z # ys) (Suc (length xs)) = Inr z"
  by (simp_all add: ptr_at_def nth_append)

lemma shift_ptrs_spec:
  assumes "placed (am a) d (area_end a) (offsets d ss) ss" and "area_start a \<le> d"
    and "k \<le> length xs" and "(xs @ [Some q]) ! k = Some c" and "k = length xs \<Longrightarrow> len_after = 0"
  shows "shift_ptrs a k (length ss) (length xs) len_after (xs @ Some q # map Some (offsets d ss) @ ys) =
    Inr (xs @ map Some (offsets (c + len_after) ss) @ Some (last (q # offsets d ss)) # ys, len_after + length (flat ss))"
  using assms
proof (induction ss arbitrary: d xs q len_after)
  case Nil
  show ?case by simp
next
  case (Cons t ss)
  let ?xs = "xs @ [Some (c + len_after)]"
  have t: "string_at (am a) d t" and ss: "placed (am a) (d + length t + 1) (area_end a) (offsets (d + length t + 1) ss) ss"
    using Cons.prems(1) by simp_all
  have len: "strlen a (Some d) = Inr (length t)"
    using read_str_at(2) [OF t Cons.prems(2)] placed_le [OF ss] by simp
  have k: "ptr_at (xs @ Some q # map Some (offsets d (t # ss)) @ ys) k = Inr (Some c)"
    using Cons.prems(3,4) by (auto simp: ptr_at_def nth_append split: if_splits)
  have base: "(?xs @ [Some d]) ! k = Some c"
    using Cons.prems(3-5) by (auto simp: nth_append split: if_splits)
  have "shift_ptrs a k (length ss) (length ?xs) (len_after + length t + 1)
      (?xs @ Some d # map Some (offsets (d + length t + 1) ss) @ ys) =
    Inr (?xs @ map Some (offsets (c + (len_after + length t + 1)) ss) @ Some (last (d # offsets (d + length t + 1) ss)) # ys,
      len_after + length t + 1 + length (flat ss))"
    using Cons.prems(2,3) by (intro Cons.IH [OF ss _ _ base]) auto
  moreover have "shift_ptrs a k (length (t # ss)) (length xs) len_after (xs @ Some q # map Some (offsets d (t # ss)) @ ys) =
      shift_ptrs a k (length ss) (length ?xs) (len_after + length t + 1)
        (?xs @ Some d # map Some (offsets (d + length t + 1) ss) @ ys)"
    using k len by (simp add: ptr_add_def)
  ultimately show ?case by (simp add: add.assoc)
qed

lemma put_bytes_append:
  "put_bytes (c + length bs) cs (put_bytes c bs m) = put_bytes c (bs @ cs) m"
  by (auto simp: put_bytes_def nth_append fun_eq_iff)

lemma remove_string_spec:
  assumes "placed (am a) c (area_end a) (offsets c (s # ss)) (s # ss)" and "area_start a \<le> c" and "ss \<noteq> []"
  shows "remove_string (length xs) (length xs + length ss) (xs @ map Some (offsets c (s # ss)) @ None # ys) a =
    Inr (xs @ map Some (offsets c ss) @ None # None # ys,
         a\<lparr>am := put_bytes c (flat ss @ replicate (length s + 1) (CHR 0x00)) (am a)\<rparr>)"
proof -
  let ?d = "c + length s + 1"
  have s: "string_at (am a) c s" and ss: "placed (am a) ?d (area_end a) (offsets ?d ss) ss"
    using assms(1) by simp_all
  have flat: "get_bytes (am a) ?d (length (flat ss)) = flat ss" "?d + length (flat ss) \<le> area_end a"
    using placed_flat [OF ss] by blast+
  have len: "strlen a (Some c) = Inr (length s)"
    using read_str_at(2) [OF s assms(2)] placed_le [OF ss] by simp
  obtain t ts where t: "ss = t # ts" using assms(3) by (cases ss) simp_all
  have shift: "shift_ptrs a (length xs) (length ss) (length xs) 0 (xs @ Some c # map Some (offsets ?d ss) @ None # ys) =
      Inr (xs @ map Some (offsets c ss) @ Some (last (c # offsets ?d ss)) # None # ys, length (flat ss))"
    using shift_ptrs_spec [OF ss, of "length xs" xs c c 0 "None # ys"] assms(2) by simp
  have upd: "(xs @ map Some (offsets c ss) @ p # None # ys)[length xs + length ss := None] =
      xs @ map Some (offsets c ss) @ None # None # ys" for p
    by (simp add: list_update_append)
  have q: "ptr_at (xs @ map Some (offsets c ss) @ zs) (length xs) = Inr (Some c)" for zs
    by (simp add: t)
  have move: "memmove (Some c) (Some ?d) (length (flat ss)) a = Inr (a\<lparr>am := put_bytes c (flat ss) (am a)\<rparr>)"
  proof -
    have "flat ss \<noteq> []" by (simp add: t)
    with assms(2) flat show ?thesis by (simp add: memmove_def in_area_def)
  qed
  have set: "memset0 (Some (c + length (flat ss))) (length s + 1) (a\<lparr>am := put_bytes c (flat ss) (am a)\<rparr>) =
      Inr (a\<lparr>am := put_bytes c (flat ss @ replicate (length s + 1) (CHR 0x00)) (am a)\<rparr>)"
    using assms(2) flat(2) by (simp add: memset0_def in_area_def put_bytes_append del: replicate_Suc)
  have succ: "ptr_at (xs @ Some c # map Some (offsets ?d ss) @ None # ys) (length xs + 1) = Inr (Some ?d)"
    by (simp add: t)
  show ?thesis
    using len shift upd q move set succ unfolding remove_string_def by (simp add: ptr_add_def del: replicate_Suc)
qed

lemma remove_string_last:
  assumes "string_at (am a) c s" and "area_start a \<le> c" and "c + length s + 1 \<le> area_end a"
  shows "remove_string (length xs) (length xs) (xs @ Some c # None # ys) a = Inl Null_Pointer"
  using read_str_at(2) [OF assms] unfolding remove_string_def
  by (simp add: memmove_def memset0_def ptr_add_def)

section \<open>The environment\<close>

lemma placed_end_mono: "placed m c e ps ss \<Longrightarrow> e \<le> e' \<Longrightarrow> placed m c e' ps ss"
  by (induction m c e ps ss rule: placed.induct) auto

text \<open>A variable as the program sees it.\<close>

definition env_renamed :: "string \<Rightarrow> string" where
  "env_renamed s = (if env_var_matches s ''__mldr_DYLD_ROOT_PATH='' then drop 7 s else s)"

text \<open>
  What the loop leaves when the variables \<open>ts\<close> from \<open>c0\<close> on are done and \<open>es\<close> are left.
\<close>

definition env_result :: "nat \<Rightarrow> string list \<Rightarrow> string list \<Rightarrow> arg_area \<Rightarrow> arg_error + arg_area \<Rightarrow> bool" where
  "env_result c0 ts es a res \<longleftrightarrow>
     (if es \<noteq> [] \<and> own_variable (last es) then res = Inl Null_Pointer
      else \<exists>a' ps ys. res = Inr a' \<and> envc a' = length ps \<and> envp a' = map Some ps @ None # ys \<and>
        placed (am a') c0 (area_end a) ps (ts @ map env_renamed (filter (\<lambda>s. \<not> own_variable s) es)) \<and>
        (\<forall>i. i < c0 \<or> area_end a \<le> i \<longrightarrow> am a' i = am a i) \<and> argc a' = argc a \<and> argv a' = argv a \<and>
        area_start a' = area_start a \<and> area_end a' = area_end a)"

text \<open>The state before a round.\<close>

definition env_at :: "nat \<Rightarrow> nat \<Rightarrow> nat list \<Rightarrow> string list \<Rightarrow> nat list \<Rightarrow> string list \<Rightarrow> nat \<Rightarrow> arg_area \<Rightarrow> bool" where
  "env_at c0 c qs ts rs es r a \<longleftrightarrow>
     envc a = length qs + length es + r \<and> (\<exists>ys. envp a = map Some qs @ map Some rs @ None # ys) \<and>
     area_start a \<le> c0 \<and> placed (am a) c0 c qs ts \<and> placed (am a) c (area_end a) rs es \<and>
     (rs = offsets c es \<and> r = 0 \<or> list_all (\<lambda>s. \<not> own_variable s) es)"

lemma env_at_drop:
  assumes st: "env_at c0 c qs ts rs (e # es) r a" and "own_variable e" and "es \<noteq> []"
  obtains ps a' where "remove_string (length qs) (envc a - 1) (envp a) a = Inr (ps, a')"
    and "env_at c0 c qs ts (offsets c es) es 0 (a'\<lparr>envc := envc a - 1, envp := ps\<rparr>)"
    and "a' = a\<lparr>am := am a'\<rparr>" and "\<forall>i. i < c \<or> area_end a \<le> i \<longrightarrow> am a' i = am a i" and "r = 0"
proof -
  from st assms(2) obtain ys where envp: "envp a = map Some qs @ map Some (offsets c (e # es)) @ None # ys"
    and envc: "envc a = length qs + length es + 1" and "r = 0"
    and qs: "placed (am a) c0 c qs ts" and es: "placed (am a) c (area_end a) (offsets c (e # es)) (e # es)"
    and lo: "area_start a \<le> c0"
    unfolding env_at_def by auto
  let ?m = "put_bytes c (flat es @ replicate (length e + 1) (CHR 0x00)) (am a)"
  have "area_start a \<le> c" using lo placed_le [OF qs] by simp
  note rm = remove_string_spec [OF es this assms(3), of "map Some qs" ys]
  have fl: "list_all c_string es" "c + length e + 1 + length (flat es) \<le> area_end a"
    using placed_flat [OF es] by (auto simp: add.assoc)
  have "get_bytes ?m c (length (flat es)) = flat es" by (simp add: get_put_sub)
  from placed_offsets [OF this fl(1)] have es': "placed ?m c (area_end a) (offsets c es) es"
    by (rule placed_end_mono) (use fl(2) in simp)
  have qs': "placed ?m c0 c qs ts" using qs by (rule placed_cong) (simp add: put_bytes_other)
  show thesis
  proof (rule that)
    show "remove_string (length qs) (envc a - 1) (envp a) a =
        Inr (map Some qs @ map Some (offsets c es) @ None # None # ys, a\<lparr>am := ?m\<rparr>)"
      using rm envp envc by simp
    show "env_at c0 c qs ts (offsets c es) es 0
        ((a\<lparr>am := ?m\<rparr>)\<lparr>envc := envc a - 1, envp := map Some qs @ map Some (offsets c es) @ None # None # ys\<rparr>)"
      using es' qs' lo envc by (simp add: env_at_def del: replicate_Suc)
    show "r = 0" by fact
    show "\<forall>i. i < c \<or> area_end a \<le> i \<longrightarrow> am (a\<lparr>am := ?m\<rparr>) i = am a i"
      using fl(2) by (auto simp: put_bytes_other)
  qed simp
qed

lemma env_at_head:
  assumes "env_at c0 c qs ts rs (e # es) r a"
  obtains p rs' where "rs = p # rs'" and "ptr_at (envp a) (length qs) = Inr (Some p)" and "c0 \<le> p"
    and "string_at (am a) p e" and "in_area a p (length e + 1)" and "read_str a (Some p) = Inr e"
proof -
  from assms obtain p rs' where rs: "rs = p # rs'" "c \<le> p" "string_at (am a) p e"
    "placed (am a) (p + length e + 1) (area_end a) rs' es"
    unfolding env_at_def by (cases rs) auto
  moreover have "ptr_at (envp a) (length qs) = Inr (Some p)"
    using assms rs(1) unfolding env_at_def by (auto simp: ptr_at_def nth_append)
  moreover have "area_start a \<le> c0" "c0 \<le> c" using assms placed_le unfolding env_at_def by blast+
  moreover have "p + length e + 1 \<le> area_end a" using placed_le [OF rs(4)] .
  ultimately show thesis using that read_str_at(1) [OF rs(3)] by (auto simp: in_area_def)
qed

lemma env_at_step:
  assumes st: "env_at c0 c qs ts (p # rs) (e # es) r a" and "\<not> own_variable e" and s: "string_at m p s" and "length s \<le> length e"
    and m: "\<And>i. i < p \<or> p + length e + 1 \<le> i \<Longrightarrow> m i = am a i"
  shows "env_at c0 (p + length e + 1) (qs @ [p]) (ts @ [s]) rs es r (a\<lparr>am := m\<rparr>)"
proof -
  from st have p: "c \<le> p" and qs: "placed (am a) c0 c qs ts"
    and rs: "placed (am a) (p + length e + 1) (area_end a) rs es"
    unfolding env_at_def by auto
  have "placed m c0 p qs ts" by (rule placed_cong [OF placed_end_mono [OF qs p]]) (simp add: m)
  moreover have "placed m p (p + length e + 1) [p] [s]" using s assms(4) by simp
  ultimately have "placed m c0 (p + length e + 1) (qs @ [p]) (ts @ [s])" by (rule placed_append)
  moreover have "placed m (p + length e + 1) (area_end a) rs es" using rs by (rule placed_cong) (simp add: m)
  moreover have "rs = offsets (p + length e + 1) es \<and> r = 0 \<or> list_all (\<lambda>s. \<not> own_variable s) es"
    using st unfolding env_at_def by auto
  ultimately show ?thesis using st unfolding env_at_def by auto
qed

lemma env_root_path:
  assumes "env_var_matches e ''__mldr_DYLD_ROOT_PATH=''" and e: "string_at (am a) p e" and "in_area a p (length e + 1)"
  shows "strlen a (ptr_add (Some p) 7) = Inr (length e - 7)"
    and "memmove (Some p) (ptr_add (Some p) 7) (length e - 7 + 1) a =
      Inr (a\<lparr>am := put_bytes p (drop 7 e @ [CHR 0x00]) (am a)\<rparr>)"
    and "c_string (drop 7 e)" and "length (drop 7 e) + 1 \<le> length e + 1"
proof -
  have len: "22 \<le> length e" using assms(1) by (simp add: env_var_matches_def)
  have "get_bytes (am a) p (7 + (length e - 7 + 1)) = e @ [CHR 0x00]"
    using e len by (simp add: string_at_def)
  then have "drop 7 (get_bytes (am a) p 7 @ get_bytes (am a) (p + 7) (length e - 7 + 1)) = drop 7 (e @ [CHR 0x00])"
    by (simp only: get_bytes_append)
  then have tail: "get_bytes (am a) (p + 7) (length e - 7 + 1) = drop 7 e @ [CHR 0x00]"
    using len by simp
  show c: "c_string (drop 7 e)" using e by (auto simp: string_at_def c_string_def dest: in_set_dropD)
  then have at: "string_at (am a) (p + 7) (drop 7 e)" using tail by (simp add: string_at_def)
  show "strlen a (ptr_add (Some p) 7) = Inr (length e - 7)"
    using read_str_at(2) [OF at] assms(3) len by (simp add: ptr_add_def in_area_def)
  show "memmove (Some p) (ptr_add (Some p) 7) (length e - 7 + 1) a =
      Inr (a\<lparr>am := put_bytes p (drop 7 e @ [CHR 0x00]) (am a)\<rparr>)"
    using tail assms(3) len by (auto simp: memmove_def ptr_add_def in_area_def)
  show "length (drop 7 e) + 1 \<le> length e + 1" by simp
qed

lemma env_at_keep:
  assumes st: "env_at c0 c qs ts rs (e # es) r a" and own: "\<not> own_variable e"
  obtains c' q rs' a' where "adjust_env_from (Suc n) (length qs) a = adjust_env_from n (length (qs @ [q])) a'"
    and "env_at c0 c' (qs @ [q]) (ts @ [env_renamed e]) rs' es r a'" and "\<forall>i. i < c0 \<or> area_end a \<le> i \<longrightarrow> am a' i = am a i"
    and "a' = a\<lparr>am := am a'\<rparr>"
proof -
  from st obtain p rs' where rs: "rs = p # rs'" and p: "ptr_at (envp a) (length qs) = Inr (Some p)" "c0 \<le> p"
    "string_at (am a) p e" "in_area a p (length e + 1)" "read_str a (Some p) = Inr e"
    by (rule env_at_head)
  note st = st [unfolded rs]
  have i: "length qs < envc a" using st by (simp add: env_at_def)
  show thesis
  proof (cases "env_var_matches e ''__mldr_DYLD_ROOT_PATH=''")
    case True
    note root = env_root_path [OF True p(3,4)]
    let ?m = "put_bytes p (drop 7 e @ [CHR 0x00]) (am a)"
    have at: "string_at ?m p (drop 7 e)" using root(3) by (rule string_at_put)
    have "env_at c0 (p + length e + 1) (qs @ [p]) (ts @ [drop 7 e]) rs' es r (a\<lparr>am := ?m\<rparr>)"
      by (rule env_at_step [OF st own at]) (auto simp: put_bytes_def)
    moreover have "adjust_env_from (Suc n) (length qs) a = adjust_env_from n (length (qs @ [p])) (a\<lparr>am := ?m\<rparr>)"
      using i p own True root(1,2) by simp
    moreover have "\<forall>i. i < c0 \<or> area_end a \<le> i \<longrightarrow> am (a\<lparr>am := ?m\<rparr>) i = am a i"
      using p(2,4) by (auto simp: put_bytes_other in_area_def)
    ultimately show thesis using True by (intro that) (auto simp: env_renamed_def)
  next
    case False
    have "env_at c0 (p + length e + 1) (qs @ [p]) (ts @ [e]) rs' es r (a\<lparr>am := am a\<rparr>)"
      using p(3) by (intro env_at_step [OF st own]) auto
    moreover have "adjust_env_from (Suc n) (length qs) a = adjust_env_from n (length (qs @ [p])) a"
      using i p own False by simp
    ultimately show thesis using False by (intro that) (auto simp: env_renamed_def)
  qed
qed

lemma env_result_frame:
  assumes "env_result c0 ts' es' a' res" and "es' \<noteq> [] \<or> \<not> own_variable e" and "es = e # es'"
    and "ts' @ map env_renamed (filter (\<lambda>s. \<not> own_variable s) es') = ts @ map env_renamed (filter (\<lambda>s. \<not> own_variable s) es)"
    and "\<forall>i. i < c0 \<or> area_end a \<le> i \<longrightarrow> am a' i = am a i" "argc a' = argc a" "argv a' = argv a" "area_start a' = area_start a" "area_end a' = area_end a"
  shows "env_result c0 ts es a res"
  using assms unfolding env_result_def by (cases "es' = []") (auto split: if_splits)

lemma adjust_env_from_result:
  "env_at c0 c qs ts rs es r a \<Longrightarrow> env_result c0 ts es a (adjust_env_from (length es + r) (length qs) a)"
proof (induction es arbitrary: c qs ts rs r a)
  case Nil
  then have rs: "rs = []" unfolding env_at_def by (cases rs) auto
  with Nil obtain ys where "envp a = map Some qs @ None # ys" "envc a = length qs + r"
    "placed (am a) c0 c qs ts" "c \<le> area_end a"
    unfolding env_at_def by auto
  then show ?case
    by (cases r) (auto simp: env_result_def ptr_at_def nth_append intro: placed_end_mono)
next
  case (Cons e es)
  show ?case
  proof (cases "own_variable e")
    case False
    from env_at_keep [OF Cons.prems False, of "length es + r"] obtain c' q rs' a' where
      step: "adjust_env_from (Suc (length es + r)) (length qs) a = adjust_env_from (length es + r) (length (qs @ [q])) a'"
      and st: "env_at c0 c' (qs @ [q]) (ts @ [env_renamed e]) rs' es r a'"
      and frame: "\<forall>i. i < c0 \<or> area_end a \<le> i \<longrightarrow> am a' i = am a i" "a' = a\<lparr>am := am a'\<rparr>" by metis
    have "argc a' = argc a" "argv a' = argv a" "area_start a' = area_start a" "area_end a' = area_end a"
      by (subst frame(2); simp)+
    with env_result_frame [OF Cons.IH [OF st], of e "e # es" ts a] step frame(1) False show ?thesis by simp
  next
    case True
    show ?thesis
    proof (cases "es = []")
      case nil: True
      from Cons.prems obtain p rs' where "rs = p # rs'" and p: "ptr_at (envp a) (length qs) = Inr (Some p)"
        "string_at (am a) p e" "in_area a p (length e + 1)" "read_str a (Some p) = Inr e"
        by (rule env_at_head)
      have "r = 0" "envc a = length qs + 1" using Cons.prems True nil by (auto simp: env_at_def)
      moreover obtain ys where "envp a = map Some qs @ Some p # None # ys"
        using Cons.prems nil \<open>rs = p # rs'\<close> by (auto simp: env_at_def dest: placed_length)
      ultimately show ?thesis
        using remove_string_last [OF p(2), of "map Some qs" ys] p nil True by (simp add: env_result_def in_area_def)
    next
      case False
      obtain ps a' where rm: "remove_string (length qs) (envc a - 1) (envp a) a = Inr (ps, a')"
        and st: "env_at c0 c qs ts (offsets c es) es 0 (a'\<lparr>envc := envc a - 1, envp := ps\<rparr>)"
        and frame: "a' = a\<lparr>am := am a'\<rparr>" "\<forall>i. i < c \<or> area_end a \<le> i \<longrightarrow> am a' i = am a i" "r = 0"
        by (rule env_at_drop [OF Cons.prems True False])
      from Cons.prems obtain p rs' where p: "ptr_at (envp a) (length qs) = Inr (Some p)" "read_str a (Some p) = Inr e"
        by (rule env_at_head)
      have same: "envc a' = envc a" "argc a' = argc a" "argv a' = argv a" "area_start a' = area_start a" "area_end a' = area_end a"
        by (subst frame(1); simp)+
      have "c0 \<le> c" "length qs < envc a" using Cons.prems placed_le by (auto simp: env_at_def)
      with frame have "\<forall>i. i < c0 \<or> area_end a \<le> i \<longrightarrow> am a' i = am a i" by simp
      moreover have "adjust_env_from (length (e # es) + r) (length qs) a =
          adjust_env_from (length es + 0) (length qs) (a'\<lparr>envc := envc a - 1, envp := ps\<rparr>)"
        using p rm True frame(3) same(1) \<open>length qs < envc a\<close> by simp
      ultimately show ?thesis
        using env_result_frame [OF Cons.IH [OF st], of e "e # es" ts a] False True same by simp
    qed
  qed
qed

text \<open>The library's removal of variables.\<close>

lemma placed_read:
  "placed (am a) c (area_end a) ps ss \<Longrightarrow> area_start a \<le> c \<Longrightarrow> (p, s) \<in> set (zip ps ss) \<Longrightarrow> read_str a (Some p) = Inr s"
proof (induction ps arbitrary: c ss)
  case Nil
  then show ?case by simp
next
  case (Cons q ps)
  then obtain t ts where ss: "ss = t # ts" by (cases ss) auto
  with Cons.prems have q: "c \<le> q" "string_at (am a) q t" "placed (am a) (q + length t + 1) (area_end a) ps ts" by auto
  have "read_str a (Some q) = Inr t" using read_str_at(1) [OF q(2)] q(1) placed_le [OF q(3)] Cons.prems(2) by simp
  moreover have "read_str a (Some p) = Inr s" if "(p, s) \<in> set (zip ps ts)"
    using Cons.IH [OF q(3) _ that] q(1) Cons.prems(2) by simp
  ultimately show ?case using Cons.prems(3) ss by auto
qed

lemma placed_filter:
  "placed m c e ps ss \<Longrightarrow> (\<And>p s. (p, s) \<in> set (zip ps ss) \<Longrightarrow> P p \<longleftrightarrow> Q s) \<Longrightarrow> placed m c e (filter P ps) (filter Q ss)"
proof (induction m c e ps ss rule: placed.induct)
  case (2 m c e p ps s ss)
  then have "placed m (p + length s + 1) e (filter P ps) (filter Q ss)" by auto
  moreover from this have "placed m c e (filter P ps) (filter Q ss)" using 2(2) by (auto intro: placed_mono)
  ultimately show ?case using 2(2) 2(3) [of p s] by auto
qed auto

text \<open>The array has the strings at rising addresses, and ends.\<close>

definition env_array :: "arg_area \<Rightarrow> nat \<Rightarrow> string list \<Rightarrow> bool" where
  "env_array a c ss \<longleftrightarrow>
     (\<exists>ps ys. envp a = map Some ps @ None # ys \<and> placed (am a) c (area_end a) ps ss)"

lemma unsetenv_frame [simp]:
  "am (unsetenv nm a) = am a" "area_start (unsetenv nm a) = area_start a" "area_end (unsetenv nm a) = area_end a"
  "argc (unsetenv nm a) = argc a" "argv (unsetenv nm a) = argv a" "envc (unsetenv nm a) = envc a"
  by (simp_all add: unsetenv_def Let_def)

lemma unset_special_env_frame [simp]:
  "am (unset_special_env a) = am a" "area_start (unset_special_env a) = area_start a"
  "area_end (unset_special_env a) = area_end a" "argc (unset_special_env a) = argc a"
  "argv (unset_special_env a) = argv a" "envc (unset_special_env a) = envc a"
  by (simp_all add: unset_special_env_def)

lemma unsetenv_array:
  assumes "env_array a c ss" and "area_start a \<le> c"
  shows "env_array (unsetenv nm a) c (filter (\<lambda>s. \<not> names_var nm s) ss)"
proof -
  from assms(1) obtain ps ys where ps: "envp a = map Some ps @ None # ys" "placed (am a) c (area_end a) ps ss"
    unfolding env_array_def by blast
  let ?keep = "\<lambda>p. case read_str a p of Inl _ \<Rightarrow> True | Inr s \<Rightarrow> \<not> names_var nm s"
  let ?ps = "filter (\<lambda>p. ?keep (Some p)) ps"
  have live: "takeWhile (\<lambda>p. p \<noteq> None) (envp a) = map Some ps"
    unfolding ps(1) by (subst takeWhile_append2) auto
  define k where "k = length ps + length ys - length ?ps"
  have "length (envp a) - length ?ps = Suc k"
    by (simp add: ps(1) k_def Suc_diff_le trans_le_add1)
  then have "envp (unsetenv nm a) = map Some ?ps @ None # replicate k None"
    unfolding unsetenv_def live by (simp add: filter_map comp_def)
  moreover have "placed (am a) c (area_end a) ?ps (filter (\<lambda>s. \<not> names_var nm s) ss)"
    using ps(2) by (rule placed_filter) (simp add: placed_read [OF ps(2) assms(2)])
  ultimately show ?thesis by (auto simp: env_array_def)
qed

definition special_variable :: "string \<Rightarrow> bool" where
  "special_variable s \<longleftrightarrow>
     names_var ''__mldr_bprefs'' s \<or> names_var ''__mldr_sockpath'' s \<or> names_var ''__mldr_lifetime_pipe'' s"

lemma own_special: "own_variable s \<Longrightarrow> special_variable s"
  by (auto simp: own_variable_def special_variable_def env_var_matches_def names_var_def)

lemma unset_special_env_array:
  assumes "env_array a c ss" and "area_start a \<le> c"
  shows "env_array (unset_special_env a) c (filter (\<lambda>s. \<not> special_variable s) ss)"
proof -
  note u1 = unsetenv_array [OF assms, of "''__mldr_bprefs''"]
  note u2 = unsetenv_array [OF u1, of "''__mldr_sockpath''"]
  note u3 = unsetenv_array [OF u2, of "''__mldr_lifetime_pipe''"]
  with assms(2) show ?thesis
    by (simp add: special_variable_def unset_special_env_def conj_commute conj_left_commute)
qed

section \<open>Properties\<close>

text \<open>Strings that lie in a range or in the buffer of 4096 bytes at \<open>u\<close>.\<close>

definition strings_in :: "memory \<Rightarrow> nat \<Rightarrow> nat \<Rightarrow> nat \<Rightarrow> nat list \<Rightarrow> string list \<Rightarrow> bool" where
  "strings_in m lo hi u ps ss \<longleftrightarrow>
     list_all2 (\<lambda>p s. string_at m p s \<and> (lo \<le> p \<and> p + length s + 1 \<le> hi \<or> u \<le> p \<and> p + length s + 1 \<le> u + 4096)) ps ss"

lemma placed_strings: "placed m c e ps ss \<Longrightarrow> lo \<le> c \<Longrightarrow> strings_in m lo e u ps ss"
proof (induction m c e ps ss rule: placed.induct)
  case (2 m c e p ps s ss)
  then show ?case using placed_le [of m "p + length s + 1" e ps ss] by (auto simp: strings_in_def)
qed (auto simp: strings_in_def)

lemma string_at_cong: "string_at m p s \<Longrightarrow> (\<And>i. p \<le> i \<Longrightarrow> i < p + length s + 1 \<Longrightarrow> m' i = m i) \<Longrightarrow> string_at m' p s"
  unfolding string_at_def using get_bytes_cong [of p "length s + 1" m' m] by auto

lemma strings_in_cong:
  assumes "strings_in m lo hi u ps ss" and "\<And>i. lo \<le> i \<and> i < hi \<or> u \<le> i \<and> i < u + 4096 \<Longrightarrow> m' i = m i"
  shows "strings_in m' lo hi u ps ss"
  using assms(1) unfolding strings_in_def
proof (rule list_all2_mono)
  fix p s
  assume *: "string_at m p s \<and> (lo \<le> p \<and> p + length s + 1 \<le> hi \<or> u \<le> p \<and> p + length s + 1 \<le> u + 4096)"
  then have "string_at m' p s" by (intro string_at_cong [of m p s m'] assms(2)) auto
  with * show "string_at m' p s \<and> (lo \<le> p \<and> p + length s + 1 \<le> hi \<or> u \<le> p \<and> p + length s + 1 \<le> u + 4096)" by blast
qed

text \<open>The arguments that a program gets, and where they are.\<close>

definition program_args :: "bool \<Rightarrow> string option \<Rightarrow> string list \<Rightarrow> string list" where
  "program_args marked root ss =
     (case (marked, root) of (False, Some r) \<Rightarrow> unexpand_path r (hd ss) # tl ss | _ \<Rightarrow> ss)"

definition program_ptrs :: "bool \<Rightarrow> string option \<Rightarrow> nat \<Rightarrow> nat list \<Rightarrow> nat list" where
  "program_ptrs marked root unexpanded ps =
     (case (marked, root) of (False, Some r) \<Rightarrow> unexpanded # tl ps | _ \<Rightarrow> ps)"

text \<open>The buffer for the path lies outside of the area and is large enough.\<close>

definition buffer_ok :: "arg_area \<Rightarrow> string option \<Rightarrow> nat \<Rightarrow> string \<Rightarrow> bool" where
  "buffer_ok a root unexpanded s \<longleftrightarrow>
     (unexpanded + 4096 \<le> area_start a \<or> area_end a \<le> unexpanded) \<and>
     (case root of None \<Rightarrow> True | Some r \<Rightarrow> length (unexpand_path r s) + 1 \<le> 4096)"

text \<open>
  Arguments and variables as the kernel lays them out: strings one after the other, the
  variables above the arguments, and arrays that end with a null pointer.
\<close>

definition exec_layout :: "arg_area \<Rightarrow> nat \<Rightarrow> string list \<Rightarrow> nat \<Rightarrow> string list \<Rightarrow> bool" where
  "exec_layout a c args d es \<longleftrightarrow>
     argc a = length args \<and> argv a = map Some (offsets c args) @ [None] \<and> placed (am a) c d (offsets c args) args \<and>
     envc a = length es \<and> envp a = map Some (offsets d es) @ [None] \<and> placed (am a) d (area_end a) (offsets d es) es \<and>
     area_start a \<le> c"

lemma adjust_argv_spec:
  assumes c: "area_start a \<le> c" and n: "argc a = length (s # ss)" and v: "argv a = map Some (offsets c (s # ss)) @ [None]"
    and p: "placed (am a) c d (offsets c (s # ss)) (s # ss)" and d: "d \<le> area_end a" and "ss \<noteq> []"
  obtains m where "adjust_argv a = Inr (a\<lparr>am := m, argc := length ss, argv := map Some (offsets c ss) @ [None, None]\<rparr>)"
    and "placed m c d (offsets c ss) ss" and "\<And>i. i < c \<or> d \<le> i \<Longrightarrow> m i = am a i"
proof -
  let ?m = "put_bytes c (flat ss @ replicate (length s + 1) (CHR 0x00)) (am a)"
  have fl: "list_all c_string ss" "c + length s + 1 + length (flat ss) \<le> d"
    using placed_flat [OF p] by (auto simp: add.assoc)
  note rm = remove_string_spec [OF placed_end_mono [OF p d] c assms(6), of "[]" "[]"]
  show thesis
  proof (rule that)
    show "adjust_argv a = Inr (a\<lparr>am := ?m, argc := length ss, argv := map Some (offsets c ss) @ [None, None]\<rparr>)"
      using rm by (simp add: adjust_argv_def n v del: replicate_Suc)
    have "get_bytes ?m c (length (flat ss)) = flat ss" by (simp add: get_put_sub)
    from placed_offsets [OF this fl(1)] show "placed ?m c d (offsets c ss) ss"
      by (rule placed_end_mono) (use fl(2) in simp)
    show "?m i = am a i" if "i < c \<or> d \<le> i" for i
      using that fl(2) by (auto simp: put_bytes_def)
  qed
qed

lemma adjust_argv_single:
  assumes "area_start a \<le> c" and "argc a = 1" and "argv a = [Some c, None]" and "string_at (am a) c s" and "c + length s + 1 \<le> area_end a"
  shows "adjust_argv a = Inl Null_Pointer"
  using remove_string_last [OF assms(4,1,5), of "[]" "[]"] by (simp add: adjust_argv_def assms(2,3))

lemma adjust_env_array:
  assumes env: "env_array a c es" and start: "area_start a \<le> c" and n: "length es \<le> envc a" and own: "list_all (\<lambda>s. \<not> own_variable s) es"
  shows "\<exists>a'. adjust_env a = Inr a' \<and> envc a' = length es \<and> env_array a' c (map env_renamed es) \<and>
    (\<forall>i. i < c \<or> area_end a \<le> i \<longrightarrow> am a' i = am a i) \<and> argc a' = argc a \<and> argv a' = argv a \<and>
    area_start a' = area_start a \<and> area_end a' = area_end a"
proof -
  from env obtain ps ys where ps: "envp a = map Some ps @ None # ys" "placed (am a) c (area_end a) ps es"
    unfolding env_array_def by blast
  have "env_at c c [] [] ps es (envc a - length es) a"
    using ps start n own by (auto simp: env_at_def)
  from adjust_env_from_result [OF this] have "env_result c [] es a (adjust_env a)"
    using n by (simp add: adjust_env_def)
  moreover have "\<not> (es \<noteq> [] \<and> own_variable (last es))" "filter (\<lambda>s. \<not> own_variable s) es = es"
    using own by (auto simp: list_all_iff)
  ultimately obtain a' ps' ys' where "adjust_env a = Inr a'" "envc a' = length ps'" "envp a' = map Some ps' @ None # ys'"
    "placed (am a') c (area_end a) ps' (map env_renamed es)"
    "\<forall>i. i < c \<or> area_end a \<le> i \<longrightarrow> am a' i = am a i" "argc a' = argc a" "argv a' = argv a"
    "area_start a' = area_start a" "area_end a' = area_end a"
    unfolding env_result_def by auto
  then show ?thesis using placed_length unfolding env_array_def by fastforce
qed

lemma c_string_unexpand: "c_string s \<Longrightarrow> c_string (unexpand_path r s)"
  by (auto simp: unexpand_path_def SYSTEM_ROOT_def c_string_def dest: in_set_dropD)

lemma unexpand_step:
  assumes v: "argv a = map Some ps @ ys" and ps: "placed (am a) c d ps ss" and "ss \<noteq> []"
    and area: "area_start a \<le> c" "d \<le> area_end a" and buf: "buffer_ok a root u (hd ss)"
  obtains m where "(if marked then Inr a else vchroot_unexpand_interpreter root u a) =
      Inr (a\<lparr>am := m, argv := map Some (program_ptrs marked root u ps) @ ys\<rparr>)"
    and "strings_in m (area_start a) d u (program_ptrs marked root u ps) (program_args marked root ss)"
    and "\<And>i. area_start a \<le> i \<Longrightarrow> i < area_end a \<Longrightarrow> m i = am a i"
proof (cases "marked \<or> root = None")
  case True
  have "a = a\<lparr>am := am a, argv := argv a\<rparr>" by simp
  with True v placed_strings [OF ps area(1)] show thesis
    by (intro that [of "am a"]) (auto simp: program_ptrs_def program_args_def vchroot_unexpand_interpreter_def split: bool.splits)
next
  case False
  then obtain r where r: "root = Some r" "\<not> marked" by auto
  from ps assms(3) obtain p ps' s ss' where split: "ps = p # ps'" "ss = s # ss'"
    and s: "c \<le> p" "string_at (am a) p s" "placed (am a) (p + length s + 1) d ps' ss'"
    by (cases "(am a, c, d, ps, ss)" rule: placed.cases) auto
  let ?t = "unexpand_path r s"
  let ?m = "put_bytes u (?t @ [CHR 0x00]) (am a)"
  have t: "length ?t + 1 \<le> 4096" and out: "u + 4096 \<le> area_start a \<or> area_end a \<le> u"
    using buf split r by (simp_all add: buffer_ok_def)
  have frame: "?m i = am a i" if "area_start a \<le> i" "i < area_end a" for i
    using that t out by (intro put_bytes_other) auto
  have "read_str a (Some p) = Inr s"
    using read_str_at(1) [OF s(2)] s(1) area placed_le [OF s(3)] by simp
  then have "vchroot_unexpand_interpreter root u a = Inr (a\<lparr>am := ?m, argv := map Some (u # ps') @ ys\<rparr>)"
    using t v split r by (simp add: vchroot_unexpand_interpreter_def)
  moreover have "string_at ?m u ?t"
    using s(2) by (intro string_at_put c_string_unexpand) (simp add: string_at_def)
  moreover have "placed ?m (p + length s + 1) d ps' ss'"
    using s(3) by (rule placed_cong) (use frame s(1) area in auto)
  ultimately show thesis
    using r split frame t s(1) area(1) placed_strings [of ?m _ _ ps' ss' "area_start a" u]
    by (intro that [of ?m]) (auto simp: program_ptrs_def program_args_def strings_in_def)
qed

lemma handover_single:
  assumes "exec_layout a c [s] d es"
  shows "main_handover marked root u a = Inl Null_Pointer"
proof -
  have "string_at (am a) c s" "c + length s + 1 \<le> d" "d \<le> area_end a" "area_start a \<le> c" "argc a = 1" "argv a = [Some c, None]"
    using assms placed_le by (auto simp: exec_layout_def)
  then show ?thesis using adjust_argv_single [of "unset_special_env a" c s] by (simp add: main_handover_def)
qed

lemma handover_result:
  assumes lay: "exec_layout a c (s # ss) d es" and ss: "ss \<noteq> []" and buf: "buffer_ok a root u (hd ss)"
  shows "\<exists>a'. main_handover marked root u a = Inr a' \<and> argc a' = length ss \<and>
      argv a' = map Some (program_ptrs marked root u (offsets c ss)) @ [None, None] \<and>
      strings_in (am a') (area_start a) d u (program_ptrs marked root u (offsets c ss)) (program_args marked root ss) \<and>
      envc a' = length (filter (\<lambda>v. \<not> special_variable v) es) \<and>
      env_array a' d (map env_renamed (filter (\<lambda>v. \<not> special_variable v) es)) \<and>
      area_start a' = area_start a \<and> area_end a' = area_end a"
proof -
  let ?u = "unset_special_env a" and ?es = "filter (\<lambda>v. \<not> special_variable v) es"
  let ?ptrs = "program_ptrs marked root u (offsets c ss)" and ?args = "program_args marked root ss"
  have args: "argc a = length (s # ss)" "argv a = map Some (offsets c (s # ss)) @ [None]"
    "placed (am a) c d (offsets c (s # ss)) (s # ss)" "area_start a \<le> c"
    and env: "envc a = length es" "env_array a d es" "d \<le> area_end a"
    using lay placed_le unfolding exec_layout_def env_array_def by blast+
  have start: "area_start a \<le> d" using args(4) placed_le [OF args(3)] by simp
  have "placed (am ?u) c d (offsets c (s # ss)) (s # ss)" using args(3) by simp
  from adjust_argv_spec [of ?u c s ss d, OF _ _ _ this _ ss] args env(3) obtain m where
    m: "adjust_argv ?u = Inr (?u\<lparr>am := m, argc := length ss, argv := map Some (offsets c ss) @ [None, None]\<rparr>)"
      "placed m c d (offsets c ss) ss" "\<And>i. i < c \<or> d \<le> i \<Longrightarrow> m i = am a i" by auto
  let ?a = "?u\<lparr>am := m, argc := length ss, argv := map Some (offsets c ss) @ [None, None]\<rparr>"
  obtain m2 where m2: "(if marked then Inr ?a else vchroot_unexpand_interpreter root u ?a) =
      Inr (?a\<lparr>am := m2, argv := map Some ?ptrs @ [None, None]\<rparr>)"
      "strings_in m2 (area_start a) d u ?ptrs ?args" "\<And>i. area_start a \<le> i \<Longrightarrow> i < area_end a \<Longrightarrow> m2 i = m i"
    by (rule unexpand_step [of ?a "offsets c ss" "[None, None]" c d ss root u marked])
      (use m(2) ss args(4) env(3) buf in \<open>auto simp: buffer_ok_def\<close>)
  let ?b = "?a\<lparr>am := m2, argv := map Some ?ptrs @ [None, None]\<rparr>"
  have "env_array ?b d ?es"
  proof -
    have "env_array ?u d ?es" using unset_special_env_array [OF env(2) start] .
    moreover have "m2 i = am a i" if "d \<le> i" "i < area_end a" for i using that m(3) m2(3) start by simp
    ultimately show ?thesis unfolding env_array_def by (auto intro: placed_cong)
  qed
  moreover have "list_all (\<lambda>v. \<not> own_variable v) ?es" using own_special by (auto simp: list_all_iff)
  ultimately obtain a' where a': "adjust_env ?b = Inr a'" "envc a' = length ?es" "env_array a' d (map env_renamed ?es)"
    "\<forall>i. i < d \<or> area_end a \<le> i \<longrightarrow> am a' i = m2 i" "argc a' = length ss" "argv a' = map Some ?ptrs @ [None, None]"
    "area_start a' = area_start a" "area_end a' = area_end a"
    using adjust_env_array [of ?b d ?es] start env(1) by auto
  moreover have "strings_in (am a') (area_start a) d u ?ptrs ?args"
    by (rule strings_in_cong [OF m2(2)]) (use a'(4) buf start env(3) in \<open>auto simp: buffer_ok_def\<close>)
  ultimately show ?thesis using m(1) m2(1) by (simp add: main_handover_def)
qed

text \<open>C19. A program that is started through the loader gets exactly the arguments it was given, without
  the loader's own first one, with their number; the first of them is turned into a path of
  the container when the program was not named in the loader's first argument. And it gets
  exactly the given variables in their order without the three that are meant for the loader,
  with the root path under its real name. When there is nothing after the first argument, which
  is only worth a warning before, the loader writes to a null pointer.\<close>
theorem main_handover_exact:
  assumes "exec_layout a c (s # ss) d es" and "ss \<noteq> [] \<Longrightarrow> buffer_ok a root u (hd ss)"
  shows "if ss = [] then main_handover marked root u a = Inl Null_Pointer
    else \<exists>a'. main_handover marked root u a = Inr a' \<and> argc a' = length ss \<and>
      argv a' = map Some (program_ptrs marked root u (offsets c ss)) @ [None, None] \<and>
      strings_in (am a') (area_start a) d u (program_ptrs marked root u (offsets c ss)) (program_args marked root ss) \<and>
      envc a' = length (filter (\<lambda>v. \<not> special_variable v) es) \<and>
      env_array a' d (map env_renamed (filter (\<lambda>v. \<not> special_variable v) es))"
proof (cases "ss = []")
  case True
  with assms(1) handover_single [of a c s d es] show ?thesis by simp
next
  case False
  with handover_result [OF assms(1) False assms(2) [OF False], of marked] show ?thesis by auto
qed

text \<open>An area with given strings.\<close>

definition area_example :: "string list \<Rightarrow> string list \<Rightarrow> arg_area" where
  "area_example args es =
     (let d = 64 + length (flat args)
      in \<lparr>am = put_bytes d (flat es) (put_bytes 64 (flat args) (\<lambda>_. CHR 0x00)), area_start = 64, area_end = d + length (flat es),
          argc = length args, argv = map Some (offsets 64 args) @ [None],
          envc = length es, envp = map Some (offsets d es) @ [None]\<rparr>)"

lemma area_example_layout:
  assumes "list_all c_string args" and "list_all c_string es"
  shows "exec_layout (area_example args es) 64 args (64 + length (flat args)) es"
proof -
  let ?d = "64 + length (flat args)"
  let ?m = "put_bytes ?d (flat es) (put_bytes 64 (flat args) (\<lambda>_. CHR 0x00))"
  have "get_bytes ?m 64 (length (flat args)) = flat args" by (simp add: get_put_other get_put_same)
  moreover have "get_bytes ?m ?d (length (flat es)) = flat es" by (simp add: get_put_same)
  ultimately show ?thesis
    using placed_offsets [of ?m 64 args] placed_offsets [of ?m ?d es] assms
    by (simp add: exec_layout_def area_example_def Let_def)
qed

theorem main_handover_exact_witness:
  "\<exists>a'. main_handover False (Some ''/r'') 4096 (area_example [''mldr'', ''/r/p'', ''x''] [''A=1'', ''__mldr_sockpath=/s'', ''__mldr_DYLD_ROOT_PATH=/r'']) = Inr a' \<and>
     argc a' = 2 \<and> strings_in (am a') 64 76 4096 [4096, 69] [''/p'', ''x''] \<and> env_array a' 76 [''A=1'', ''DYLD_ROOT_PATH=/r'']"
proof -
  let ?a = "area_example [''mldr'', ''/r/p'', ''x''] [''A=1'', ''__mldr_sockpath=/s'', ''__mldr_DYLD_ROOT_PATH=/r'']"
  have lay: "exec_layout ?a 64 [''mldr'', ''/r/p'', ''x''] 76 [''A=1'', ''__mldr_sockpath=/s'', ''__mldr_DYLD_ROOT_PATH=/r'']"
    using area_example_layout [of "[''mldr'', ''/r/p'', ''x'']" "[''A=1'', ''__mldr_sockpath=/s'', ''__mldr_DYLD_ROOT_PATH=/r'']"]
    by simp
  have "buffer_ok ?a (Some ''/r'') 4096 ''/r/p''" "area_start ?a = 64"
    by (simp_all add: buffer_ok_def area_example_def unexpand_path_def)
  then show ?thesis
    using main_handover_exact [OF lay, of "Some ''/r''" 4096 False]
    by (auto simp: special_variable_def names_var_def env_renamed_def env_var_matches_def program_ptrs_def program_args_def
        unexpand_path_def)
qed

text \<open>The loop over the variables by itself, on variables that stand one after the other as at the
  start of a process: those for the loader go, with the strings behind them moved up, the
  others stay in their order, the root path gets its name, and the memory of the arguments is
  untouched. A variable for the loader in the last place makes it write to a null pointer.\<close>
theorem adjust_env_filters:
  assumes "exec_layout a c args d es"
  shows "if es \<noteq> [] \<and> own_variable (last es) then adjust_env a = Inl Null_Pointer
    else \<exists>a'. adjust_env a = Inr a' \<and> envc a' = length (filter (\<lambda>v. \<not> own_variable v) es) \<and>
      env_array a' d (map env_renamed (filter (\<lambda>v. \<not> own_variable v) es)) \<and>
      argc a' = argc a \<and> argv a' = argv a \<and> placed (am a') c d (offsets c args) args"
proof -
  have env: "envc a = length es" "envp a = map Some (offsets d es) @ [None]" "placed (am a) d (area_end a) (offsets d es) es"
    and args: "placed (am a) c d (offsets c args) args" and "area_start a \<le> d"
    using assms placed_le [of "am a" c d] unfolding exec_layout_def by (auto intro: le_trans)
  then have "env_at d d [] [] (offsets d es) es 0 a" by (simp add: env_at_def)
  from adjust_env_from_result [OF this] have res: "env_result d [] es a (adjust_env a)"
    using env(1) by (simp add: adjust_env_def)
  show ?thesis
  proof (cases "es \<noteq> [] \<and> own_variable (last es)")
    case True
    with res show ?thesis by (simp add: env_result_def)
  next
    case False
    with res obtain a' ps ys where a': "adjust_env a = Inr a'" "envc a' = length ps" "envp a' = map Some ps @ None # ys"
      "placed (am a') d (area_end a) ps (map env_renamed (filter (\<lambda>s. \<not> own_variable s) es))"
      "\<forall>i. i < d \<or> area_end a \<le> i \<longrightarrow> am a' i = am a i" "argc a' = argc a" "argv a' = argv a" "area_end a' = area_end a"
      unfolding env_result_def by auto
    have "placed (am a') c d (offsets c args) args" using args by (rule placed_cong) (simp add: a'(5))
    moreover have "env_array a' d (map env_renamed (filter (\<lambda>s. \<not> own_variable s) es))"
      using a'(3,4,8) by (auto simp: env_array_def)
    ultimately show ?thesis using False a' placed_length [OF a'(4)] by auto
  qed
qed

theorem adjust_env_filters_witness:
  "\<exists>a'. adjust_env (area_example [''p''] [''__mldr_bprefs=7,0,0,0'', ''__mldr_sockpath=/s'', ''A=1'']) = Inr a' \<and>
     env_array a' 66 [''A=1''] \<and> placed (am a') 64 66 [64] [''p'']"
  using adjust_env_filters [OF area_example_layout
      [of "[''p'']" "[''__mldr_bprefs=7,0,0,0'', ''__mldr_sockpath=/s'', ''A=1'']"]]
  by (auto simp: own_variable_def env_renamed_def env_var_matches_def)

end
