(* ===== verification/Mldr_Stack.thy ===== *)
theory Mldr_Stack
  imports Macho_Loader Mldr_Args
begin

text \<open>
  The initial stack of a program (startup/mldr/stack.c, the 64-bit instance): the pointers to
  the arguments and variables, and the strings for the dynamic linker above them.
\<close>

section \<open>Printing\<close>

text \<open>The conversions of \<open>snprintf\<close> that are used: %d and %lx, into a buffer of a given size.\<close>

fun digits :: "nat \<Rightarrow> nat \<Rightarrow> nat list" where
  "digits b n = (if b \<le> 1 \<or> n < b then [n] else digits b (n div b) @ [n mod b])"

declare digits.simps [simp del]

definition digit_char :: "nat \<Rightarrow> char" where
  "digit_char d = (if d < 10 then char_of (48 + d) else char_of (87 + d))"

definition dec :: "int \<Rightarrow> string" where
  "dec i = (if i < 0 then ''-'' @ map digit_char (digits 10 (nat (- i))) else map digit_char (digits 10 (nat i)))"

definition hex :: "nat \<Rightarrow> string" where
  "hex n = map digit_char (digits 16 n)"

definition snprintf :: "char list \<Rightarrow> string \<Rightarrow> char list" where
  "snprintf buf s = (let t = take (length buf - 1) s @ [CHR 0x00] in t @ drop (length t) buf)"

section \<open>The path of the program\<close>

datatype stack_error = Path_Too_Big | Path_Overflow

text \<open>The path as the program knows it; moving it up in the buffer is not bounded by the code.\<close>

definition executable_path :: "string \<Rightarrow> string option \<Rightarrow> stack_error + string" where
  "executable_path filepath root =
     (if length filepath > 4095 then Inl Path_Too_Big
      else
        (case root of
           None \<Rightarrow> Inr filepath
         | Some r \<Rightarrow>
             let path = unexpand_path r filepath
             in if length path + 1 > 4096 then Inl Path_Overflow else Inr path))"

section \<open>The stack\<close>

definition user_long_count :: "nat \<Rightarrow> nat" where
  "user_long_count v = (v + (8 - 1)) div 8"

text \<open>Words written from an address upwards.\<close>

fun put_words :: "nat \<Rightarrow> nat list \<Rightarrow> memory \<Rightarrow> memory" where
  "put_words sp [] m = m"
| "put_words sp (w # ws) m = put_words (sp + 8) ws (put_bytes sp (le_bytes 8 w) m)"

text \<open>The loops over an array stop at a null pointer.\<close>

fun live_ptrs :: "nat \<Rightarrow> ptr list \<Rightarrow> nat list" where
  "live_ptrs (Suc n) (Some p # ps) = p # live_ptrs n ps"
| "live_ptrs n ps = []"

text \<open>
  The buffers \<open>kbuf\<close> and \<open>ebuf\<close> are given as they are before they are printed to; \<open>elfcalls\<close> is
  the address of the table of functions for the program.
\<close>

definition setup_stack ::
    "string \<Rightarrow> nat \<Rightarrow> char list \<Rightarrow> char list \<Rightarrow> arg_area \<Rightarrow> load_results \<Rightarrow> memory \<Rightarrow>
      stack_error + arg_area \<times> load_results \<times> memory" where
  "setup_stack filepath elfcalls kbuf ebuf a lr m =
     res_bind (executable_path filepath (root_path lr)) (\<lambda>path.
     let exepath_len = length path;
         sp = stack_top lr div 8 * 8 -
           8 * (1 + 1 + (argc a + 1) + (envc a + 1) + 4 + user_long_count (exepath_len + 17 + length kbuf + length ebuf));
         exepath_user = stack_top lr - exepath_len - 17;
         m = put_bytes exepath_user ''executable_path='' m;
         m = put_bytes (exepath_user + 16) (path @ [CHR 0x00]) m;
         kernfd_user = exepath_user - length kbuf;
         m = put_bytes kernfd_user (snprintf kbuf (''kernfd='' @ dec (kernfd lr))) m;
         elfcalls_user = kernfd_user - length ebuf;
         m = put_bytes elfcalls_user (snprintf ebuf (''elf_calls='' @ hex elfcalls)) m;
         args = live_ptrs (argc a) (argv a);
         envs = live_ptrs (envc a) (envp a);
         m = put_words sp ([lr_mh lr, argc a] @ args @ [0] @ envs @ [0] @ [exepath_user, kernfd_user, elfcalls_user, 0]) m
     in Inr (a\<lparr>argc := length args, envc := length envs\<rparr>, lr\<lparr>stack_top := sp\<rparr>, m))"

section \<open>Facts\<close>

definition get_words :: "memory \<Rightarrow> nat \<Rightarrow> nat \<Rightarrow> nat list" where
  "get_words m sp n = map (\<lambda>j. le_val (get_bytes m (sp + 8 * j) 8)) [0 ..< n]"

definition word_bytes :: "nat list \<Rightarrow> char list" where
  "word_bytes ws = concat (map (le_bytes 8) ws)"

lemma word_bytes_simps [simp]: "word_bytes [] = []" "word_bytes (w # ws) = le_bytes 8 w @ word_bytes ws"
  by (simp_all add: word_bytes_def)

lemma length_word_bytes [simp]: "length (word_bytes ws) = 8 * length ws"
  by (induction ws) simp_all

lemma put_words_bytes: "put_words sp ws m = put_bytes sp (word_bytes ws) m"
proof (induction ws arbitrary: sp m)
  case Nil
  show ?case by (auto simp: put_bytes_def fun_eq_iff)
next
  case (Cons w ws)
  then show ?case using put_bytes_append [of sp "le_bytes 8 w" "word_bytes ws" m] by simp
qed

lemma word_bytes_nth: "j < length ws \<Longrightarrow> take 8 (drop (8 * j) (word_bytes ws)) = le_bytes 8 (ws ! j)"
proof (induction ws arbitrary: j)
  case Nil
  then show ?case by simp
next
  case (Cons w ws)
  then show ?case by (cases j) simp_all
qed

lemma get_put_words:
  assumes "\<forall>w \<in> set ws. w < 2 ^ 64"
  shows "get_words (put_words sp ws m) sp (length ws) = ws"
proof (rule nth_equalityI)
  fix j assume "j < length (get_words (put_words sp ws m) sp (length ws))"
  then have j: "j < length ws" by (simp add: get_words_def)
  then have "get_bytes (put_words sp ws m) (sp + 8 * j) 8 = le_bytes 8 (ws ! j)"
    by (simp add: put_words_bytes get_put_sub word_bytes_nth)
  moreover have "ws ! j < 2 ^ 64" using assms j by simp
  ultimately show "get_words (put_words sp ws m) sp (length ws) ! j = ws ! j"
    using j by (simp add: get_words_def)
qed (simp add: get_words_def)

lemma live_ptrs_all: "live_ptrs (length ps) (map Some ps @ ys) = ps"
  by (induction ps) simp_all

lemma digits_bound: "0 < k \<Longrightarrow> n < b ^ k \<Longrightarrow> length (digits b n) \<le> k"
proof (induction k arbitrary: n)
  case 0
  then show ?case by simp
next
  case (Suc k)
  show ?case
  proof (cases "b \<le> 1 \<or> n < b")
    case True
    then show ?thesis by (subst digits.simps) simp
  next
    case False
    then have "0 < k" using Suc.prems by (cases k) simp_all
    moreover have "n div b < b ^ k" using Suc.prems(2) by (simp add: less_mult_imp_div_less mult.commute)
    ultimately show ?thesis using Suc.IH False by (subst digits.simps) simp
  qed
qed

lemma digits_less: "1 < b \<Longrightarrow> d \<in> set (digits b n) \<Longrightarrow> d < b"
proof (induction b n rule: digits.induct)
  case (1 b n)
  then show ?case by (subst (asm) (2) digits.simps) (auto split: if_splits)
qed

lemma digit_char_nonzero:
  assumes "d < 16"
  shows "digit_char d \<noteq> CHR 0x00"
proof
  assume "digit_char d = CHR 0x00"
  then have "of_char (digit_char d) = (0 :: nat)" by simp
  moreover have "of_char (digit_char d) = (if d < 10 then 48 + d else 87 + d)"
    using assms by (simp add: digit_char_def)
  ultimately show False by (simp split: if_splits)
qed

lemma c_string_digits:
  assumes "1 < b" and "b \<le> 16"
  shows "c_string (map digit_char (digits b n))"
proof -
  have "digit_char d \<noteq> CHR 0x00" if "d \<in> set (digits b n)" for d
    using digits_less [OF assms(1) that] assms(2) by (intro digit_char_nonzero) simp
  then have "CHR 0x00 \<notin> digit_char ` set (digits b n)" by (metis imageE)
  then show ?thesis by (simp add: c_string_def)
qed

lemma c_string_hex: "c_string (hex n)" and c_string_dec: "c_string (dec i)"
  by (simp_all add: hex_def dec_def c_string_digits)

lemma length_snprintf: "buf \<noteq> [] \<Longrightarrow> length (snprintf buf s) = length buf"
  by (cases buf) (auto simp: snprintf_def)

lemma string_at_snprintf:
  assumes "c_string s" and "buf \<noteq> []"
  shows "string_at (put_bytes p (snprintf buf s) m) p (take (length buf - 1) s)"
  using string_at_put_padded [OF c_string_take [OF assms(1)]] by (simp add: snprintf_def Let_def)

lemma c_string_executable_path:
  assumes "c_string filepath" and "executable_path filepath root = Inr path"
  shows "c_string path"
  using assms c_string_unexpand by (auto simp: executable_path_def Let_def split: if_splits option.splits)

text \<open>The words end where the strings begin.\<close>

lemma stack_room:
  fixes end_addr n w :: nat
  assumes "8 * (w + user_long_count n) + 8 \<le> end_addr"
  defines "sp \<equiv> end_addr div 8 * 8 - 8 * (w + user_long_count n)"
  shows "sp mod 8 = 0" and "sp + 8 * w \<le> end_addr - n" and "n \<le> end_addr" and "end_addr \<le> sp + 8 * (w + user_long_count n) + 7"
proof -
  define u where "u = user_long_count n"
  have u: "n \<le> 8 * u" "8 * u < n + 8" unfolding u_def user_long_count_def by linarith+
  have sp: "sp = 8 * (end_addr div 8 - (w + u))" by (simp add: sp_def u_def algebra_simps)
  then show "sp mod 8 = 0" by simp
  define t where "t = end_addr div 8"
  have t: "t * 8 \<le> end_addr" "end_addr < t * 8 + 8" unfolding t_def by linarith+
  have "8 * (w + u) + 8 \<le> end_addr" using assms(1) by (simp add: u_def)
  with t have le: "w + u \<le> t" by presburger
  have "sp + 8 * (w + u) = 8 * t" using le unfolding sp t_def [symmetric] by simp
  then have "sp + 8 * w + n \<le> end_addr" using t u by (simp add: algebra_simps)
  then show "sp + 8 * w \<le> end_addr - n" "n \<le> end_addr" by simp_all
  show "end_addr \<le> sp + 8 * (w + user_long_count n) + 7"
    using \<open>sp + 8 * (w + u) = 8 * t\<close> t(2) unfolding u_def by simp
qed

text \<open>The strings, from the lowest address \<open>k\<close> on.\<close>

definition put_strings :: "nat \<Rightarrow> string \<Rightarrow> int \<Rightarrow> nat \<Rightarrow> char list \<Rightarrow> char list \<Rightarrow> memory \<Rightarrow> memory" where
  "put_strings k path fd elfcalls kbuf ebuf m =
     put_bytes k (snprintf ebuf (''elf_calls='' @ hex elfcalls))
       (put_bytes (k + 27) (snprintf kbuf (''kernfd='' @ dec fd))
         (put_bytes (k + 55) (path @ [CHR 0x00]) (put_bytes (k + 39) ''executable_path='' m)))"

lemma put_strings_at:
  fixes k :: nat and fd :: int and m :: memory
  assumes "c_string path" and "length kbuf = 12" and "length ebuf = 27" and "elfcalls < 2 ^ 64"
  defines "m' \<equiv> put_strings k path fd elfcalls kbuf ebuf m"
  shows "string_at m' (k + 39) (''executable_path='' @ path)" and "string_at m' (k + 27) (take 11 (''kernfd='' @ dec fd))"
    and "string_at m' k (''elf_calls='' @ hex elfcalls)" and "i < k \<or> k + length path + 56 \<le> i \<Longrightarrow> m' i = m i"
proof -
  define m1 where "m1 = put_bytes (k + 55) (path @ [CHR 0x00]) (put_bytes (k + 39) ''executable_path='' m)"
  define m2 where "m2 = put_bytes (k + 27) (snprintf kbuf (''kernfd='' @ dec fd)) m1"
  have m': "m' = put_bytes k (snprintf ebuf (''elf_calls='' @ hex elfcalls)) m2"
    by (simp add: m'_def put_strings_def m2_def m1_def)
  have bufs: "kbuf \<noteq> []" "ebuf \<noteq> []" using assms(2,3) by auto
  have len: "length (snprintf kbuf s) = 12" "length (snprintf ebuf s) = 27" for s
    using length_snprintf [OF bufs(1)] length_snprintf [OF bufs(2)] assms(2,3) by simp_all
  have printed: "c_string (''kernfd='' @ dec fd)" "c_string (''elf_calls='' @ hex elfcalls)"
    by (simp_all add: c_string_dec c_string_hex)
  define x where "x = ''executable_path=''"
  have x: "length x = 16" "c_string x" by (simp_all add: x_def)
  have "m1 = put_bytes (k + 39) ((x @ path) @ [CHR 0x00]) m"
    using put_bytes_append [of "k + 39" x "path @ [CHR 0x00]" m] x(1) by (simp add: m1_def add.commute flip: x_def)
  then have "string_at m1 (k + 39) (x @ path)" using string_at_put [of "x @ path"] assms(1) x(2) by simp
  then show "string_at m' (k + 39) (''executable_path='' @ path)"
    unfolding x_def [symmetric] by (simp add: m' m2_def string_at_put_other len)
  have "string_at m2 (k + 27) (take 11 (''kernfd='' @ dec fd))"
    using string_at_snprintf [OF printed(1) bufs(1), of "k + 27" m1] unfolding m2_def assms(2) by simp
  then show "string_at m' (k + 27) (take 11 (''kernfd='' @ dec fd))"
    unfolding m' by (subst string_at_put_other) (simp_all add: len)
  have "length (''elf_calls='' @ hex elfcalls) \<le> 26"
    using digits_bound [of 16 elfcalls 16] assms(4) by (simp add: hex_def)
  then have "take 26 (''elf_calls='' @ hex elfcalls) = ''elf_calls='' @ hex elfcalls" by (rule take_all)
  then show "string_at m' k (''elf_calls='' @ hex elfcalls)"
    using string_at_snprintf [OF printed(2) bufs(2), of k m2] unfolding assms(3) m' by simp
  show "m' i = m i" if "i < k \<or> k + length path + 56 \<le> i"
    using that by (auto simp: m' m2_def m1_def put_bytes_other len)
qed

lemma setup_stack_result:
  assumes path: "c_string filepath" "executable_path filepath (root_path lr) = Inr path"
    and args: "argc a = length ps" "argv a = map Some ps @ ys" "\<forall>p \<in> set ps. p < 2 ^ 64"
    and envs: "envc a = length qs" "envp a = map Some qs @ zs" "\<forall>q \<in> set qs. q < 2 ^ 64"
    and words: "lr_mh lr < 2 ^ 64" "length ps < 2 ^ 64" "stack_top lr < 2 ^ 64" "elfcalls < 2 ^ 64"
    and bufs: "length kbuf = 12" "length ebuf = 27"
    and room: "8 * (8 + length ps + length qs + user_long_count (length path + 56)) + 8 \<le> stack_top lr"
  shows "\<exists>lr' m'. setup_stack filepath elfcalls kbuf ebuf a lr m = Inr (a, lr', m') \<and>
    lr' = lr\<lparr>stack_top := stack_top lr'\<rparr> \<and> stack_top lr' mod 8 = 0 \<and>
    stack_top lr \<le> stack_top lr' + 8 * (8 + length ps + length qs + user_long_count (length path + 56)) + 7 \<and>
    get_words m' (stack_top lr') (8 + length ps + length qs) = [lr_mh lr, length ps] @ ps @ [0] @ qs @ [0] @
      [stack_top lr - length path - 17, stack_top lr - length path - 29, stack_top lr - length path - 56, 0] \<and>
    string_at m' (stack_top lr - length path - 17) (''executable_path='' @ path) \<and>
    string_at m' (stack_top lr - length path - 29) (take 11 (''kernfd='' @ dec (kernfd lr))) \<and>
    string_at m' (stack_top lr - length path - 56) (''elf_calls='' @ hex elfcalls) \<and>
    stack_top lr' + 8 * (8 + length ps + length qs) \<le> stack_top lr - length path - 56 \<and>
    (\<forall>i. i < stack_top lr' \<or> stack_top lr \<le> i \<longrightarrow> m' i = m i)"
proof -
  define n where "n = length path"
  define w where "w = 8 + length ps + length qs"
  define sp where "sp = stack_top lr div 8 * 8 - 8 * (w + user_long_count (n + 56))"
  define ke where "ke = stack_top lr - n - 56"
  have sp: "sp mod 8 = 0" "sp + 8 * w \<le> stack_top lr - (n + 56)" "n + 56 \<le> stack_top lr"
    "stack_top lr \<le> sp + 8 * (w + user_long_count (n + 56)) + 7"
    using stack_room [of w "n + 56" "stack_top lr"] room by (simp_all add: sp_def w_def n_def)
  then have ke: "stack_top lr - n - 17 = ke + 39" "stack_top lr - n - 29 = ke + 27" "stack_top lr = ke + n + 56"
    "sp + 8 * w \<le> ke" by (simp_all add: ke_def)
  have addr: "ke + 39 < 2 ^ 64" using words(3) ke(3) by simp
  define ws where "ws = [lr_mh lr, length ps] @ ps @ [0] @ qs @ [0] @ [ke + 39, ke + 27, ke, 0]"
  have ws: "length ws = w" "\<forall>x \<in> set ws. x < 2 ^ 64"
    using words(1,2) args(3) envs(3) addr by (auto simp: ws_def w_def)
  let ?m3 = "put_strings ke path (kernfd lr) elfcalls kbuf ebuf m"
  let ?m = "put_words sp ws ?m3"
  have run: "setup_stack filepath elfcalls kbuf ebuf a lr m = Inr (a, lr\<lparr>stack_top := sp\<rparr>, ?m)"
    using path(2) bufs args(1,2) envs(1,2) ke(3)
    by (simp add: setup_stack_def live_ptrs_all sp_def w_def ws_def put_strings_def n_def Let_def ac_simps)
  note str = put_strings_at [OF c_string_executable_path [OF path] bufs words(4), where k = ke and fd = "kernfd lr" and m = m]
  have strings: "string_at ?m3 p s \<Longrightarrow> string_at ?m p s" if "ke \<le> p" for p s
    using that ke(4) ws(1) by (simp add: put_words_bytes string_at_put_other)
  have frame: "?m i = m i" if "i < sp \<or> stack_top lr \<le> i" for i
    using that ke(3,4) ws(1) str(4) by (auto simp: put_words_bytes put_bytes_other n_def)
  have got: "get_words ?m sp w = ws" using get_put_words [OF ws(2), of sp ?m3] ws(1) by simp
  show ?thesis
    unfolding w_def [symmetric] n_def [symmetric] ke_def [symmetric] ke(1,2) ws_def [symmetric]
  proof (intro exI conjI, rule run)
    show "lr\<lparr>stack_top := sp\<rparr> = lr\<lparr>stack_top := stack_top (lr\<lparr>stack_top := sp\<rparr>)\<rparr>" by simp
    show "stack_top (lr\<lparr>stack_top := sp\<rparr>) mod 8 = 0" using sp(1) by simp
    show "stack_top lr \<le> stack_top (lr\<lparr>stack_top := sp\<rparr>) + 8 * (w + user_long_count (n + 56)) + 7" using sp(4) by simp
    show "get_words ?m (stack_top (lr\<lparr>stack_top := sp\<rparr>)) w = ws" using got by simp
    show "stack_top (lr\<lparr>stack_top := sp\<rparr>) + 8 * w \<le> ke" using ke(4) by simp
    show "\<forall>i. i < stack_top (lr\<lparr>stack_top := sp\<rparr>) \<or> stack_top lr \<le> i \<longrightarrow> ?m i = m i" using frame by simp
  qed (rule strings [OF _ str(1)] strings [OF _ str(2)] strings [OF _ str(3)]; simp)+
qed

section \<open>Properties\<close>

text \<open>C20. The stack that a program starts with. It begins, at an address of a whole word, with the address
  of the header, the number of arguments, the pointers to the arguments and to the
  variables, each list with a null pointer at the end, and four pointers for the dynamic linker,
  the last of them null. Those lead to the path of the program, the number of the descriptor for
  the server, cut to the eleven bytes that its buffer has room for, and the address of the
  table of functions. No byte outside of the range from the new top of the stack to the
  old one is written, and the pointers do not run into the strings.\<close>
theorem setup_stack_layout:
  assumes path: "c_string filepath" "executable_path filepath (root_path lr) = Inr path"
    and args: "argc a = length ps" "argv a = map Some ps @ ys" "\<forall>p \<in> set ps. p < 2 ^ 64"
    and envs: "envc a = length qs" "envp a = map Some qs @ zs" "\<forall>q \<in> set qs. q < 2 ^ 64"
    and words: "lr_mh lr < 2 ^ 64" "length ps < 2 ^ 64" "stack_top lr < 2 ^ 64" "elfcalls < 2 ^ 64"
    and bufs: "length kbuf = 12" "length ebuf = 27"
    and room: "8 * (8 + length ps + length qs + user_long_count (length path + 56)) + 8 \<le> stack_top lr"
  shows "\<exists>lr' m'. setup_stack filepath elfcalls kbuf ebuf a lr m = Inr (a, lr', m') \<and>
    lr' = lr\<lparr>stack_top := stack_top lr'\<rparr> \<and> stack_top lr' mod 8 = 0 \<and>
    stack_top lr \<le> stack_top lr' + 8 * (8 + length ps + length qs + user_long_count (length path + 56)) + 7 \<and>
    get_words m' (stack_top lr') (8 + length ps + length qs) = [lr_mh lr, length ps] @ ps @ [0] @ qs @ [0] @
      [stack_top lr - length path - 17, stack_top lr - length path - 29, stack_top lr - length path - 56, 0] \<and>
    string_at m' (stack_top lr - length path - 17) (''executable_path='' @ path) \<and>
    string_at m' (stack_top lr - length path - 29) (take 11 (''kernfd='' @ dec (kernfd lr))) \<and>
    string_at m' (stack_top lr - length path - 56) (''elf_calls='' @ hex elfcalls) \<and>
    stack_top lr' + 8 * (8 + length ps + length qs) \<le> stack_top lr - length path - 56 \<and>
    (\<forall>i. i < stack_top lr' \<or> stack_top lr \<le> i \<longrightarrow> m' i = m i)"
  using setup_stack_result [OF assms] .

lemma dec_example: "dec 1048575 = ''1048575''"
  by (simp add: dec_def digits.simps digit_char_def char_of_def bit_0)

theorem setup_stack_layout_witness:
  "\<exists>lr' m'. setup_stack ''/r/bin/p'' 4096 (replicate 12 (CHR 0x00)) (replicate 27 (CHR 0x00)) (area_example [''p''] [''A=1''])
     (lr_example\<lparr>root_path := Some ''/r'', stack_top := 8196, kernfd := 1048575\<rparr>) (\<lambda>_. CHR 0x00) =
     Inr (area_example [''p''] [''A=1''], lr', m') \<and>
   string_at m' 8173 ''executable_path=/bin/p'' \<and> string_at m' 8161 ''kernfd=1048''"
proof -
  let ?lr = "lr_example\<lparr>root_path := Some ''/r'', stack_top := 8196, kernfd := 1048575\<rparr>"
  have "executable_path ''/r/bin/p'' (root_path ?lr) = Inr ''/bin/p''" by (simp add: executable_path_def unexpand_path_def)
  from setup_stack_layout [OF _ this, of "area_example [''p''] [''A=1'']" "[64]" "[None]" "[66]" "[None]" 4096
      "replicate 12 (CHR 0x00)" "replicate 27 (CHR 0x00)" "\<lambda>_. CHR 0x00"]
  show ?thesis
    by (auto simp: area_example_def lr_example_def user_long_count_def dec_example)
qed

end
