(* ===== verification/Mldr_Main.thy ===== *)
theory Mldr_Main
  imports Mldr_Stack
begin

text \<open>
  The loader as a whole (main of startup/mldr/mldr.c): the choice of the program, the
  variables that configure the loader, loading, and what the program starts with.
\<close>

section \<open>Reading numbers\<close>

text \<open>The conversions of \<open>sscanf\<close> that are used: %x into 32 bits and %i into an int.\<close>

definition is_space :: "char \<Rightarrow> bool" where
  "is_space c = ((of_char c :: nat) \<in> {9, 10, 11, 12, 13, 32})"

definition digit_val :: "char \<Rightarrow> nat option" where
  "digit_val c =
     (let n = of_char c
      in if 48 \<le> n \<and> n \<le> 57 then Some (n - 48)
         else if 97 \<le> n \<and> n \<le> 102 then Some (n - 87)
         else if 65 \<le> n \<and> n \<le> 70 then Some (n - 55)
         else None)"

fun take_digits :: "nat \<Rightarrow> string \<Rightarrow> nat list \<times> string" where
  "take_digits b [] = ([], [])"
| "take_digits b (c # s) =
     (case digit_val c of
        Some d \<Rightarrow> if d < b then (let (ds, r) = take_digits b s in (d # ds, r)) else ([], c # s)
      | None \<Rightarrow> ([], c # s))"

definition num :: "nat \<Rightarrow> nat list \<Rightarrow> nat" where
  "num b ds = foldl (\<lambda>v d. v * b + d) 0 ds"

definition scan_sign :: "string \<Rightarrow> bool \<times> string" where
  "scan_sign s =
     (let s = dropWhile is_space s
      in case s of
           [] \<Rightarrow> (False, [])
         | c # r \<Rightarrow> if c = CHR ''-'' then (True, r) else if c = CHR ''+'' then (False, r) else (False, s))"

definition has_0x :: "string \<Rightarrow> bool" where
  "has_0x s \<longleftrightarrow> take 2 s = ''0x'' \<or> take 2 s = ''0X''"

text \<open>The value is that of \<open>strtoul\<close>, of which 32 bits are stored.\<close>

definition scan_x :: "string \<Rightarrow> (u32 \<times> string) option" where
  "scan_x s =
     (let (neg, s) = scan_sign s;
          (ds, r) = take_digits 16 (if has_0x s then drop 2 s else s);
          v = num 16 ds
      in if ds = [] then None
         else Some (of_nat (if v \<ge> 2 ^ 64 then 2 ^ 64 - 1 else if neg then (2 ^ 64 - v) mod 2 ^ 64 else v), r))"

fun scan_x_list :: "nat \<Rightarrow> string \<Rightarrow> u32 list" where
  "scan_x_list 0 s = []"
| "scan_x_list (Suc n) s =
     (case scan_x s of
        None \<Rightarrow> []
      | Some (v, r) \<Rightarrow> v # (case r of c # r' \<Rightarrow> if c = CHR '','' then scan_x_list n r' else [] | [] \<Rightarrow> []))"

text \<open>The value is that of \<open>strtol\<close>, with the base that the digits show.\<close>

definition scan_i :: "string \<Rightarrow> int option" where
  "scan_i s =
     (let (neg, s) = scan_sign s;
          (b, s) = (if has_0x s then (16, drop 2 s) else if take 1 s = ''0'' then (8, s) else (10, s));
          (ds, r) = take_digits b s;
          v = int (num b ds)
      in if ds = [] then None
         else Some (signed_take_bit 31 (if neg then max (- v) (- (2 ^ 63)) else min v (2 ^ 63 - 1))))"

section \<open>Configuration\<close>

definition env_list :: "arg_area \<Rightarrow> string list" where
  "env_list a =
     map (\<lambda>p. case read_str a p of Inl _ \<Rightarrow> [] | Inr s \<Rightarrow> s) (takeWhile (\<lambda>p. p \<noteq> None) (envp a))"

definition getenv :: "string \<Rightarrow> arg_area \<Rightarrow> string option" where
  "getenv nm a = map_option (drop (length nm + 1)) (find (names_var nm) (env_list a))"

datatype mldr_stop =
    Usage | Socket_Path_Too_Long | Stop_Load ld_stop | Stop_Args arg_error | Stop_Stack stack_error | Stop_Server

definition in_stop :: "('e \<Rightarrow> mldr_stop) \<Rightarrow> 'e + 'a \<Rightarrow> mldr_stop + 'a" where
  "in_stop f r = (case r of Inl e \<Rightarrow> Inl (f e) | Inr x \<Rightarrow> Inr x)"

text \<open>The result has the path of the server's socket (of at most 107 bytes) too.\<close>

definition process_special_env :: "arg_area \<Rightarrow> load_results \<Rightarrow> mldr_stop + load_results \<times> string option" where
  "process_special_env a lr =
     (let prefs = (case getenv ''__mldr_bprefs'' a of None \<Rightarrow> [] | Some str \<Rightarrow> scan_x_list 4 str);
          lr = lr\<lparr>bprefs := prefs @ replicate (4 - length prefs) 0\<rparr>;
          sockpath = getenv ''__mldr_sockpath'' a
      in if (case sockpath of None \<Rightarrow> False | Some str \<Rightarrow> length str > 107) then Inl Socket_Path_Too_Long
         else
           let lr = lr\<lparr>lifetime_pipe := -1\<rparr>;
               lr = (case getenv ''__mldr_lifetime_pipe'' a of
                       None \<Rightarrow> lr
                     | Some str \<Rightarrow> (case scan_i str of None \<Rightarrow> lr | Some v \<Rightarrow> lr\<lparr>lifetime_pipe := v\<rparr>));
               lr = (case getenv ''__mldr_DYLD_ROOT_PATH'' a of
                       None \<Rightarrow> lr
                     | Some str \<Rightarrow> if root_path lr = None then lr\<lparr>root_path := Some (take 4095 str)\<rparr> else lr)
           in Inr (lr, sockpath))"

section \<open>The loader\<close>

text \<open>
  What the loader finds: the system and the files, the server's answers at the end, the address
  of the table of functions and of the static buffer, and the buffers of the stack's strings.
\<close>

record mldr_world =
  w_os :: os
  w_space :: space_env
  w_files :: "string \<Rightarrow> macho_file option"
  w_server_ok :: bool
  w_elfcalls :: nat
  w_unexpanded :: nat
  w_kbuf :: "char list"
  w_ebuf :: "char list"

definition initial_results :: load_results where
  "initial_results = \<lparr>lr_mh = 0, entry_point = 0, stack_size = 0, dyld_all_image_location = 0, dyld_all_image_size = 0,
     lr_uuid = [], vm_addr_max = 0, lr_base = 0, bprefs = [0, 0, 0, 0], root_path = None, stack_top = 0,
     stack_top_aligned = 0, kernfd = -1, lifetime_pipe = 0\<rparr>"

text \<open>The name of the program: after the mark in the first argument, or the second argument.\<close>

definition marked_name :: "string \<Rightarrow> string option" where
  "marked_name s = (case dropWhile (\<lambda>c. c \<noteq> CHR ''!'') s of [] \<Rightarrow> None | _ # r \<Rightarrow> Some r)"

definition choose_program :: "arg_area \<Rightarrow> mldr_stop + bool \<times> string" where
  "choose_program a =
     res_bind (if argc a > 0
               then in_stop Stop_Args (res_bind (ptr_at (argv a) 0) (\<lambda>p. res_bind (read_str a p) (\<lambda>s. Inr (marked_name s))))
               else Inr None) (\<lambda>p.
     case p of
       Some filename \<Rightarrow> Inr (True, filename)
     | None \<Rightarrow>
         if argc a \<le> 1 then Inl Usage
         else in_stop Stop_Args (res_bind (ptr_at (argv a) 1) (\<lambda>p. res_bind (read_str a p) (\<lambda>s. Inr (False, s)))))"

definition mldr_main :: "mldr_world \<Rightarrow> arg_area \<Rightarrow> vm \<Rightarrow> mldr_stop + arg_area \<times> load_results \<times> vm \<times> memory" where
  "mldr_main w a s =
     res_bind (choose_program a) (\<lambda>(marked, filename).
     res_bind (process_special_env a initial_results) (\<lambda>(lr, sockpath).
     res_bind (in_stop Stop_Load (load_program (w_os w) (w_space w) (w_files w) filename lr s)) (\<lambda>(lr, s).
     res_bind (in_stop Stop_Args (main_handover marked (root_path lr) (w_unexpanded w) a)) (\<lambda>a.
     res_bind (in_stop Stop_Stack (setup_stack filename (w_elfcalls w) (w_kbuf w) (w_ebuf w) a lr (am a))) (\<lambda>(a, lr, m).
     if w_server_ok w then Inr (a, lr, s, m) else Inl Stop_Server)))))"

section \<open>Numbers that were printed\<close>

lemma digit_val_char: "d < 16 \<Longrightarrow> digit_val (digit_char d) = Some d"
  by (auto simp: digit_val_def digit_char_def Let_def)

lemma take_digits_printed:
  "\<forall>d \<in> set ds. d < 16 \<Longrightarrow> rest = [] \<or> digit_val (hd rest) = None \<Longrightarrow> take_digits 16 (map digit_char ds @ rest) = (ds, rest)"
proof (induction ds)
  case Nil
  then show ?case by (cases rest) auto
next
  case (Cons d ds)
  then show ?case by (simp add: digit_val_char)
qed

lemma num_digits: "1 < b \<Longrightarrow> num b (digits b n) = n"
proof (induction b n rule: digits.induct)
  case (1 b n)
  then show ?case by (subst digits.simps) (simp add: num_def)
qed

lemma digits_nonempty: "digits b n \<noteq> []"
  by (subst digits.simps) simp

lemma of_char_digit: "d < 16 \<Longrightarrow> of_char (digit_char d) = (if d < 10 then 48 + d else 87 + d :: nat)"
  by (simp add: digit_char_def)

lemma scan_x_hex:
  assumes "n < 2 ^ 64" and "rest = [] \<or> hd rest = CHR '',''"
  shows "scan_x (hex n @ rest) = Some (of_nat n, rest)"
proof -
  have less: "\<forall>d \<in> set (digits 16 n). d < 16" using digits_less [of 16] by auto
  obtain d ds where ds: "digits 16 n = d # ds" using digits_nonempty by (meson list.exhaust)
  have d: "d < 16" using less ds by simp
  let ?s = "hex n @ rest"
  have s: "?s = digit_char d # map digit_char ds @ rest" by (simp add: hex_def ds)
  have ne: "digit_char d \<noteq> c" if "(of_char c :: nat) < 48" for c
    using that of_char_digit [OF d] by (auto split: if_splits)
  have "\<not> is_space (digit_char d)" using of_char_digit [OF d] by (auto simp: is_space_def)
  then have sign: "scan_sign ?s = (False, ?s)"
    using ne [of "CHR ''-''"] ne [of "CHR ''+''"] unfolding scan_sign_def s by simp
  have x: "digit_char e \<noteq> CHR ''x''" "digit_char e \<noteq> CHR ''X''" if "e < 16" for e
    using of_char_digit [OF that] that by (auto split: if_splits)
  have "\<not> has_0x ?s"
  proof (cases ds)
    case Nil
    then show ?thesis using assms(2) unfolding has_0x_def s by (cases rest) (auto simp: numeral_2_eq_2)
  next
    case (Cons e es)
    then have "e < 16" using less ds by simp
    with x Cons show ?thesis unfolding has_0x_def s by (auto simp: numeral_2_eq_2)
  qed
  moreover have "digit_val (CHR '','') = None" by (simp add: digit_val_def Let_def)
  then have "take_digits 16 ?s = (digits 16 n, rest)"
    using assms(2) take_digits_printed [OF less, of rest] by (auto simp: hex_def)
  ultimately show ?thesis
    using assms(1) sign num_digits [of 16 n] by (simp add: scan_x_def digits_nonempty)
qed

lemma scan_x_list_hex:
  fixes p :: u32
  shows "scan_x_list (Suc n) (hex (unat p) @ CHR '','' # s) = p # scan_x_list n s"
    and "scan_x_list (Suc n) (hex (unat p)) = [p]"
proof -
  have "unat p < 2 ^ 64" using unsigned_less [of p, where 'a = nat] by simp
  note x = scan_x_hex [OF this]
  show "scan_x_list (Suc n) (hex (unat p) @ CHR '','' # s) = p # scan_x_list n s" by (simp add: x)
  show "scan_x_list (Suc n) (hex (unat p)) = [p]" using x [of "[]"] by simp
qed

text \<open>Preferences printed with %x,%x,%x,%x are read back.\<close>

lemma scan_bprefs_printed:
  fixes p q r t :: u32
  shows "scan_x_list 4 (hex (unat p) @ '','' @ hex (unat q) @ '','' @ hex (unat r) @ '','' @ hex (unat t)) = [p, q, r, t]"
proof -
  have "4 = Suc (Suc (Suc (Suc 0)))" by simp
  then show ?thesis by (simp only: scan_x_list_hex append_Cons append_Nil)
qed

section \<open>The start of a program\<close>

lemma choose_program_layout:
  assumes "exec_layout a c (s # ss) d es" and "ss \<noteq> []"
  shows "choose_program a = Inr (case marked_name s of Some f \<Rightarrow> (True, f) | None \<Rightarrow> (False, hd ss))"
proof -
  obtain t ts where ss: "ss = t # ts" using assms(2) by (cases ss) auto
  have lay: "argc a = length (s # ss)" "argv a = map Some (offsets c (s # ss)) @ [None]"
    "placed (am a) c (area_end a) (offsets c (s # ss)) (s # ss)" "area_start a \<le> c"
    using assms(1) placed_le placed_end_mono unfolding exec_layout_def by blast+
  have "(c, s) \<in> set (zip (offsets c (s # ss)) (s # ss))" "(c + length s + 1, t) \<in> set (zip (offsets c (s # ss)) (s # ss))"
    by (simp_all add: ss)
  then have "read_str a (Some c) = Inr s" "read_str a (Some (c + length s + 1)) = Inr t"
    using placed_read [OF lay(3,4)] by blast+
  then show ?thesis
    using lay(1,2) ss by (simp add: choose_program_def in_stop_def ptr_at_def split: option.splits)
qed

lemma strings_in_keep:
  assumes "strings_in m lo hi u ps ss" and "hi \<le> low \<or> top_addr \<le> lo" and "u + 4096 \<le> low \<or> top_addr \<le> u"
    and "\<And>i. i < low \<or> top_addr \<le> i \<Longrightarrow> m' i = m i"
  shows "list_all2 (string_at m') ps ss"
proof -
  have "strings_in m' lo hi u ps ss"
    using assms(1) by (rule strings_in_cong) (use assms(2-4) in auto)
  then show ?thesis unfolding strings_in_def by (rule list_all2_mono) blast
qed

lemma strings_in_bound:
  assumes "strings_in m lo hi u ps ss" and "hi \<le> k" and "u + 4096 \<le> k"
  shows "\<forall>p \<in> set ps. p < k"
proof
  fix p assume "p \<in> set ps"
  then obtain i where "i < length ps" "ps ! i = p" by (meson in_set_conv_nth)
  with assms(1) have "p < hi \<or> p < u + 4096" unfolding strings_in_def list_all2_conv_all_nth by force
  then show "p < k" using assms(2,3) by auto
qed

lemma marked_name_c_string: "c_string s \<Longrightarrow> marked_name s = Some f \<Longrightarrow> c_string f"
  unfolding marked_name_def c_string_def
  by (auto split: list.splits) (metis list.set_intros(2) set_dropWhileD)

lemma exec_layout_c_string:
  assumes "exec_layout a c args d es"
  shows "list_all c_string args"
proof -
  have "placed (am a) c d (offsets c args) args" using assms by (simp add: exec_layout_def)
  from placed_strings [OF this order_refl] show ?thesis
    by (auto simp: strings_in_def string_at_def list_all2_conv_all_nth list_all_length)
qed

text \<open>The stack of a program takes this many bytes at most.\<close>

definition stack_need :: "string list \<Rightarrow> string list \<Rightarrow> string \<Rightarrow> nat" where
  "stack_need args es path = 8 * (8 + length args + length es + user_long_count (length path + 56)) + 8"

text \<open>A loaded program can be started: the server answers, the addresses are words, and the stack has
  room and lies apart from the arguments and the buffer.\<close>

definition start_ready :: "mldr_world \<Rightarrow> arg_area \<Rightarrow> load_results \<Rightarrow> string list \<Rightarrow> string list \<Rightarrow> string \<Rightarrow> bool" where
  "start_ready w a lr args es path \<longleftrightarrow>
     w_server_ok w \<and> length (w_kbuf w) = 12 \<and> length (w_ebuf w) = 27 \<and> w_elfcalls w < 2 ^ 64 \<and>
     lr_mh lr < 2 ^ 64 \<and> stack_top lr < 2 ^ 64 \<and> area_end a \<le> 2 ^ 64 \<and> w_unexpanded w + 4096 \<le> 2 ^ 64 \<and>
     length args < 2 ^ 64 \<and> stack_need args es path \<le> stack_top lr \<and>
     (area_end a \<le> stack_top lr - stack_need args es path \<or> stack_top lr \<le> area_start a) \<and>
     (w_unexpanded w + 4096 \<le> stack_top lr - stack_need args es path \<or> stack_top lr \<le> w_unexpanded w)"

lemma env_list_layout:
  assumes "exec_layout a c args d es"
  shows "env_list a = es"
proof -
  have lay: "envp a = map Some (offsets d es) @ [None]" "placed (am a) d (area_end a) (offsets d es) es" "area_start a \<le> d"
    using assms placed_le [of "am a" c d] unfolding exec_layout_def by (auto intro: le_trans)
  have len: "length (offsets d es) = length es" using placed_length [OF lay(2)] .
  have "takeWhile (\<lambda>p. p \<noteq> None) (map Some xs @ [None]) = map Some xs" for xs :: "nat list"
    by (induction xs) auto
  moreover have "read_str a (Some (offsets d es ! i)) = Inr (es ! i)" if "i < length es" for i
    using placed_read [OF lay(2,3), of "offsets d es ! i" "es ! i"] that len by (auto simp: in_set_zip)
  ultimately show ?thesis using lay(1) len by (auto simp: env_list_def intro: nth_equalityI)
qed

section \<open>An example\<close>

definition fs_single :: "string \<Rightarrow> macho_file option" where
  "fs_single path = (if path = ''/r/p'' then Some (File64 \<lparr>filetype = MH_EXECUTE, mh_pie = False, ncmds = 2, sizeofcmds = 88,
     mh_cputype = CPU_TYPE_X86_64, cmds = [seg_example ''__TEXT'' 65536 4096 0 4096 5, (16, LC_UNIXTHREAD 65600)]\<rparr>) else None)"

definition main_example :: "mldr_world" where
  "main_example = \<lparr>w_os = os_example, w_space = space_example, w_files = fs_single, w_server_ok = True, w_elfcalls = 12288,
     w_unexpanded = 4096, w_kbuf = replicate 12 (CHR 0x00), w_ebuf = replicate 27 (CHR 0x00)\<rparr>"

lemma load_cmds_two: "load_cmds f os path off slide m 2 p cs st = load_cmds f os path off slide m (Suc (Suc 0)) p cs st"
  by (simp only: numeral_2_eq_2)

lemma load_example:
  "\<exists>s. load_program os_example space_example fs_single ''/r/p'' (lr_example\<lparr>bprefs := ps\<rparr>) (\<lambda>_. None) =
     Inr (lr_example\<lparr>lr_mh := 65536, entry_point := 65600, bprefs := ps, root_path := Some ''/r'', stack_top := 409600,
       stack_top_aligned := 409600, kernfd := 1023, vm_addr_max := 69632\<rparr>, s)"
proof -
  let ?lr = "lr_example\<lparr>bprefs := ps, root_path := Some ''/r'', stack_top := 409600, stack_top_aligned := 409600, kernfd := 1023\<rparr>"
  have "\<exists>s. setup_space os_example space_example (lr_example\<lparr>bprefs := ps\<rparr>) (\<lambda>_. None) = Inr (?lr, s) \<and> s 16 = None"
    by (simp add: setup_space_def space_example_def lr_example_def compatible_mmap_def mmap_at_def vm_free_def
        vm_map_def pages_def PATH_BUFFER_def addr64_def os_example_def)
  then obtain s where s: "setup_space os_example space_example (lr_example\<lparr>bprefs := ps\<rparr>) (\<lambda>_. None) = Inr (?lr, s)" "s 16 = None"
    by blast
  have os: "knows_noreplace os_example" "min_addr os_example = 4096" by (simp_all add: os_example_def)
  let ?seg = "\<lparr>segname = ''__TEXT'', vmaddr = 65536, vmsize = 4096, fileoff = 0, filesize = 4096, maxprot = 5, initprot = 5, sections = []\<rparr>"
  have "\<exists>s'. map_segment os_example ''/r/p'' 0 0 ?seg \<lparr>st_lr = ?lr, st_vm = s, st_mapped_header = 0, st_entry = 0\<rparr> =
      Inr \<lparr>st_lr = ?lr\<lparr>vm_addr_max := 69632\<rparr>, st_vm = s', st_mapped_header = 65536, st_entry = 0\<rparr>"
    using s(2) os by (simp add: map_segment_def map_zero_fill_def map_contents_def mapped_or_pagezero_def
      compatible_mmap_def mmap_at_def vm_free_def addr64_def lr_example_def)
  then show ?thesis
    by (auto simp: load_program_def load_file_def fs_single_def load64_def s(1) [unfolded lr_example_def, simplified] place_image_def MH_EXECUTE_def MH_DYLINKER_def
      load_cmds_two seg_example_def addr64_def lr_example_def)
qed

lemma hex_examples: "hex (Suc 0) = ''1''" "hex 2 = ''2''" "hex 3 = ''3''" "hex 4 = ''4''"
  by (simp_all add: hex_def digits.simps digit_char_def char_of_def bit_0)

lemma conf_example:
  "process_special_env (area_example [''mldr'', ''/r/p'', ''x''] [''A=1'', ''__mldr_bprefs=1,2,3,4'']) initial_results =
     Inr (lr_example\<lparr>bprefs := [1, 2, 3, 4]\<rparr>, None)"
proof -
  let ?a = "area_example [''mldr'', ''/r/p'', ''x''] [''A=1'', ''__mldr_bprefs=1,2,3,4'']"
  have "env_list ?a = [''A=1'', ''__mldr_bprefs=1,2,3,4'']"
    by (rule env_list_layout [OF area_example_layout]) simp_all
  then have "getenv ''__mldr_bprefs'' ?a = Some ''1,2,3,4''" "getenv ''__mldr_sockpath'' ?a = None"
    "getenv ''__mldr_lifetime_pipe'' ?a = None" "getenv ''__mldr_DYLD_ROOT_PATH'' ?a = None"
    by (simp_all add: getenv_def names_var_def)
  moreover have "scan_x_list 4 ''1,2,3,4'' = [1, 2, 3, 4]"
    using scan_bprefs_printed [of 1 2 3 4] by (simp add: hex_examples)
  ultimately show ?thesis
    by (simp add: process_special_env_def initial_results_def lr_example_def)
qed

end
