(* ===== verification/Mldr_Sockets.thy ===== *)
theory Mldr_Sockets
  imports Socket_Bitmap
begin

text \<open>
  The descriptors that mldr keeps for itself (startup/mldr/mldr.c): sockets for calls of the
  server and the pipe that tells it of the end of the process, moved to the numbers
  that the bitmap of high numbers hands out. Answers of system calls are arguments.
\<close>

section \<open>Descriptors\<close>

datatype ofile = Sock | PipeRead | PipeWrite | OtherFile

record mldr_fds =
  sbm :: socket_bitmap
  table :: "int \<Rightarrow> ofile option"

definition sys_close :: "int \<Rightarrow> mldr_fds \<Rightarrow> mldr_fds" where
  "sys_close fd st = st\<lparr>table := (table st)(fd := None)\<rparr>"

definition sys_dup2 :: "int \<Rightarrow> int \<Rightarrow> mldr_fds \<Rightarrow> mldr_fds" where
  "sys_dup2 old new st = st\<lparr>table := (table st)(new := table st old)\<rparr>"

text \<open>What the system answers to the calls of one function.\<close>

record sock_sys =
  new_socket :: "int option"
  fd_limit :: rlimit_result
  alloc_ok :: bool
  alloc_junk :: u8
  dup_ok :: bool
  getfd_ok :: bool
  setfd_ok :: bool
  bind_ok :: bool

section \<open>Sockets for calls\<close>

text \<open>The end of a failed call: \<open>fd\<close> and \<open>pre_fd\<close> are closed when they are not negative.\<close>

definition socket_err_out :: "bool \<Rightarrow> int \<Rightarrow> int \<Rightarrow> mldr_fds \<Rightarrow> sb_err + int \<times> mldr_fds" where
  "socket_err_out ok fd pre_fd st =
     res_bind
       (if fd \<ge> 0 then res_bind (socket_bitmap_put ok (sbm st) fd) (\<lambda>bm. Inr (sys_close fd (st\<lparr>sbm := bm\<rparr>))) else Inr st)
       (\<lambda>st. Inr (-1, if pre_fd \<ge> 0 then sys_close pre_fd st else st))"

definition create_rpc_socket :: "sock_sys \<Rightarrow> mldr_fds \<Rightarrow> sb_err + int \<times> mldr_fds" where
  "create_rpc_socket sys st =
     (case new_socket sys of
        None \<Rightarrow> socket_err_out (alloc_ok sys) (-1) (-1) st
      | Some pre_fd \<Rightarrow>
          let st = st\<lparr>table := (table st)(pre_fd \<mapsto> Sock)\<rparr> in
          res_bind (socket_bitmap_get (fd_limit sys) (alloc_ok sys) (alloc_junk sys) (sbm st)) (\<lambda>(fd, bm).
          let st = st\<lparr>sbm := bm\<rparr> in
          if fd < 0 then socket_err_out (alloc_ok sys) fd pre_fd st
          else if \<not> dup_ok sys then
            res_bind (socket_bitmap_put (alloc_ok sys) (sbm st) fd) (\<lambda>bm.
            socket_err_out (alloc_ok sys) (-1) pre_fd (st\<lparr>sbm := bm\<rparr>))
          else
            let st = sys_close pre_fd (sys_dup2 pre_fd fd st) in
            if getfd_ok sys \<and> setfd_ok sys \<and> bind_ok sys then Inr (fd, st)
            else socket_err_out (alloc_ok sys) fd (-1) st))"

definition close_rpc_socket :: "bool \<Rightarrow> int \<Rightarrow> mldr_fds \<Rightarrow> sb_err + mldr_fds" where
  "close_rpc_socket ok socket st =
     (let st = sys_close socket st in
      res_bind (socket_bitmap_put ok (sbm st) socket) (\<lambda>bm. Inr (st\<lparr>sbm := bm\<rparr>)))"

section \<open>The pipe\<close>

text \<open>
  What the system answers; \<open>dup_oks\<close> has one answer for each end. The arrays start with the
  contents \<open>fds0\<close> and \<open>pre_fds0\<close>, which the callers and the function do not set.
\<close>

record pipe_sys =
  kernel_5_3 :: bool
  new_pipe :: "(int \<times> int) option"
  pipe_limit :: rlimit_result
  pipe_alloc :: bool
  pipe_junk :: u8
  dup_oks :: "bool \<times> bool"
  fds0 :: "int \<times> int"
  pre_fds0 :: "int \<times> int"

definition pipe_err_out :: "bool \<Rightarrow> int \<times> int \<Rightarrow> int \<times> int \<Rightarrow> mldr_fds \<Rightarrow> sb_err + (int \<times> int \<times> int) \<times> mldr_fds" where
  "pipe_err_out ok fds pre_fds st =
     res_bind (socket_err_out ok (fst fds) (fst pre_fds) st) (\<lambda>(_, st).
     res_bind (socket_err_out ok (snd fds) (snd pre_fds) st) (\<lambda>(_, st).
     Inr ((-1, fds), st)))"

text \<open>
  One end: the new number (or -1), the number left in \<open>pre_fds\<close>, and whether to go on.
\<close>

definition pipe_end :: "pipe_sys \<Rightarrow> bool \<Rightarrow> int \<Rightarrow> mldr_fds \<Rightarrow> sb_err + (int \<times> int \<times> bool) \<times> mldr_fds" where
  "pipe_end sys dup pre_fd st =
     res_bind (socket_bitmap_get (pipe_limit sys) (pipe_alloc sys) (pipe_junk sys) (sbm st)) (\<lambda>(fd, bm).
     let st = st\<lparr>sbm := bm\<rparr> in
     if fd < 0 then Inr ((fd, pre_fd, False), st)
     else if \<not> dup then
       res_bind (socket_bitmap_put (pipe_alloc sys) (sbm st) fd) (\<lambda>bm. Inr ((-1, pre_fd, False), st\<lparr>sbm := bm\<rparr>))
     else Inr ((fd, -1, True), sys_close pre_fd (sys_dup2 pre_fd fd st)))"

text \<open>The result has the answer and the array \<open>fds\<close>.\<close>

definition create_process_lifetime_pipe :: "pipe_sys \<Rightarrow> mldr_fds \<Rightarrow> sb_err + (int \<times> int \<times> int) \<times> mldr_fds" where
  "create_process_lifetime_pipe sys st =
     (if kernel_5_3 sys then Inr ((0, -1, -1), st)
      else
        (case new_pipe sys of
           None \<Rightarrow> pipe_err_out (pipe_alloc sys) (fds0 sys) (pre_fds0 sys) st
         | Some (r, w) \<Rightarrow>
             let st = st\<lparr>table := (table st)(r \<mapsto> PipeRead, w \<mapsto> PipeWrite)\<rparr> in
             res_bind (pipe_end sys (fst (dup_oks sys)) r st) (\<lambda>((f0, p0, go), st).
             if \<not> go then pipe_err_out (pipe_alloc sys) (f0, snd (fds0 sys)) (p0, w) st
             else
               res_bind (pipe_end sys (snd (dup_oks sys)) w st) (\<lambda>((f1, p1, go), st).
               if \<not> go then pipe_err_out (pipe_alloc sys) (f0, f1) (p0, p1) st
               else Inr ((0, f0, f1), st)))))"

definition close_process_lifetime_pipe :: "bool \<Rightarrow> int \<Rightarrow> mldr_fds \<Rightarrow> sb_err + mldr_fds" where
  "close_process_lifetime_pipe ok fd st = (if fd \<noteq> -1 then close_rpc_socket ok fd st else Inr st)"

section \<open>Well-formed descriptors\<close>

text \<open>The bitmap is well formed and every number marked in it is an open descriptor.\<close>

definition fds_ok :: "mldr_fds \<Rightarrow> bool" where
  "fds_ok st \<longleftrightarrow> sb_inv (sbm st) \<and> (highest (sbm st) = -1 \<longrightarrow> sb_used (sbm st) = {}) \<and>
     (\<forall>i \<in> sb_used (sbm st). table st (highest (sbm st) - int i) \<noteq> None)"

lemma get_alloc_fails:
  assumes "sb_inv bm" and "socket_bitmap_get_init limit bm = Some bm1"
  shows "socket_bitmap_get limit ok junk bm = socket_bitmap_get limit True junk bm \<or>
    socket_bitmap_get limit ok junk bm = Inr (-1, bm1)"
proof -
  have "bits bm1 \<noteq> Dangling"
    using assms(2) sb_invD(1) [OF assms(1)]
    by (auto simp: socket_bitmap_get_init_def split: if_splits rlimit_result.splits)
  then have "socket_bitmap_get_grow ok junk bm1 = socket_bitmap_get_grow True junk bm1 \<or>
      socket_bitmap_get_grow ok junk bm1 = Inr None"
    by (cases ok; cases "bits bm1") (auto simp: socket_bitmap_get_grow_def)
  with assms(2) show ?thesis by (auto simp: socket_bitmap_get_def)
qed

lemma get_bit_length:
  assumes "socket_bitmap_get limit ok junk bm = Inr (fd, bm')"
  shows "bit_length bm' \<le> bit_length bm + 1"
proof -
  have init: "bit_length bm1 = bit_length bm" if "socket_bitmap_get_init limit bm = Some bm1" for bm1
    using that by (auto simp: socket_bitmap_get_init_def split: if_splits rlimit_result.splits)
  have grow: "bit_length bm2 \<le> bit_length bm1 + 1" if "socket_bitmap_get_grow ok junk bm1 = Inr (Some bm2)" for bm1 bm2
    using that by (auto simp: socket_bitmap_get_grow_def res_bind_Inr split: if_splits option.splits)
  show ?thesis
  proof (cases "socket_bitmap_get_init limit bm")
    case None
    with assms show ?thesis by (simp add: socket_bitmap_get_def)
  next
    case (Some bm1)
    with assms obtain r where r: "socket_bitmap_get_grow ok junk bm1 = Inr r"
      by (cases "socket_bitmap_get_grow ok junk bm1") (simp_all add: socket_bitmap_get_def)
    show ?thesis
    proof (cases r)
      case None
      with assms Some r init show ?thesis by (simp add: socket_bitmap_get_def)
    next
      case (Some bm2)
      with assms \<open>socket_bitmap_get_init limit bm = Some bm1\<close> r have "bit_length bm' = bit_length bm2"
        by (auto simp: socket_bitmap_get_def Let_def res_bind_Inr)
      with grow r Some init \<open>socket_bitmap_get_init limit bm = Some bm1\<close> show ?thesis by force
    qed
  qed
qed

lemma put_after_get_safe:
  assumes "sb_inv bm" and "sb_used bm' = insert (next_index bm) (sb_used bm)"
  shows "sb_put_safe bm' (next_index bm)"
proof (cases "next_index bm + 1 \<noteq> bit_length bm' \<or> bit_length bm' mod 8 \<noteq> 0")
  case True
  then show ?thesis by (auto simp: sb_put_safe_def)
next
  case False
  let ?j = "next_index bm - 1"
  obtain q where q: "next_index bm + 1 = 8 * q" using False by (auto elim: dvdE simp: mod_eq_0_iff_dvd)
  then obtain r where "q = Suc r" by (cases q) auto
  with q have n: "next_index bm = 8 * r + 7" by simp
  then have j: "?j \<noteq> next_index bm" "?j div 8 = next_index bm div 8" "?j < next_index bm" by simp_all
  have "?j \<in> sb_used bm"
    using j(3) sb_invD(4,5) [OF assms(1)] by (auto simp: sb_used_def)
  then have "?j \<in> sb_used bm'" using assms(2) by simp
  with j(1,2) show ?thesis unfolding sb_put_safe_def sb_used_def by blast
qed

text \<open>A request, and the return of what was just requested.\<close>

lemma get_put_cases [consumes 5, case_names fails works]:
  assumes "sb_inv bm" and init: "socket_bitmap_get_init limit bm = Some bm1"
    and range: "0 \<le> highest bm1" "highest bm1 < 2 ^ 31" "bit_length bm < 2 ^ 31 - 1"
  obtains (fails) "socket_bitmap_get limit ok junk bm = Inr (-1, bm1)" and "\<not> ok"
      and "sb_inv bm1" and "sb_used bm1 = sb_used bm"
    | (works) bm2 bm3 where "socket_bitmap_get limit ok junk bm = Inr (highest bm1 - int (next_index bm), bm2)"
      and "sb_inv bm2" and "sb_used bm2 = insert (next_index bm) (sb_used bm)" and "highest bm2 = highest bm1"
      and "next_index bm \<notin> sb_used bm"
      and "socket_bitmap_put ok bm2 (highest bm1 - int (next_index bm)) = Inr bm3"
      and "sb_inv bm3" and "sb_used bm3 = sb_used bm" and "highest bm3 = highest bm1"
proof -
  have same: "next_index bm1 = next_index bm" "bits bm1 = bits bm" "bit_length bm1 = bit_length bm"
    using init by (auto simp: socket_bitmap_get_init_def split: if_splits rlimit_result.splits)
  have small: "next_index bm < 2 ^ 31" using sb_invD(4) [OF assms(1)] range(3) by simp
  from socket_bitmap_get_spec [OF assms(1) init range(1,2) small, of junk] obtain bm2 where
    get: "socket_bitmap_get limit True junk bm = Inr (highest bm1 - int (next_index bm), bm2)" "sb_inv bm2"
      "sb_used bm2 = insert (next_index bm) (sb_used bm)" "highest bm2 = highest bm1" by blast
  have len: "bit_length bm2 < 2 ^ 31" using get_bit_length [OF get(1)] range(3) by simp
  have "next_index bm \<in> sb_used bm2" using get(3) by simp
  from socket_bitmap_put_spec [OF get(2) this len put_after_get_safe [OF assms(1) get(3)], of ok] obtain bm3 where
    put: "socket_bitmap_put ok bm2 (highest bm2 - int (next_index bm)) = Inr bm3" "sb_inv bm3"
      "sb_used bm3 = sb_used bm2 - {next_index bm}" "highest bm3 = highest bm2" by blast
  have fresh: "next_index bm \<notin> sb_used bm" using sb_invD(6) [OF assms(1)] by (auto simp: sb_used_def)
  show thesis
  proof (cases "socket_bitmap_get limit ok junk bm = socket_bitmap_get limit True junk bm")
    case True
    show thesis by (rule works [of bm2 bm3]) (use True get put fresh in auto)
  next
    case False
    with get_alloc_fails [OF assms(1) init, of ok junk] have "socket_bitmap_get limit ok junk bm = Inr (-1, bm1)" by blast
    moreover have "\<not> ok" using False by (cases ok) simp_all
    moreover have "sb_inv bm1" "sb_used bm1 = sb_used bm" using assms(1) same by (simp_all add: sb_inv_def sb_used_def)
    ultimately show thesis by (rule fails)
  qed
qed

lemma fds_ok_frame:
  assumes "fds_ok st" and "socket_bitmap_get_init limit (sbm st) = Some bm1" and "0 \<le> highest bm1"
    and "sb_inv bm" and "sb_used bm = sb_used (sbm st)" and "highest bm = highest bm1"
    and "\<And>i. i \<in> sb_used (sbm st) \<Longrightarrow> T (highest bm1 - int i) = table st (highest bm1 - int i)"
  shows "fds_ok \<lparr>sbm = bm, table = T\<rparr>"
proof -
  have "highest bm1 = highest (sbm st) \<or> sb_used (sbm st) = {}"
    using assms(1,2) by (auto simp: fds_ok_def socket_bitmap_get_init_def split: if_splits)
  with assms show ?thesis by (auto simp: fds_ok_def)
qed

lemma create_rpc_socket_result:
  assumes ok: "fds_ok st" and init: "socket_bitmap_get_init (fd_limit sys) (sbm st) = Some bm1"
    and range: "0 \<le> highest bm1" "highest bm1 < 2 ^ 31" "bit_length (sbm st) < 2 ^ 31 - 1"
    and slot: "slot = highest bm1 - int (next_index (sbm st))" "0 \<le> slot"
    and pre: "\<forall>fd \<in> set_option (new_socket sys). 0 \<le> fd \<and> fd \<noteq> slot \<and> table st fd = None"
  shows "\<exists>fd st'. create_rpc_socket sys st = Inr (fd, st') \<and> fds_ok st' \<and>
      (if fd = -1 then sb_used (sbm st') = sb_used (sbm st) \<and> (\<forall>n. n = slot \<or> table st' n = table st n)
       else fd = slot \<and> sb_used (sbm st') = insert (next_index (sbm st)) (sb_used (sbm st)) \<and>
         table st' = (table st)(slot \<mapsto> Sock)) \<and>
      (new_socket sys \<noteq> None \<and> alloc_ok sys \<and> dup_ok sys \<and> getfd_ok sys \<and> setfd_ok sys \<and> bind_ok sys \<longrightarrow> fd = slot)"
proof -
  have inv: "sb_inv (sbm st)" using ok by (simp add: fds_ok_def)
  note frame = fds_ok_frame [OF ok init range(1)]
  show ?thesis
  proof (cases "new_socket sys")
    case None
    with ok show ?thesis by (simp add: create_rpc_socket_def socket_err_out_def)
  next
    case (Some p)
    with pre have p: "0 \<le> p" "p \<noteq> slot" "table st p = None" by auto
    have closed: "(table st)(p := None) = table st" using p(3) by auto
    from inv init range show ?thesis
    proof (cases rule: get_put_cases [where ok = "alloc_ok sys" and junk = "alloc_junk sys"])
      case fails
      have "create_rpc_socket sys st = Inr (-1, \<lparr>sbm = bm1, table = table st\<rparr>)"
        using Some fails(1) p(1) closed by (simp add: create_rpc_socket_def socket_err_out_def sys_close_def Let_def)
      moreover have "fds_ok \<lparr>sbm = bm1, table = table st\<rparr>" using fails by (intro frame) auto
      ultimately show ?thesis using fails by simp
    next
      case (works bm2 bm3)
      note get = works(1) [folded slot(1)] and put = works(6) [folded slot(1)]
      have others: "highest bm1 - int j \<noteq> slot" if "j \<in> sb_used (sbm st)" for j
        using that works(5) slot(1) by auto
      consider (dup) "\<not> dup_ok sys" | (late) "dup_ok sys" "\<not> (getfd_ok sys \<and> setfd_ok sys \<and> bind_ok sys)"
        | (all) "dup_ok sys" "getfd_ok sys" "setfd_ok sys" "bind_ok sys" by blast
      then show ?thesis
      proof cases
        case dup
        have "create_rpc_socket sys st = Inr (-1, \<lparr>sbm = bm3, table = table st\<rparr>)"
          using Some get put p(1) closed slot(2) dup
          by (simp add: create_rpc_socket_def socket_err_out_def sys_close_def Let_def)
        moreover have "fds_ok \<lparr>sbm = bm3, table = table st\<rparr>" using works by (intro frame) auto
        ultimately show ?thesis using works(8) dup by simp
      next
        case late
        have "create_rpc_socket sys st = Inr (-1, \<lparr>sbm = bm3, table = (table st)(slot := None)\<rparr>)"
          using Some get put p closed slot(2) late
          by (auto simp: create_rpc_socket_def socket_err_out_def sys_close_def sys_dup2_def Let_def fun_upd_twist)
        moreover have "fds_ok \<lparr>sbm = bm3, table = (table st)(slot := None)\<rparr>"
          using works others by (intro frame) auto
        ultimately show ?thesis using works(8) late by auto
      next
        case all
        have "create_rpc_socket sys st = Inr (slot, \<lparr>sbm = bm2, table = (table st)(slot \<mapsto> Sock)\<rparr>)"
          using Some get p closed slot(2) all
          by (auto simp: create_rpc_socket_def sys_close_def sys_dup2_def Let_def fun_upd_twist)
        moreover have "fds_ok \<lparr>sbm = bm2, table = (table st)(slot \<mapsto> Sock)\<rparr>"
        proof -
          have "fds_ok \<lparr>sbm = bm3, table = table st\<rparr>" using works by (intro frame) auto
          then show ?thesis using works(2-4,8,9) slot(1) range(1) by (auto simp: fds_ok_def)
        qed
        ultimately show ?thesis using works(3) slot(2) by auto
      qed
    qed
  qed
qed

lemma close_rpc_socket_result:
  assumes "fds_ok st" and "i \<in> sb_used (sbm st)" and "sb_put_safe (sbm st) i" and "bit_length (sbm st) < 2 ^ 31"
  shows "\<exists>st'. close_rpc_socket ok' (highest (sbm st) - int i) st = Inr st' \<and> fds_ok st' \<and>
    sb_used (sbm st') = sb_used (sbm st) - {i} \<and> table st' = (table st)(highest (sbm st) - int i := None)"
proof -
  have "sb_inv (sbm st)" using assms(1) by (simp add: fds_ok_def)
  with socket_bitmap_put_spec [of "sbm st" i ok'] assms(2-4) obtain bm where
    "socket_bitmap_put ok' (sbm st) (highest (sbm st) - int i) = Inr bm" "sb_inv bm"
    "sb_used bm = sb_used (sbm st) - {i}" "highest bm = highest (sbm st)" by blast
  with assms(1) show ?thesis by (auto simp: close_rpc_socket_def sys_close_def fds_ok_def)
qed

section \<open>Properties\<close>


definition fds_example :: mldr_fds where
  "fds_example = \<lparr>sbm = sb_example, table = [1023 \<mapsto> Sock, 1021 \<mapsto> PipeWrite, 0 \<mapsto> OtherFile]\<rparr>"

definition sock_sys_example :: sock_sys where
  "sock_sys_example = \<lparr>new_socket = Some 3, fd_limit = RlimitInfinity, alloc_ok = True, alloc_junk = 0, dup_ok = True,
     getfd_ok = True, setfd_ok = True, bind_ok = True\<rparr>"

lemma fds_example_ok: "fds_ok fds_example"
  using sb_example_inv by (simp add: fds_ok_def fds_example_def sb_example_def)


text \<open>
  The pipe is given up on a failure through the arrays of descriptors, which were not set when
  the pipe itself could not be made: whatever number was in that memory is given back to the
  bitmap, outside of its block when there is none yet.
\<close>

lemma lifetime_pipe_unset_fds:
  assumes "\<not> kernel_5_3 sys" and "new_pipe sys = None" and "0 \<le> fst (fds0 sys)"
  shows "create_process_lifetime_pipe sys \<lparr>sbm = socket_bitmap_empty, table = T\<rparr> = Inl OutOfBounds"
  using assms
  by (simp add: create_process_lifetime_pipe_def pipe_err_out_def socket_err_out_def socket_bitmap_put_def
      socket_bitmap_empty_def Let_def)

end
