(* ===== verification/Work_Queue.thy ===== *)
theory Work_Queue
  imports Osxie_Prelude
begin

text \<open>
  The pool of worker threads of the server (src/external/osxieserver/internal-include/
  osxieserver/workers.hpp). One step is one critical section under the queue's mutex, one
  notification of the condition variable, or the work on an item outside of the mutex. A
  condition variable wakes one of the threads that wait, or none if there are none; a thread
  may wake without a notification, and the wait of a temporary worker may time out.
\<close>

section \<open>State\<close>

text \<open>
  A worker, permanent or not, is about to take the mutex, waits, was woken or has timed out and
  is about to take the mutex again, works on an item, or has returned because the queue is
  being destroyed. \<open>WqNone\<close> is no thread.
\<close>

datatype 'w wq_pc =
    WqNone | WqStart bool | WqWaiting bool | WqWoken bool | WqTimedOut | WqWork bool 'w | WqEnded

text \<open>
  The last four fields: \<open>push\<close> calls between the mutex and \<open>notify_one\<close>, and the histories of
  the items pushed and taken and the number of workers that timed out, which nothing reads.
\<close>

record 'w wq_sys =
  workItems :: "'w list"
  workerThreads :: "tid list"
  threadsAvailable :: nat
  wq_dying :: bool
  wq_pc :: "tid \<Rightarrow> 'w wq_pc"
  wq_notifies :: nat
  wq_pushed :: "'w list"
  wq_taken :: "'w list"
  wq_expired :: nat

abbreviation wq_goto :: "'w wq_sys \<Rightarrow> tid \<Rightarrow> 'w wq_pc \<Rightarrow> 'w wq_sys" where
  "wq_goto s t pc \<equiv> s\<lparr>wq_pc := (wq_pc s)(t := pc)\<rparr>"

definition minimumThreads :: "bool \<Rightarrow> nat" where
  "minimumThreads single = (if single then 1 else 2)"

definition maximumThreads :: "bool \<Rightarrow> nat \<Rightarrow> nat" where
  "maximumThreads single hw =
     (if \<not> single \<and> hw > 0 \<and> hw > minimumThreads single then hw else minimumThreads single)"

section \<open>The functions\<close>

text \<open>The constructor starts the permanent workers.\<close>

definition WorkQueue_init :: "bool \<Rightarrow> 'w wq_sys" where
  "WorkQueue_init single =
     \<lparr>workItems = [], workerThreads = [0 ..< minimumThreads single], threadsAvailable = 0, wq_dying = False,
      wq_pc = (\<lambda>t. if t < minimumThreads single then WqStart True else WqNone),
      wq_notifies = 0, wq_pushed = [], wq_taken = [], wq_expired = 0\<rparr>"

text \<open>The predicate of the wait: keep waiting, or stop with or without an item.\<close>

definition wq_predicate :: "'w wq_sys \<Rightarrow> ('w option \<times> 'w wq_sys) option" where
  "wq_predicate s =
     (if wq_dying s then Some (None, s\<lparr>threadsAvailable := threadsAvailable s - 1\<rparr>)
      else
        (case workItems s of
           [] \<Rightarrow> None
         | x # xs \<Rightarrow> Some (Some x, s\<lparr>workItems := xs, threadsAvailable := threadsAvailable s - 1,
                                  wq_taken := wq_taken s @ [x]\<rparr>)))"

text \<open>
  What follows the evaluation of the predicate: \<open>fails\<close> is what happens when it is false.
\<close>

definition wq_wait :: "bool \<Rightarrow> 'w wq_sys \<Rightarrow> tid \<Rightarrow> 'w wq_sys \<Rightarrow> 'w wq_sys" where
  "wq_wait permanent s t fails =
     (case wq_predicate s of
        None \<Rightarrow> fails
      | Some (None, s') \<Rightarrow> wq_goto s' t WqEnded
      | Some (Some x, s') \<Rightarrow> wq_goto s' t (WqWork permanent x))"

fun worker :: "'w wq_pc \<Rightarrow> 'w wq_sys \<Rightarrow> tid \<Rightarrow> 'w wq_sys option" where
  "worker (WqStart permanent) s t =
     (let s = s\<lparr>threadsAvailable := threadsAvailable s + 1\<rparr>
      in Some (wq_wait permanent s t (wq_goto s t (WqWaiting permanent))))"
| "worker (WqWoken permanent) s t = Some (wq_wait permanent s t (wq_goto s t (WqWaiting permanent)))"
| "worker WqTimedOut s t =
     Some (wq_wait False s t
       (wq_goto (s\<lparr>workerThreads := removeAll t (workerThreads s), wq_expired := wq_expired s + 1\<rparr>) t WqNone))"
| "worker (WqWork permanent x) s t = Some (wq_goto s t (WqStart permanent))"
| "worker _ s t = None"

text \<open>\<open>push\<close> up to the end of the critical section; \<open>new\<close> is the id a new thread gets.\<close>

definition wq_push :: "nat \<Rightarrow> tid \<Rightarrow> 'w \<Rightarrow> 'w wq_sys \<Rightarrow> 'w wq_sys" where
  "wq_push maxThreads new x s =
     (let s = s\<lparr>workItems := workItems s @ [x], wq_pushed := wq_pushed s @ [x]\<rparr>
      in if threadsAvailable s = 0 \<and> length (workerThreads s) < maxThreads
         then wq_goto (s\<lparr>workerThreads := workerThreads s @ [new]\<rparr>) new (WqStart False)
         else s\<lparr>wq_notifies := wq_notifies s + 1\<rparr>)"

text \<open>The destructor, up to the joining of the threads.\<close>

definition wq_destroy :: "'w wq_sys \<Rightarrow> 'w wq_sys" where
  "wq_destroy s = s\<lparr>wq_dying := True\<rparr>"

definition wq_notify_all :: "'w wq_sys \<Rightarrow> 'w wq_sys" where
  "wq_notify_all s =
     s\<lparr>wq_pc := (\<lambda>t. case wq_pc s t of WqWaiting permanent \<Rightarrow> WqWoken permanent | pc \<Rightarrow> pc)\<rparr>"

section \<open>Threads using them\<close>

definition is_waiting :: "'w wq_pc \<Rightarrow> bool" where
  "is_waiting pc \<longleftrightarrow> (\<exists>p. pc = WqWaiting p)"

text \<open>The steps that the queue and its workers take by themselves.\<close>

inductive wq_own_step :: "'w wq_sys \<Rightarrow> 'w wq_sys \<Rightarrow> bool" where
  run: "worker (wq_pc s t) s t = Some s' \<Longrightarrow> wq_own_step s s'"
| notify_one: "wq_notifies s = Suc n \<Longrightarrow> wq_pc s t = WqWaiting p \<Longrightarrow>
    wq_own_step s (wq_goto (s\<lparr>wq_notifies := n\<rparr>) t (WqWoken p))"
| notify_none: "wq_notifies s = Suc n \<Longrightarrow> (\<forall>t. \<not> is_waiting (wq_pc s t)) \<Longrightarrow> wq_own_step s (s\<lparr>wq_notifies := n\<rparr>)"

inductive wq_step :: "nat \<Rightarrow> 'w wq_sys \<Rightarrow> 'w wq_sys \<Rightarrow> bool" for maxThreads :: nat where
  own: "wq_own_step s s' \<Longrightarrow> wq_step maxThreads s s'"
| push: "wq_pc s new = WqNone \<Longrightarrow> wq_step maxThreads s (wq_push maxThreads new x s)"
| spurious: "wq_pc s t = WqWaiting p \<Longrightarrow> wq_step maxThreads s (wq_goto s t (WqWoken p))"
| timeout: "wq_pc s t = WqWaiting False \<Longrightarrow> wq_step maxThreads s (wq_goto s t WqTimedOut)"
| destroy: "wq_step maxThreads s (wq_destroy s)"
| notify_all: "wq_dying s \<Longrightarrow> wq_step maxThreads s (wq_notify_all s)"

section \<open>Invariant\<close>

text \<open>Inside of the wait, and on the way to look at the items.\<close>

fun in_wait :: "'w wq_pc \<Rightarrow> bool" where
  "in_wait (WqWaiting p) \<longleftrightarrow> True" | "in_wait (WqWoken p) \<longleftrightarrow> True" | "in_wait WqTimedOut \<longleftrightarrow> True"
| "in_wait pc \<longleftrightarrow> False"

fun is_awake :: "'w wq_pc \<Rightarrow> bool" where
  "is_awake (WqStart p) \<longleftrightarrow> True" | "is_awake (WqWoken p) \<longleftrightarrow> True" | "is_awake WqTimedOut \<longleftrightarrow> True"
| "is_awake (WqWork p x) \<longleftrightarrow> True" | "is_awake pc \<longleftrightarrow> False"

fun is_permanent :: "'w wq_pc \<Rightarrow> bool" where
  "is_permanent (WqStart p) \<longleftrightarrow> p" | "is_permanent (WqWaiting p) \<longleftrightarrow> p" | "is_permanent (WqWoken p) \<longleftrightarrow> p"
| "is_permanent (WqWork p x) \<longleftrightarrow> p" | "is_permanent pc \<longleftrightarrow> False"

definition waiters :: "'w wq_sys \<Rightarrow> nat" where
  "waiters s = length (filter (\<lambda>t. in_wait (wq_pc s t)) (workerThreads s))"

definition wq_threads_ok :: "nat \<Rightarrow> 'w wq_sys \<Rightarrow> bool" where
  "wq_threads_ok maxThreads s \<longleftrightarrow>
     distinct (workerThreads s) \<and> (\<forall>t. t \<in> set (workerThreads s) \<longleftrightarrow> wq_pc s t \<noteq> WqNone) \<and>
     length (workerThreads s) \<le> maxThreads \<and> threadsAvailable s = waiters s + wq_expired s"

definition wq_wakeup_ok :: "'w wq_sys \<Rightarrow> bool" where
  "wq_wakeup_ok s \<longleftrightarrow> wq_pushed s = wq_taken s @ workItems s \<and>
     (\<not> wq_dying s \<longrightarrow> wq_pc s 0 \<noteq> WqEnded \<and> is_permanent (wq_pc s 0) \<and>
        (workItems s \<noteq> [] \<longrightarrow> some_at (wq_pc s) is_awake \<or> wq_notifies s > 0))"

definition wq_inv :: "nat \<Rightarrow> 'w wq_sys \<Rightarrow> bool" where
  "wq_inv maxThreads s \<longleftrightarrow> wq_threads_ok maxThreads s \<and> wq_wakeup_ok s"

lemmas wq_invs = wq_threads_ok_def wq_wakeup_ok_def

text \<open>Moving one thread changes the number of waiters by that thread only.\<close>

lemma filter_upd:
  assumes "distinct ts" and "t \<in> set ts"
  shows "length (filter (\<lambda>u. P ((f(t := pc)) u)) ts) + of_bool (P (f t)) = length (filter (\<lambda>u. P (f u)) ts) + of_bool (P pc)"
  using assms
proof (induction ts)
  case Nil
  then show ?case by simp
next
  case (Cons u ts)
  have same: "filter (\<lambda>u. P ((f(t := pc)) u)) ts = filter (\<lambda>u. P (f u)) ts" if "t \<notin> set ts"
    using that by (intro filter_cong) auto
  show ?case
  proof (cases "u = t")
    case True
    with Cons.prems same show ?thesis by auto
  next
    case False
    with Cons show ?thesis by auto
  qed
qed

lemma wq_threads_move:
  assumes "wq_threads_ok maxThreads s" and "wq_pc s t \<noteq> WqNone" and "pc \<noteq> WqNone"
    and "n + of_bool (in_wait (wq_pc s t)) = threadsAvailable s + of_bool (in_wait pc)"
    and "s' = wq_goto (s\<lparr>threadsAvailable := n, workItems := xs, wq_taken := ys, wq_notifies := k\<rparr>) t pc"
  shows "wq_threads_ok maxThreads s'"
proof -
  have "t \<in> set (workerThreads s)" "distinct (workerThreads s)" using assms(1,2) by (auto simp: wq_threads_ok_def)
  from filter_upd [OF this(2,1), of in_wait "wq_pc s" pc] assms(1,4) have "n = waiters s' + wq_expired s"
    by (simp add: wq_threads_ok_def waiters_def assms(5))
  with assms(1-3) show ?thesis by (simp add: wq_threads_ok_def assms(5))
qed

lemma waiters_pos:
  assumes "wq_threads_ok maxThreads s" and "in_wait (wq_pc s t)"
  shows "threadsAvailable s > 0"
proof -
  have "t \<in> set (workerThreads s)" using assms by (cases "wq_pc s t") (auto simp: wq_threads_ok_def)
  with assms have "t \<in> set (filter (\<lambda>t. in_wait (wq_pc s t)) (workerThreads s))" by simp
  then have "waiters s > 0" unfolding waiters_def by (metis length_pos_if_in_set)
  with assms(1) show ?thesis by (simp add: wq_threads_ok_def)
qed

lemma wq_threads_expire:
  assumes ok: "wq_threads_ok maxThreads s" and pc: "wq_pc s t = WqTimedOut"
  shows "wq_threads_ok maxThreads
    (wq_goto (s\<lparr>workerThreads := removeAll t (workerThreads s), wq_expired := wq_expired s + 1\<rparr>) t WqNone)" (is "wq_threads_ok _ ?s")
proof -
  have t: "t \<in> set (workerThreads s)" "distinct (workerThreads s)" using ok pc by (auto simp: wq_threads_ok_def)
  have "filter (\<lambda>u. in_wait (wq_pc ?s u)) (workerThreads s) = filter (\<lambda>u. in_wait (wq_pc ?s u)) (removeAll t (workerThreads s))"
    by (simp add: removeAll_filter_not_eq)
  then have "waiters ?s + 1 = waiters s"
    using filter_upd [OF t(2,1), of in_wait "wq_pc s" WqNone] pc by (simp add: waiters_def)
  moreover have "length (removeAll t (workerThreads s)) \<le> maxThreads"
    unfolding removeAll_filter_not_eq
    by (rule le_trans [OF length_filter_le]) (use ok in \<open>simp add: wq_threads_ok_def\<close>)
  ultimately show ?thesis using ok t by (auto simp: wq_threads_ok_def distinct_removeAll)
qed

lemma wq_wait_threads:
  assumes ok: "wq_threads_ok maxThreads s" and t: "wq_pc s t \<noteq> WqNone"
    and n: "n = threadsAvailable s + of_bool (\<not> in_wait (wq_pc s t))"
    and fails: "wq_threads_ok maxThreads fails"
  shows "wq_threads_ok maxThreads (wq_wait p (s\<lparr>threadsAvailable := n\<rparr>) t fails)"
proof -
  have pos: "n - 1 + of_bool (in_wait (wq_pc s t)) = threadsAvailable s"
    using n waiters_pos [OF ok, of t] by (cases "in_wait (wq_pc s t)") auto
  note move = wq_threads_move [OF ok t]
  have ended: "wq_threads_ok maxThreads (wq_goto (s\<lparr>threadsAvailable := n - 1\<rparr>) t WqEnded)"
    by (rule move [where pc = WqEnded and n = "n - 1" and xs = "workItems s" and ys = "wq_taken s" and k = "wq_notifies s"])
      (use pos in simp_all)
  have work: "wq_threads_ok maxThreads (wq_goto (s\<lparr>workItems := xs, threadsAvailable := n - 1, wq_taken := ys\<rparr>) t (WqWork p x))" for xs ys x
    by (rule move [where pc = "WqWork p x" and n = "n - 1" and xs = xs and ys = ys and k = "wq_notifies s"])
      (use pos in simp_all)
  show ?thesis
    using ended work fails by (auto simp: wq_wait_def wq_predicate_def split: list.splits)
qed

lemma worker_threads:
  assumes ok: "wq_threads_ok maxThreads s" and run: "worker (wq_pc s t) s t = Some s'"
  shows "wq_threads_ok maxThreads s'"
proof (cases "wq_pc s t")
  case (WqStart p)
  have "wq_threads_ok maxThreads (wq_goto (s\<lparr>threadsAvailable := threadsAvailable s + 1\<rparr>) t (WqWaiting p))"
    by (rule wq_threads_move [OF ok, where pc = "WqWaiting p" and n = "threadsAvailable s + 1" and xs = "workItems s"
        and ys = "wq_taken s" and k = "wq_notifies s"]) (use WqStart in simp_all)
  from wq_wait_threads [OF ok _ _ this, of t "threadsAvailable s + 1" p] show ?thesis using run WqStart by (auto simp: Let_def)
next
  case (WqWoken p)
  have "wq_threads_ok maxThreads (wq_goto s t (WqWaiting p))"
    by (rule wq_threads_move [OF ok, where pc = "WqWaiting p" and n = "threadsAvailable s" and xs = "workItems s"
        and ys = "wq_taken s" and k = "wq_notifies s"]) (use WqWoken in simp_all)
  from wq_wait_threads [OF ok _ _ this, of t "threadsAvailable s" p] show ?thesis using run WqWoken by auto
next
  case WqTimedOut
  from wq_wait_threads [OF ok _ _ wq_threads_expire [OF ok this], of t "threadsAvailable s" False] show ?thesis
    using run WqTimedOut by auto
next
  case (WqWork p x)
  show ?thesis
    by (rule wq_threads_move [OF ok, where t = t and pc = "WqStart p" and n = "threadsAvailable s" and xs = "workItems s"
        and ys = "wq_taken s" and k = "wq_notifies s"]) (use WqWork run in auto)
qed (use run in auto)

lemma wq_wait_wakeup:
  assumes ok: "wq_wakeup_ok s" and t: "is_permanent (wq_pc s t) \<Longrightarrow> p"
    and fails: "workItems s = [] \<Longrightarrow> \<not> wq_dying s \<Longrightarrow> wq_wakeup_ok fails"
  shows "wq_wakeup_ok (wq_wait p (s\<lparr>threadsAvailable := n\<rparr>) t fails)"
proof (cases "wq_dying s")
  case True
  with ok show ?thesis by (simp add: wq_wait_def wq_predicate_def wq_wakeup_ok_def)
next
  case False
  show ?thesis
  proof (cases "workItems s")
    case Nil
    with False fails show ?thesis by (simp add: wq_wait_def wq_predicate_def)
  next
    case (Cons x xs)
    with False ok t show ?thesis by (cases "t = 0") (simp_all add: wq_wait_def wq_predicate_def wq_wakeup_ok_def some_at_upd)
  qed
qed

lemma worker_wakeup:
  assumes ok: "wq_wakeup_ok s" and run: "worker (wq_pc s t) s t = Some s'"
  shows "wq_wakeup_ok s'"
proof (cases "wq_pc s t")
  case (WqStart p)
  have "wq_wakeup_ok (wq_goto (s\<lparr>threadsAvailable := n\<rparr>) t (WqWaiting p))" if "workItems s = []" for n
    using that ok WqStart by (cases "t = 0") (simp_all add: wq_wakeup_ok_def)
  with wq_wait_wakeup [OF ok, of t p] WqStart run show ?thesis by (auto simp: Let_def)
next
  case (WqWoken p)
  have "wq_wakeup_ok (wq_goto s t (WqWaiting p))" if "workItems s = []"
    using that ok WqWoken by (cases "t = 0") (simp_all add: wq_wakeup_ok_def)
  with wq_wait_wakeup [OF ok, of t p _ "threadsAvailable s"] WqWoken run show ?thesis by auto
next
  case WqTimedOut
  have "wq_wakeup_ok (wq_goto (s\<lparr>workerThreads := removeAll t (workerThreads s), wq_expired := wq_expired s + 1\<rparr>) t WqNone)"
    if "workItems s = []" "\<not> wq_dying s"
    using that ok WqTimedOut by (cases "t = 0") (simp_all add: wq_wakeup_ok_def)
  with wq_wait_wakeup [OF ok, of t False _ "threadsAvailable s"] WqTimedOut run show ?thesis by auto
next
  case (WqWork p x)
  with ok run show ?thesis by (cases "t = 0") (auto simp: wq_wakeup_ok_def some_at_upd)
qed (use run in auto)

lemma wq_own_step_inv:
  assumes "wq_inv maxThreads s" and "wq_own_step s s'"
  shows "wq_inv maxThreads s'"
  using assms(2)
proof cases
  case (run t)
  with assms(1) worker_threads worker_wakeup show ?thesis unfolding wq_inv_def by blast
next
  case (notify_one n t p)
  have "wq_threads_ok maxThreads s'"
    by (rule wq_threads_move [where s = s and t = t and pc = "WqWoken p" and n = "threadsAvailable s" and xs = "workItems s"
        and ys = "wq_taken s" and k = n]) (use assms(1) notify_one in \<open>auto simp: wq_inv_def\<close>)
  with assms(1) notify_one show ?thesis by (cases "t = 0") (auto simp: wq_inv_def wq_wakeup_ok_def some_at_upd)
next
  case (notify_none n)
  have "is_awake (wq_pc s 0)" if "\<not> wq_dying s"
    using that assms(1) notify_none(3) by (cases "wq_pc s 0") (auto simp: wq_inv_def wq_wakeup_ok_def is_waiting_def)
  then have "\<not> wq_dying s \<Longrightarrow> some_at (wq_pc s) is_awake" by (auto simp: some_at_def)
  with assms(1) notify_none show ?thesis by (auto simp: wq_inv_def wq_invs waiters_def)
qed

lemma wq_push_inv:
  assumes "wq_inv maxThreads s" and "wq_pc s new = WqNone"
  shows "wq_inv maxThreads (wq_push maxThreads new x s)"
proof -
  let ?s = "s\<lparr>workItems := workItems s @ [x], wq_pushed := wq_pushed s @ [x]\<rparr>"
  have ok: "wq_threads_ok maxThreads s" and new: "new \<notin> set (workerThreads s)"
    using assms by (simp_all add: wq_inv_def wq_threads_ok_def)
  have "filter (\<lambda>u. in_wait (((wq_pc s)(new := WqStart False)) u)) (workerThreads s) =
      filter (\<lambda>u. in_wait (wq_pc s u)) (workerThreads s)"
    using new by (intro filter_cong) auto
  then have w: "waiters (wq_goto (?s\<lparr>workerThreads := workerThreads s @ [new]\<rparr>) new (WqStart False)) = waiters s"
    "waiters (?s\<lparr>wq_notifies := k\<rparr>) = waiters s" for k
    by (simp_all add: waiters_def)
  have "wq_threads_ok maxThreads (wq_push maxThreads new x s)"
  proof (cases "threadsAvailable s = 0 \<and> length (workerThreads s) < maxThreads")
    case True
    then have "wq_push maxThreads new x s = wq_goto (?s\<lparr>workerThreads := workerThreads s @ [new]\<rparr>) new (WqStart False)"
      by (simp add: wq_push_def Let_def)
    with True ok new w(1) show ?thesis unfolding wq_threads_ok_def by auto
  next
    case False
    then have "wq_push maxThreads new x s = ?s\<lparr>wq_notifies := wq_notifies s + 1\<rparr>" by (auto simp: wq_push_def Let_def)
    with ok w(2) show ?thesis unfolding wq_threads_ok_def by simp
  qed
  moreover have "new \<noteq> 0 \<or> wq_dying s" using assms by (cases "new = 0") (auto simp: wq_inv_def wq_wakeup_ok_def)
  with assms(1) have "wq_wakeup_ok (wq_push maxThreads new x s)"
    by (auto simp: wq_inv_def wq_wakeup_ok_def wq_push_def Let_def some_at_upd)
  ultimately show ?thesis by (simp add: wq_inv_def)
qed

lemma wq_wake_inv:
  assumes "wq_inv maxThreads s" and "wq_pc s t = WqWaiting p" and "pc = WqWoken p \<or> \<not> p \<and> pc = WqTimedOut"
  shows "wq_inv maxThreads (wq_goto s t pc)"
proof -
  have "wq_threads_ok maxThreads (wq_goto s t pc)"
    by (rule wq_threads_move [where s = s and t = t and pc = pc and n = "threadsAvailable s" and xs = "workItems s"
        and ys = "wq_taken s" and k = "wq_notifies s"]) (use assms in \<open>auto simp: wq_inv_def\<close>)
  with assms show ?thesis by (cases "t = 0") (auto simp: wq_inv_def wq_wakeup_ok_def some_at_upd)
qed

lemma wq_step_inv:
  assumes "wq_inv maxThreads s" and "wq_step maxThreads s s'"
  shows "wq_inv maxThreads s'"
  using assms(2)
proof cases
  case own
  then show ?thesis by (rule wq_own_step_inv [OF assms(1)])
next
  case (push new x)
  with wq_push_inv [OF assms(1)] show ?thesis by simp
next
  case (spurious t p)
  with wq_wake_inv [OF assms(1) spurious(2)] show ?thesis by simp
next
  case (timeout t)
  with wq_wake_inv [OF assms(1) timeout(2)] show ?thesis by simp
next
  case destroy
  with assms(1) show ?thesis by (simp add: wq_inv_def wq_invs wq_destroy_def waiters_def)
next
  case notify_all
  have "in_wait (wq_pc s' t) = in_wait (wq_pc s t)" "(wq_pc s' t = WqNone) = (wq_pc s t = WqNone)" for t
    by (simp_all add: notify_all(1) wq_notify_all_def split: wq_pc.split)
  moreover have "workerThreads s' = workerThreads s" "threadsAvailable s' = threadsAvailable s" "wq_expired s' = wq_expired s"
    "wq_pushed s' = wq_pushed s" "wq_taken s' = wq_taken s" "workItems s' = workItems s" "wq_dying s'"
    using notify_all by (simp_all add: wq_notify_all_def)
  ultimately show ?thesis using assms(1) by (simp add: wq_inv_def wq_invs waiters_def)
qed

lemma WorkQueue_init_inv:
  assumes "minimumThreads single \<le> maxThreads"
  shows "wq_inv maxThreads (WorkQueue_init single)"
  using assms by (auto simp: wq_inv_def wq_invs WorkQueue_init_def waiters_def minimumThreads_def)

interpretation wq: inductive_invariant "\<lambda>s. s = WorkQueue_init single \<and> minimumThreads single \<le> maxThreads"
    "wq_step maxThreads" "wq_inv maxThreads" for single maxThreads
  by unfold_locales (auto intro: WorkQueue_init_inv wq_step_inv)

lemma minimum_maximum: "minimumThreads single \<le> maximumThreads single hw"
  by (auto simp: maximumThreads_def)

section \<open>Serving an item\<close>

lemma worker_takes:
  assumes "\<not> wq_dying s" and "workItems s = x # xs" and "wq_pc s t = WqStart p \<or> wq_pc s t = WqWoken p \<or> wq_pc s t = WqTimedOut"
  shows "\<exists>s' q. wq_own_step s s' \<and> wq_taken s' = wq_taken s @ [x] \<and> wq_pc s' t = WqWork q x"
proof -
  have "\<exists>s' q. worker (wq_pc s t) s t = Some s' \<and> wq_taken s' = wq_taken s @ [x] \<and> wq_pc s' t = WqWork q x"
    using assms by (auto simp: wq_wait_def wq_predicate_def)
  then show ?thesis by (blast intro: wq_own_step.run)
qed

lemma awake_serves:
  assumes "\<not> wq_dying s" and "workItems s = x # xs" and "is_awake (wq_pc s t)"
  shows "\<exists>s' q. wq_own_step\<^sup>*\<^sup>* s s' \<and> wq_taken s' = wq_taken s @ [x] \<and> wq_pc s' t = WqWork q x"
proof (cases "\<exists>p y. wq_pc s t = WqWork p y")
  case True
  then obtain p y where pc: "wq_pc s t = WqWork p y" by blast
  let ?s = "wq_goto s t (WqStart p)"
  have "wq_own_step s ?s" by (rule wq_own_step.run [where t = t]) (simp add: pc)
  moreover obtain s' q where "wq_own_step ?s s'" "wq_taken s' = wq_taken s @ [x]" "wq_pc s' t = WqWork q x"
    using worker_takes [of ?s x xs t p] assms(1,2) by auto
  ultimately show ?thesis by (blast intro: rtranclp.rtrancl_into_rtrancl)
next
  case False
  with assms(3) obtain p where "wq_pc s t = WqStart p \<or> wq_pc s t = WqWoken p \<or> wq_pc s t = WqTimedOut"
    by (cases "wq_pc s t") auto
  from worker_takes [OF assms(1,2) this] show ?thesis by blast
qed

lemma wq_serves:
  assumes inv: "wq_inv maxThreads s" and alive: "\<not> wq_dying s" and items: "workItems s = x # xs"
  shows "\<exists>s' t q. wq_own_step\<^sup>*\<^sup>* s s' \<and> wq_taken s' = wq_taken s @ [x] \<and> wq_pc s' t = WqWork q x"
proof (cases "some_at (wq_pc s) is_awake")
  case True
  with awake_serves [OF alive items] show ?thesis unfolding some_at_def by blast
next
  case False
  with inv alive items obtain n where n: "wq_notifies s = Suc n" "is_permanent (wq_pc s 0)"
    by (auto simp: wq_inv_def wq_wakeup_ok_def gr0_conv_Suc)
  with False have pc: "wq_pc s 0 = WqWaiting True" by (cases "wq_pc s 0") (auto simp: some_at_def elim!: allE [of _ 0])
  let ?s = "wq_goto (s\<lparr>wq_notifies := n\<rparr>) 0 (WqWoken True)"
  have "wq_own_step s ?s" by (rule wq_own_step.notify_one [OF n(1) pc])
  moreover obtain s' q where "wq_own_step\<^sup>*\<^sup>* ?s s'" "wq_taken s' = wq_taken s @ [x]" "wq_pc s' 0 = WqWork q x"
    using awake_serves [of ?s x xs 0] alive items by auto
  ultimately show ?thesis by (blast intro: converse_rtranclp_into_rtranclp)
qed

section \<open>An executable run\<close>

datatype 'w wq_act = WqRun tid | WqNote tid | WqPush tid 'w | WqExpire tid

fun wq_do :: "nat \<Rightarrow> 'w wq_act \<Rightarrow> 'w wq_sys \<Rightarrow> 'w wq_sys option" where
  "wq_do maxThreads (WqRun t) s = worker (wq_pc s t) s t"
| "wq_do maxThreads (WqNote t) s =
     (case (wq_notifies s, wq_pc s t) of
        (Suc n, WqWaiting p) \<Rightarrow> Some (wq_goto (s\<lparr>wq_notifies := n\<rparr>) t (WqWoken p))
      | _ \<Rightarrow> None)"
| "wq_do maxThreads (WqPush new x) s =
     (case wq_pc s new of WqNone \<Rightarrow> Some (wq_push maxThreads new x s) | _ \<Rightarrow> None)"
| "wq_do maxThreads (WqExpire t) s =
     (case wq_pc s t of WqWaiting False \<Rightarrow> Some (wq_goto s t WqTimedOut) | _ \<Rightarrow> None)"

lemma wq_do_step:
  assumes "wq_do maxThreads a s = Some s'"
  shows "wq_step maxThreads s s'"
proof (cases a)
  case (WqRun t)
  with assms show ?thesis by (auto intro: wq_step.own wq_own_step.run)
next
  case (WqNote t)
  with assms obtain n p where "wq_notifies s = Suc n" "wq_pc s t = WqWaiting p" "s' = wq_goto (s\<lparr>wq_notifies := n\<rparr>) t (WqWoken p)"
    by (auto split: nat.splits wq_pc.splits)
  with wq_step.own [OF wq_own_step.notify_one [of s n t p]] show ?thesis by simp
next
  case (WqPush new x)
  with assms show ?thesis by (auto split: wq_pc.splits intro: wq_step.push)
next
  case (WqExpire t)
  with assms show ?thesis by (auto split: wq_pc.splits bool.splits intro: wq_step.timeout)
qed

fun wq_sched :: "nat \<Rightarrow> 'w wq_act list \<Rightarrow> 'w wq_sys \<Rightarrow> 'w wq_sys option" where
  "wq_sched maxThreads [] s = Some s"
| "wq_sched maxThreads (a # as) s =
     (case wq_do maxThreads a s of None \<Rightarrow> None | Some s' \<Rightarrow> wq_sched maxThreads as s')"

lemma wq_sched_run: "wq_sched maxThreads as s = Some s' \<Longrightarrow> (wq_step maxThreads)\<^sup>*\<^sup>* s s'"
  by (induction maxThreads as s rule: wq_sched.induct)
    (auto split: option.splits dest: wq_do_step intro: converse_rtranclp_into_rtranclp)

lemma wq_sched_append:
  "wq_sched maxThreads (as @ bs) s = (case wq_sched maxThreads as s of None \<Rightarrow> None | Some s' \<Rightarrow> wq_sched maxThreads bs s')"
  by (induction maxThreads as s rule: wq_sched.induct) (auto split: option.splits)

text \<open>
  On a machine with three processors: two items keep the permanent workers busy, a third one
  is done by a temporary worker, which then times out, and a fourth one is pushed.
\<close>

definition wq_example :: "nat wq_act list" where
  "wq_example = [WqRun 0, WqRun 1, WqPush 9 10, WqNote 0, WqRun 0, WqPush 9 11, WqNote 1, WqRun 1, WqPush 2 12, WqRun 2, WqRun 2,
     WqRun 2, WqExpire 2, WqRun 2]"

lemma wq_example_run:
  "\<exists>s. wq_sched (maximumThreads False 3) wq_example (WorkQueue_init False) = Some s \<and> wq_expired s = 1 \<and> \<not> wq_dying s \<and>
     workItems s = [] \<and> workerThreads s = [0, 1] \<and> wq_pc s 0 = WqWork True 10 \<and> wq_pc s 1 = WqWork True 11 \<and>
     threadsAvailable s = 1 \<and> wq_taken s = [10, 11, 12] \<and> wq_pc s 2 = WqNone"
  by (simp add: wq_example_def WorkQueue_init_def minimumThreads_def maximumThreads_def wq_wait_def wq_predicate_def wq_push_def
      upt_rec numeral_2_eq_2)

section \<open>Properties\<close>

text \<open>C15. No item of the pool of workers is lost, done twice or done out of order: what was pushed is what
  was handed to workers, in that order, followed by what is queued. And no wake-up is lost: as long as
  the queue is not being destroyed, the pool by itself (without a time-out, a wake-up by chance or
  another item) can always hand the first queued item to a worker. There are never more workers
  than the maximum.\<close>
theorem work_queue_serves_items:
  assumes "(wq_step (maximumThreads single hw))\<^sup>*\<^sup>* (WorkQueue_init single) s"
  shows "wq_pushed s = wq_taken s @ workItems s \<and> length (workerThreads s) \<le> maximumThreads single hw \<and>
    (\<forall>x xs. \<not> wq_dying s \<longrightarrow> workItems s = x # xs \<longrightarrow>
      (\<exists>s' t p. wq_own_step\<^sup>*\<^sup>* s s' \<and> wq_taken s' = wq_taken s @ [x] \<and> wq_pc s' t = WqWork p x))"
proof -
  have inv: "wq_inv (maximumThreads single hw) s" using wq.reachable_inv minimum_maximum assms by blast
  then show ?thesis using wq_serves [OF inv] by (auto simp: wq_inv_def wq_invs)
qed

theorem work_queue_serves_items_witness:
  "\<exists>s s' t p. wq_sched (maximumThreads False 3) (wq_example @ [WqPush 2 13]) (WorkQueue_init False) = Some s \<and>
     workItems s = [13] \<and> wq_own_step\<^sup>*\<^sup>* s s' \<and> wq_taken s' = [10, 11, 12, 13] \<and> wq_pc s' t = WqWork p 13"
proof -
  obtain s where s: "wq_sched (maximumThreads False 3) wq_example (WorkQueue_init False) = Some s" "\<not> wq_dying s"
      "workItems s = []" "threadsAvailable s = 1" "wq_taken s = [10, 11, 12]" "wq_pc s 2 = WqNone"
    using wq_example_run by blast
  let ?s = "wq_push (maximumThreads False 3) 2 13 s"
  have run: "wq_sched (maximumThreads False 3) (wq_example @ [WqPush 2 13]) (WorkQueue_init False) = Some ?s"
    using s by (simp add: wq_sched_append)
  have "\<not> wq_dying ?s" "workItems ?s = [13]" "wq_taken ?s = [10, 11, 12]" using s by (simp_all add: wq_push_def Let_def)
  with work_queue_serves_items [OF wq_sched_run [OF run]] run show ?thesis by fastforce
qed

text \<open>C38. The number of workers that wait is not counted down when a temporary worker times out. After
  the first time-out the pool never starts a temporary worker again, however few workers there are
  and however busy they are: an item that is pushed then only waits.\<close>
theorem work_queue_stops_growing:
  assumes "(wq_step (maximumThreads single hw))\<^sup>*\<^sup>* (WorkQueue_init single) s" and "wq_expired s > 0"
  shows "workerThreads (wq_push (maximumThreads single hw) new x s) = workerThreads s \<and>
    wq_pc (wq_push (maximumThreads single hw) new x s) = wq_pc s"
proof -
  have "wq_inv (maximumThreads single hw) s" using wq.reachable_inv minimum_maximum assms(1) by blast
  with assms(2) have "threadsAvailable s > 0" by (simp add: wq_inv_def wq_threads_ok_def)
  then show ?thesis by (simp add: wq_push_def Let_def)
qed

theorem work_queue_stops_growing_witness:
  "\<exists>s. wq_sched (maximumThreads False 3) wq_example (WorkQueue_init False) = Some s \<and>
     wq_pc s 0 = WqWork True 10 \<and> wq_pc s 1 = WqWork True 11 \<and> workerThreads s = [0, 1] \<and> maximumThreads False 3 = 3 \<and>
     workerThreads (wq_push (maximumThreads False 3) 2 13 s) = [0, 1]"
proof -
  obtain s where s: "wq_sched (maximumThreads False 3) wq_example (WorkQueue_init False) = Some s" "wq_expired s = 1"
      "wq_pc s 0 = WqWork True 10" "wq_pc s 1 = WqWork True 11" "workerThreads s = [0, 1]"
    using wq_example_run by blast
  then have "workerThreads (wq_push (maximumThreads False 3) 2 13 s) = [0, 1]"
    using work_queue_stops_growing [OF wq_sched_run [OF s(1)], of 2 13] by simp
  with s show ?thesis by (auto simp: maximumThreads_def minimumThreads_def)
qed

end
