(* ===== verification/Kqchan_Process.thy ===== *)
theory Kqchan_Process
  imports Osxie_Prelude
begin

text \<open>
  The channel through which a process hears of events of another one
  (src/external/osxieserver/src/kqchan.cpp: the class Kqchan and its derived class
  Kqchan::Process). The server sends a notification when there are events, the peer answers
  with a request to read one, and the server replies. Several threads of the server run in
  the channel at once. A step is one critical section, or one message pushed to the outbox or
  handed to the socket. The mutex around the list of events is held a little longer in
  the code than in the model, so that every run of the code is one of the model.
\<close>

section \<open>State\<close>

definition NOTE_FORK :: u32 where "NOTE_FORK = 0x40000000"
definition NOTE_TRACK :: u32 where "NOTE_TRACK = 0x00000001"
definition NOTE_TRACKERR :: u32 where "NOTE_TRACKERR = 0x00000002"

text \<open>An event; of the new channel for a child only whether there is one.\<close>

record proc_event =
  ev_events :: u32
  ev_data :: int
  ev_newKqchan :: bool

text \<open>A reply to a read: the code (57005, 0xdead: nothing to read), and a descriptor, if one was pushed.\<close>

record proc_reply =
  re_code :: nat
  re_data :: int
  re_fflags :: u32
  re_fd :: "int option"

datatype kq_msg = Notification | ModifyReply | ReadReply proc_reply

datatype kq_call = CallModify u32 | CallRead | CallInvalid

text \<open>Where the thread that processes the messages of the peer is.\<close>

datatype kq_reader = RdIdle | RdModify | RdAck | RdPop proc_reply | RdReply proc_reply | RdDeferred | RdNotify | RdThrown

datatype kq_setup = SetupNone | SetupCheck | SetupDone

datatype kq_wait = NotWaiting | WaitModify | WaitRead

text \<open>
  The channel and the threads in it. Threads that are about to send a notification differ in
  nothing but how far they are, so it is enough to count them: \<open>at_send\<close> are about to call
  \<open>_sendNotification\<close>, \<open>at_push\<close> have left its critical section and are about to push the
  message, \<open>at_check\<close> are about to look for events in the background. \<open>socketpair\<close> and the fields
  that follow are the messages on the way and the peer: the notifications that it has not
  answered, and what it waits for. Nothing reads the histories of events \<open>notified\<close> and \<open>popped\<close>.
\<close>

record kqchan =
  kq_flags :: u32
  kq_events :: "proc_event list"
  kq_socket :: bool
  canSendNotification :: bool
  deferNotification :: bool
  deferredNotification :: bool
  kq_inbox :: "kq_call list"
  kq_outbox :: "kq_msg list"
  kq_listener :: bool
  reader :: kq_reader
  setup_at :: kq_setup
  at_send :: nat
  at_push :: nat
  at_check :: nat
  socketpair :: "kq_msg list"
  peer_notes :: nat
  peer_wait :: kq_wait
  notified :: "proc_event list"
  popped :: "proc_event list"

definition Kqchan_init :: "u32 \<Rightarrow> kqchan" where
  "Kqchan_init flags =
     \<lparr>kq_flags = flags, kq_events = [], kq_socket = False, canSendNotification = True, deferNotification = False,
      deferredNotification = False, kq_inbox = [], kq_outbox = [], kq_listener = True, reader = RdIdle, setup_at = SetupNone,
      at_send = 0, at_push = 0, at_check = 0, socketpair = [], peer_notes = 0, peer_wait = NotWaiting, notified = [], popped = []\<rparr>"

section \<open>Notifications\<close>

definition sendNotification :: "kqchan \<Rightarrow> kqchan" where
  "sendNotification s =
     (if \<not> canSendNotification s then s
      else
        let s = s\<lparr>canSendNotification := False\<rparr>
        in if deferNotification s then s\<lparr>deferredNotification := True\<rparr> else s\<lparr>at_push := at_push s + 1\<rparr>)"

definition sendDeferredNotification :: "kqchan \<Rightarrow> kqchan" where
  "sendDeferredNotification s =
     (let s = s\<lparr>deferNotification := False\<rparr>
      in if deferredNotification s then s\<lparr>deferredNotification := False, reader := RdNotify\<rparr> else s\<lparr>reader := RdIdle\<rparr>)"

definition outbox_push :: "kq_msg \<Rightarrow> kqchan \<Rightarrow> kqchan" where
  "outbox_push msg s = s\<lparr>kq_outbox := kq_outbox s @ [msg]\<rparr>"

text \<open>A background check: when there are events, the thread goes on to send a notification.\<close>

definition checkForEventsAsync :: "kqchan \<Rightarrow> kqchan" where
  "checkForEventsAsync s = (if kq_events s \<noteq> [] then s\<lparr>at_send := at_send s + 1\<rparr> else s)"

text \<open>
  The end of \<open>setup\<close>: from now on the socket is there, and events that came before are announced.
\<close>

definition Process_setup :: "kqchan \<Rightarrow> kqchan option" where
  "Process_setup s =
     (case setup_at s of
        SetupNone \<Rightarrow> Some (s\<lparr>kq_socket := True, setup_at := SetupCheck\<rparr>)
      | SetupCheck \<Rightarrow>
          Some (let s = s\<lparr>setup_at := SetupDone\<rparr> in if kq_events s \<noteq> [] then s\<lparr>at_send := at_send s + 1\<rparr> else s)
      | SetupDone \<Rightarrow> None)"

text \<open>
  An event happens; \<open>child\<close> says whether a forked child is registered, for which a channel
  is made.
\<close>

definition Process_notify :: "u32 \<Rightarrow> int \<Rightarrow> bool \<Rightarrow> kqchan \<Rightarrow> kqchan" where
  "Process_notify event data child s =
     (if event = NOTE_FORK \<and> \<not> kq_listener s then s
      else
        let ev = \<lparr>ev_events = event, ev_data = data, ev_newKqchan = (event = NOTE_FORK \<and> child)\<rparr>;
            s = s\<lparr>kq_events := kq_events s @ [ev], notified := notified s @ [ev]\<rparr>
        in if kq_socket s then s\<lparr>at_send := at_send s + 1\<rparr> else s)"

section \<open>Messages of the peer\<close>

text \<open>
  The reply for an event that is of interest; \<open>sock\<close> is the socket of the new channel, or None
  when its \<open>setup\<close> throws.
\<close>

definition proc_event_reply :: "u32 \<Rightarrow> int option \<Rightarrow> proc_event \<Rightarrow> proc_reply" where
  "proc_event_reply flags sock ev =
     (let fflags = ev_events ev AND flags;
          reply = \<lparr>re_code = 0, re_data = ev_data ev, re_fflags = fflags, re_fd = None\<rparr>
      in if flags AND NOTE_TRACK \<noteq> 0 then
           if ev_newKqchan ev then
             (case sock of
                Some fd \<Rightarrow> reply\<lparr>re_fd := Some fd\<rparr>
              | None \<Rightarrow> reply\<lparr>re_fflags := fflags OR NOTE_TRACKERR\<rparr>)
           else if ev_events ev AND NOTE_FORK \<noteq> 0 then reply\<lparr>re_fflags := fflags OR NOTE_TRACKERR\<rparr>
           else reply
         else reply)"

text \<open>One round of the loop that looks for an event of interest.\<close>

definition Process_read_pop :: "int option \<Rightarrow> proc_reply \<Rightarrow> kqchan \<Rightarrow> kqchan" where
  "Process_read_pop sock reply s =
     (case kq_events s of
        [] \<Rightarrow> s\<lparr>reader := RdReply (reply\<lparr>re_code := 57005\<rparr>)\<rparr>
      | ev # evs \<Rightarrow>
          let s = s\<lparr>kq_events := evs, popped := popped s @ [ev]\<rparr>
          in if ev_events ev AND kq_flags s = 0
             then s\<lparr>reader := RdPop (reply\<lparr>re_data := ev_data ev, re_fflags := 0\<rparr>)\<rparr>
             else s\<lparr>reader := RdReply (proc_event_reply (kq_flags s) sock ev)\<rparr>)"

fun Process_processMessages :: "kq_reader \<Rightarrow> int option \<Rightarrow> kqchan \<Rightarrow> kqchan option" where
  "Process_processMessages RdIdle sock s =
     (case kq_inbox s of
        [] \<Rightarrow> None
      | CallModify flags # calls \<Rightarrow> Some (s\<lparr>kq_inbox := calls, kq_flags := flags, reader := RdModify\<rparr>)
      | CallRead # calls \<Rightarrow> Some (s\<lparr>kq_inbox := calls, reader := (if kq_listener s then RdAck else RdIdle)\<rparr>)
      | CallInvalid # calls \<Rightarrow> Some (s\<lparr>kq_inbox := calls, reader := RdThrown\<rparr>))"
| "Process_processMessages RdModify sock s = Some (outbox_push ModifyReply (s\<lparr>reader := RdIdle\<rparr>))"
| "Process_processMessages RdAck sock s =
     Some (s\<lparr>canSendNotification := True, deferNotification := True,
             reader := RdPop \<lparr>re_code = 0, re_data = 0, re_fflags = 0, re_fd = None\<rparr>\<rparr>)"
| "Process_processMessages (RdPop reply) sock s = Some (Process_read_pop sock reply s)"
| "Process_processMessages (RdReply reply) sock s = Some (outbox_push (ReadReply reply) (s\<lparr>reader := RdDeferred\<rparr>))"
| "Process_processMessages RdDeferred sock s = Some (sendDeferredNotification s)"
| "Process_processMessages RdNotify sock s = Some (outbox_push Notification (s\<lparr>reader := RdIdle\<rparr>))"
| "Process_processMessages RdThrown sock s = None"

section \<open>The socket and the peer\<close>

text \<open>
  The outbox sends its first message; the replies carry a callback that schedules a check.
\<close>

fun has_callback :: "kq_msg \<Rightarrow> bool" where
  "has_callback Notification \<longleftrightarrow> False" | "has_callback _ \<longleftrightarrow> True"

definition kq_transmit :: "kqchan \<Rightarrow> kqchan option" where
  "kq_transmit s =
     (case kq_outbox s of
        [] \<Rightarrow> None
      | m # ms \<Rightarrow> Some (s\<lparr>kq_outbox := ms, socketpair := socketpair s @ [m],
                        at_check := at_check s + (if has_callback m then 1 else 0)\<rparr>))"

text \<open>
  The peer is the event filter of the process that listens, whose code is not part of this
  repository. It sends one request at a time, and a request to read only to answer a
  notification, once.
\<close>

definition peer_receive :: "kqchan \<Rightarrow> kqchan option" where
  "peer_receive s =
     (case socketpair s of
        [] \<Rightarrow> None
      | m # ms \<Rightarrow>
          Some (let s = s\<lparr>socketpair := ms\<rparr>
                in if m = Notification then s\<lparr>peer_notes := peer_notes s + 1\<rparr> else s\<lparr>peer_wait := NotWaiting\<rparr>))"

definition peer_read :: "kqchan \<Rightarrow> kqchan option" where
  "peer_read s =
     (if peer_notes s > 0 \<and> peer_wait s = NotWaiting
      then Some (s\<lparr>peer_notes := peer_notes s - 1, peer_wait := WaitRead, kq_inbox := kq_inbox s @ [CallRead]\<rparr>) else None)"

definition peer_modify :: "u32 \<Rightarrow> kqchan \<Rightarrow> kqchan option" where
  "peer_modify flags s =
     (if peer_wait s = NotWaiting
      then Some (s\<lparr>peer_wait := WaitModify, kq_inbox := kq_inbox s @ [CallModify flags]\<rparr>) else None)"

section \<open>Steps\<close>

datatype kq_act =
    ActNotify u32 int bool | ActSend | ActPush | ActCheck | ActReader "int option" | ActSetup | ActTransmit
  | ActListenerDies | ActPeerReceive | ActPeerRead | ActPeerModify u32

fun kq_do :: "kq_act \<Rightarrow> kqchan \<Rightarrow> kqchan option" where
  "kq_do (ActNotify event data child) s = Some (Process_notify event data child s)"
| "kq_do ActSend s = (if at_send s > 0 then Some (sendNotification (s\<lparr>at_send := at_send s - 1\<rparr>)) else None)"
| "kq_do ActPush s = (if at_push s > 0 then Some (outbox_push Notification (s\<lparr>at_push := at_push s - 1\<rparr>)) else None)"
| "kq_do ActCheck s = (if at_check s > 0 then Some (checkForEventsAsync (s\<lparr>at_check := at_check s - 1\<rparr>)) else None)"
| "kq_do (ActReader sock) s = Process_processMessages (reader s) sock s"
| "kq_do ActSetup s = Process_setup s"
| "kq_do ActTransmit s = kq_transmit s"
| "kq_do ActListenerDies s = Some (s\<lparr>kq_listener := False\<rparr>)"
| "kq_do ActPeerReceive s = peer_receive s"
| "kq_do ActPeerRead s = peer_read s"
| "kq_do (ActPeerModify flags) s = peer_modify flags s"

inductive kq_step :: "kqchan \<Rightarrow> kqchan \<Rightarrow> bool" where
  do: "kq_do a s = Some s' \<Longrightarrow> kq_step s s'"

fun kq_run :: "kq_act list \<Rightarrow> kqchan \<Rightarrow> kqchan option" where
  "kq_run [] s = Some s"
| "kq_run (a # as) s = (case kq_do a s of None \<Rightarrow> None | Some s' \<Rightarrow> kq_run as s')"

lemma kq_run_steps: "kq_run as s = Some s' \<Longrightarrow> kq_step\<^sup>*\<^sup>* s s'"
  by (induction as s rule: kq_run.induct)
    (auto split: option.splits intro: converse_rtranclp_into_rtranclp kq_step.do)

section \<open>Messages in order\<close>

text \<open>The messages on the way, in the order in which the peer gets them.\<close>

definition stream :: "kqchan \<Rightarrow> kq_msg list" where
  "stream s = socketpair s @ kq_outbox s"

definition note_count :: "kq_msg list \<Rightarrow> nat" where
  "note_count ms = length (filter (\<lambda>m. m = Notification) ms)"

fun is_read_reply :: "kq_msg \<Rightarrow> bool" where
  "is_read_reply (ReadReply r) \<longleftrightarrow> True" | "is_read_reply _ \<longleftrightarrow> False"

definition reply_count :: "kq_msg list \<Rightarrow> nat" where
  "reply_count ms = length (filter is_read_reply ms)"

text \<open>No notification stands before the reply to a read.\<close>

fun reply_first :: "kq_msg list \<Rightarrow> bool" where
  "reply_first [] \<longleftrightarrow> True"
| "reply_first (m # ms) \<longleftrightarrow> (m = Notification \<longrightarrow> reply_count ms = 0) \<and> reply_first ms"

lemma counts_simps [simp]:
  "note_count [] = 0" "reply_count [] = 0" "note_count (ms @ ms') = note_count ms + note_count ms'"
  "reply_count (ms @ ms') = reply_count ms + reply_count ms'"
  "note_count (m # ms) = of_bool (m = Notification) + note_count ms"
  "reply_count (m # ms) = of_bool (is_read_reply m) + reply_count ms"
  by (simp_all add: note_count_def reply_count_def)

lemma reply_first_append:
  "reply_first (ms @ [m]) \<longleftrightarrow> reply_first ms \<and> (is_read_reply m \<longrightarrow> note_count ms = 0)"
  by (induction ms) auto

section \<open>Invariant\<close>

text \<open>A read is under way whose reply has not been pushed; notifications are deferred; events are looked for.\<close>

fun rd_open :: "kq_reader \<Rightarrow> bool" where
  "rd_open RdAck \<longleftrightarrow> True" | "rd_open (RdPop r) \<longleftrightarrow> True" | "rd_open (RdReply r) \<longleftrightarrow> True" | "rd_open _ \<longleftrightarrow> False"

fun rd_looks :: "kq_reader \<Rightarrow> bool" where
  "rd_looks (RdPop r) \<longleftrightarrow> True" | "rd_looks (RdReply r) \<longleftrightarrow> True" | "rd_looks _ \<longleftrightarrow> False"

definition rd_defers :: "kq_reader \<Rightarrow> bool" where
  "rd_defers pc \<longleftrightarrow> rd_looks pc \<or> pc = RdDeferred"

definition read_calls :: "kq_call list \<Rightarrow> nat" where
  "read_calls cs = length (filter (\<lambda>c. c = CallRead) cs)"

definition modify_calls :: "kq_call list \<Rightarrow> nat" where
  "modify_calls cs = length (filter (\<lambda>c. \<exists>f. c = CallModify f) cs)"

definition modify_replies :: "kq_msg list \<Rightarrow> nat" where
  "modify_replies ms = length (filter (\<lambda>m. m = ModifyReply) ms)"

lemma calls_simps [simp]:
  "read_calls [] = 0" "modify_calls [] = 0" "modify_replies [] = 0"
  "read_calls (cs @ cs') = read_calls cs + read_calls cs'" "modify_calls (cs @ cs') = modify_calls cs + modify_calls cs'"
  "modify_replies (ms @ ms') = modify_replies ms + modify_replies ms'"
  "read_calls (c # cs) = of_bool (c = CallRead) + read_calls cs"
  "modify_calls (c # cs) = of_bool (\<exists>f. c = CallModify f) + modify_calls cs"
  "modify_replies (m # ms) = of_bool (m = ModifyReply) + modify_replies ms"
  by (simp_all add: read_calls_def modify_calls_def modify_replies_def)

text \<open>
  One notification at most is anywhere between the decision to send it and the
  acknowledgement, and there is one exactly when another one may not be sent.
\<close>

definition kq_single :: "kqchan \<Rightarrow> bool" where
  "kq_single s \<longleftrightarrow>
     of_bool (\<not> canSendNotification s) = at_push s + of_bool (deferredNotification s) + of_bool (reader s = RdNotify) +
       note_count (stream s) + peer_notes s + of_bool (reader s = RdAck) + read_calls (kq_inbox s)"

definition kq_deferral :: "kqchan \<Rightarrow> bool" where
  "kq_deferral s \<longleftrightarrow> (deferNotification s \<longleftrightarrow> rd_defers (reader s)) \<and> (deferredNotification s \<longrightarrow> deferNotification s) \<and>
     (deferNotification s \<longrightarrow> at_push s = 0) \<and> (rd_looks (reader s) \<longrightarrow> note_count (stream s) = 0)"

text \<open>What the peer waits for is under way, once.\<close>

definition kq_answers :: "kqchan \<Rightarrow> bool" where
  "kq_answers s \<longleftrightarrow>
     of_bool (peer_wait s = WaitRead) = read_calls (kq_inbox s) + of_bool (rd_open (reader s)) + reply_count (stream s) \<and>
     of_bool (peer_wait s = WaitModify) = modify_calls (kq_inbox s) + of_bool (reader s = RdModify) + modify_replies (stream s) \<and>
     reply_first (stream s)"

text \<open>Events that wait to be read are announced or going to be.\<close>

definition kq_announced :: "kqchan \<Rightarrow> bool" where
  "kq_announced s \<longleftrightarrow> (setup_at s = SetupNone \<longleftrightarrow> \<not> kq_socket s) \<and>
     (kq_events s \<noteq> [] \<longrightarrow> setup_at s = SetupDone \<longrightarrow>
        \<not> canSendNotification s \<or> at_send s > 0 \<or> at_check s > 0 \<or> rd_looks (reader s) \<or> (\<exists>m \<in> set (kq_outbox s). has_callback m))"

definition kq_inv :: "kqchan \<Rightarrow> bool" where
  "kq_inv s \<longleftrightarrow> notified s = popped s @ kq_events s \<and>
     (kq_listener s \<longrightarrow> kq_single s \<and> kq_deferral s \<and> kq_answers s \<and> kq_announced s)"

lemmas kq_parts = kq_single_def kq_deferral_def kq_answers_def kq_announced_def

lemmas kq_ops = sendNotification_def sendDeferredNotification_def outbox_push_def checkForEventsAsync_def Process_setup_def
  Process_notify_def Process_read_pop_def kq_transmit_def peer_receive_def peer_read_def peer_modify_def Let_def

lemma kq_invI:
  assumes "kq_inv s" and "notified s = popped s @ kq_events s \<Longrightarrow> notified s' = popped s' @ kq_events s'"
    and "kq_listener s' \<Longrightarrow> kq_listener s"
    and "kq_listener s \<Longrightarrow> kq_single s \<Longrightarrow> kq_deferral s \<Longrightarrow> kq_answers s \<Longrightarrow> kq_single s'"
    and "kq_listener s \<Longrightarrow> kq_single s \<Longrightarrow> kq_deferral s \<Longrightarrow> kq_deferral s'"
    and "kq_listener s \<Longrightarrow> kq_single s \<Longrightarrow> kq_deferral s \<Longrightarrow> kq_answers s \<Longrightarrow> kq_answers s'"
    and "kq_listener s \<Longrightarrow> kq_announced s \<Longrightarrow> kq_announced s'"
  shows "kq_inv s'"
  using assms by (auto simp: kq_inv_def)

lemma notify_inv:
  assumes "kq_inv s"
  shows "kq_inv (Process_notify event data child s)"
proof (rule kq_invI [OF assms])
  let ?s = "Process_notify event data child s"
  show "notified ?s = popped ?s @ kq_events ?s" if "notified s = popped s @ kq_events s"
    using that by (simp add: Process_notify_def Let_def)
  show "kq_listener s" if "kq_listener ?s"
    using that by (simp add: Process_notify_def Let_def split: if_splits)
  show "kq_single ?s" if "kq_single s"
    using that by (simp add: Process_notify_def kq_single_def stream_def Let_def)
  show "kq_deferral ?s" if "kq_deferral s"
    using that by (auto simp: Process_notify_def kq_deferral_def stream_def Let_def)
  show "kq_answers ?s" if "kq_answers s"
    using that by (simp add: Process_notify_def kq_answers_def stream_def Let_def)
  show "kq_announced ?s" if "kq_announced s"
    using that by (auto simp: Process_notify_def kq_announced_def Let_def)
qed

lemma send_inv:
  assumes "kq_inv s"
  shows "kq_inv (sendNotification (s\<lparr>at_send := n\<rparr>))"
proof (rule kq_invI [OF assms])
  let ?s = "sendNotification (s\<lparr>at_send := n\<rparr>)"
  show "notified ?s = popped ?s @ kq_events ?s" if "notified s = popped s @ kq_events s"
    using that by (simp add: sendNotification_def Let_def)
  show "kq_listener s" if "kq_listener ?s"
    using that by (simp add: sendNotification_def Let_def split: if_splits)
  show "kq_single ?s" if "kq_single s" "kq_deferral s"
    using that by (cases "canSendNotification s") (simp_all add: sendNotification_def kq_single_def kq_deferral_def stream_def Let_def)
  show "kq_deferral ?s" if "kq_deferral s"
    using that by (auto simp: sendNotification_def kq_deferral_def stream_def Let_def)
  show "kq_answers ?s" if "kq_answers s"
    using that by (simp add: sendNotification_def kq_answers_def stream_def Let_def)
  show "kq_announced ?s" if "kq_announced s"
    using that by (auto simp: sendNotification_def kq_announced_def Let_def)
qed

lemma push_inv:
  assumes "kq_inv s" and "at_push s > 0"
  shows "kq_inv (outbox_push Notification (s\<lparr>at_push := at_push s - 1\<rparr>))"
proof (rule kq_invI [OF assms(1)])
  let ?s = "outbox_push Notification (s\<lparr>at_push := at_push s - 1\<rparr>)"
  have str: "stream ?s = stream s @ [Notification]" by (simp add: stream_def outbox_push_def)
  show "kq_single ?s" if "kq_single s"
    using that assms(2) unfolding kq_single_def str by (simp add: outbox_push_def)
  show "kq_deferral ?s" if "kq_deferral s"
    using that assms(2) unfolding kq_deferral_def str by (auto simp: outbox_push_def rd_defers_def)
  show "kq_answers ?s" if "kq_answers s"
    using that unfolding kq_answers_def str by (simp add: outbox_push_def reply_first_append)
  show "kq_announced ?s" if "kq_announced s"
    using that by (auto simp: outbox_push_def kq_announced_def)
qed (simp_all add: outbox_push_def)

lemma check_inv:
  assumes "kq_inv s"
  shows "kq_inv (checkForEventsAsync (s\<lparr>at_check := n\<rparr>))"
proof (rule kq_invI [OF assms])
  let ?s = "checkForEventsAsync (s\<lparr>at_check := n\<rparr>)"
  show "kq_single ?s" if "kq_single s" using that by (simp add: checkForEventsAsync_def kq_single_def stream_def)
  show "kq_deferral ?s" if "kq_deferral s" using that by (auto simp: checkForEventsAsync_def kq_deferral_def stream_def)
  show "kq_answers ?s" if "kq_answers s" using that by (simp add: checkForEventsAsync_def kq_answers_def stream_def)
  show "kq_announced ?s" if "kq_announced s" using that by (auto simp: checkForEventsAsync_def kq_announced_def)
qed (simp_all add: checkForEventsAsync_def split: if_splits)

lemma setup_inv:
  assumes "kq_inv s" and "Process_setup s = Some s'"
  shows "kq_inv s'"
proof (rule kq_invI [OF assms(1)])
  have same: "stream s' = stream s" "canSendNotification s' = canSendNotification s" "at_push s' = at_push s"
    "deferredNotification s' = deferredNotification s" "deferNotification s' = deferNotification s" "peer_notes s' = peer_notes s"
    "kq_inbox s' = kq_inbox s" "peer_wait s' = peer_wait s" "reader s' = reader s"
    using assms(2) by (auto simp: Process_setup_def stream_def Let_def split: kq_setup.splits if_splits)
  show "kq_single s'" if "kq_single s" using that unfolding kq_single_def same .
  show "kq_deferral s'" if "kq_deferral s" using that unfolding kq_deferral_def same .
  show "kq_answers s'" if "kq_answers s" using that unfolding kq_answers_def same .
  show "kq_announced s'" if "kq_announced s"
    using that assms(2) by (auto simp: Process_setup_def kq_announced_def Let_def split: kq_setup.splits if_splits)
qed (use assms(2) in \<open>auto simp: Process_setup_def Let_def split: kq_setup.splits if_splits\<close>)

lemma transmit_inv:
  assumes "kq_inv s" and "kq_transmit s = Some s'"
  shows "kq_inv s'"
proof (rule kq_invI [OF assms(1)])
  have same: "stream s' = stream s" "canSendNotification s' = canSendNotification s" "at_push s' = at_push s"
    "deferredNotification s' = deferredNotification s" "deferNotification s' = deferNotification s" "peer_notes s' = peer_notes s"
    "kq_inbox s' = kq_inbox s" "peer_wait s' = peer_wait s" "reader s' = reader s"
    using assms(2) by (auto simp: kq_transmit_def stream_def split: list.splits)
  show "kq_single s'" if "kq_single s" using that unfolding kq_single_def same .
  show "kq_deferral s'" if "kq_deferral s" using that unfolding kq_deferral_def same .
  show "kq_answers s'" if "kq_answers s" using that unfolding kq_answers_def same .
  show "kq_announced s'" if "kq_announced s"
    using that assms(2) by (auto simp: kq_transmit_def kq_announced_def split: list.splits)
qed (use assms(2) in \<open>auto simp: kq_transmit_def split: list.splits\<close>)

text \<open>The steps of the reader that touch neither the messages nor the notifications, and those that do.\<close>

lemma idle_inv:
  assumes inv: "kq_inv s" and pc: "reader s = RdIdle" and run: "Process_processMessages RdIdle sock s = Some s'"
  shows "kq_inv s'"
proof (rule kq_invI [OF inv])
  obtain c cs where c: "kq_inbox s = c # cs" using run by (cases "kq_inbox s") simp_all
  have same: "stream s' = stream s" "canSendNotification s' = canSendNotification s" "at_push s' = at_push s"
    "deferredNotification s' = deferredNotification s" "deferNotification s' = deferNotification s" "peer_notes s' = peer_notes s"
    "peer_wait s' = peer_wait s" "kq_inbox s' = cs"
    using run c by (auto simp: stream_def split: kq_call.splits)
  have pc': "reader s' = (case c of CallModify f \<Rightarrow> RdModify | CallRead \<Rightarrow> if kq_listener s then RdAck else RdIdle | CallInvalid \<Rightarrow> RdThrown)"
    using run c by (auto split: kq_call.splits)
  show "kq_single s'" if "kq_listener s" "kq_single s"
    using that unfolding kq_single_def same c pc pc' by (cases c) simp_all
  show "kq_deferral s'" if "kq_deferral s"
    using that unfolding kq_deferral_def same pc pc' by (cases c) (auto simp: rd_defers_def)
  show "kq_answers s'" if "kq_listener s" "kq_answers s"
    using that unfolding kq_answers_def same c pc pc' by (cases c) simp_all
  show "kq_announced s'" if "kq_announced s"
    using that pc run by (auto simp: kq_announced_def split: list.splits kq_call.splits)
qed (use run in \<open>auto split: list.splits kq_call.splits\<close>)

lemma modify_inv:
  assumes inv: "kq_inv s" and pc: "reader s = RdModify"
  shows "kq_inv (outbox_push ModifyReply (s\<lparr>reader := RdIdle\<rparr>))" (is "kq_inv ?s")
proof (rule kq_invI [OF inv])
  have str: "stream ?s = stream s @ [ModifyReply]" by (simp add: stream_def outbox_push_def)
  show "kq_single ?s" if "kq_single s" using that pc unfolding kq_single_def str by (simp add: outbox_push_def)
  show "kq_deferral ?s" if "kq_deferral s"
    using that pc unfolding kq_deferral_def str by (auto simp: outbox_push_def rd_defers_def)
  show "kq_answers ?s" if "kq_answers s"
    using that pc unfolding kq_answers_def str by (simp add: outbox_push_def reply_first_append)
  show "kq_announced ?s" if "kq_announced s" using that pc by (auto simp: outbox_push_def kq_announced_def)
qed (simp_all add: outbox_push_def)

lemma ack_inv:
  assumes inv: "kq_inv s" and pc: "reader s = RdAck"
  shows "kq_inv (s\<lparr>canSendNotification := True, deferNotification := True, reader := RdPop r\<rparr>)" (is "kq_inv ?s")
proof (rule kq_invI [OF inv])
  have str: "stream ?s = stream s" by (simp add: stream_def)
  have none: "at_push s = 0 \<and> \<not> deferredNotification s \<and> note_count (stream s) = 0 \<and> peer_notes s = 0 \<and> read_calls (kq_inbox s) = 0"
    if "kq_single s" using that pc by (cases "canSendNotification s"; cases "deferredNotification s") (simp_all add: kq_single_def)
  show "kq_single ?s" if "kq_single s" using none [OF that] unfolding kq_single_def str by simp
  show "kq_deferral ?s" if "kq_single s" using none [OF that] unfolding kq_deferral_def str by (simp add: rd_defers_def)
  show "kq_answers ?s" if "kq_answers s" using that pc unfolding kq_answers_def str by simp
  show "kq_announced ?s" if "kq_announced s" using that by (simp add: kq_announced_def)
qed simp_all

lemma pop_inv:
  assumes inv: "kq_inv s" and pc: "reader s = RdPop r"
  shows "kq_inv (Process_read_pop sock r s)" (is "kq_inv ?s")
proof (rule kq_invI [OF inv])
  have "\<exists>r'. reader ?s = RdPop r' \<or> reader ?s = RdReply r'"
    by (cases "kq_events s") (simp_all add: Process_read_pop_def Let_def)
  then obtain r' where pc': "reader ?s = RdPop r' \<or> reader ?s = RdReply r'" by blast
  have same: "stream ?s = stream s" "canSendNotification ?s = canSendNotification s" "at_push ?s = at_push s"
    "deferredNotification ?s = deferredNotification s" "deferNotification ?s = deferNotification s" "peer_notes ?s = peer_notes s"
    "kq_inbox ?s = kq_inbox s" "peer_wait ?s = peer_wait s" "kq_listener ?s = kq_listener s" "setup_at ?s = setup_at s" "kq_socket ?s = kq_socket s"
    by (simp_all add: Process_read_pop_def stream_def Let_def split: list.split)
  show "kq_single ?s" if "kq_single s" using that pc pc' unfolding kq_single_def same by auto
  show "kq_deferral ?s" if "kq_deferral s" using that pc pc' unfolding kq_deferral_def same rd_defers_def by auto
  show "kq_answers ?s" if "kq_answers s" using that pc pc' unfolding kq_answers_def same by auto
  show "kq_announced ?s" if "kq_announced s" using that pc' unfolding kq_announced_def same by auto
  show "kq_listener s" if "kq_listener ?s" using that same by simp
qed (auto simp: Process_read_pop_def Let_def split: list.split)

lemma reply_inv:
  assumes inv: "kq_inv s" and pc: "reader s = RdReply r"
  shows "kq_inv (outbox_push (ReadReply r) (s\<lparr>reader := RdDeferred\<rparr>))" (is "kq_inv ?s")
proof (rule kq_invI [OF inv])
  have str: "stream ?s = stream s @ [ReadReply r]" by (simp add: stream_def outbox_push_def)
  show "kq_single ?s" if "kq_single s" using that pc unfolding kq_single_def str by (simp add: outbox_push_def)
  show "kq_deferral ?s" if "kq_deferral s"
    using that pc unfolding kq_deferral_def str by (auto simp: outbox_push_def rd_defers_def)
  show "kq_answers ?s" if "kq_deferral s" "kq_answers s"
    using that pc unfolding kq_answers_def kq_deferral_def str by (simp add: outbox_push_def reply_first_append)
  show "kq_announced ?s" if "kq_announced s" using that pc by (auto simp: outbox_push_def kq_announced_def)
qed (simp_all add: outbox_push_def)

lemma deferred_inv:
  assumes inv: "kq_inv s" and pc: "reader s = RdDeferred"
  shows "kq_inv (sendDeferredNotification s)" (is "kq_inv ?s")
proof (rule kq_invI [OF inv])
  have str: "stream ?s = stream s" by (simp add: stream_def sendDeferredNotification_def Let_def)
  show "kq_single ?s" if "kq_single s"
    using that pc unfolding kq_single_def str by (simp add: sendDeferredNotification_def Let_def)
  show "kq_deferral ?s" if "kq_deferral s"
    using that pc unfolding kq_deferral_def str by (auto simp: sendDeferredNotification_def rd_defers_def Let_def)
  show "kq_answers ?s" if "kq_answers s"
    using that pc unfolding kq_answers_def str by (simp add: sendDeferredNotification_def Let_def)
  show "kq_announced ?s" if "kq_announced s"
    using that pc by (simp add: sendDeferredNotification_def kq_announced_def Let_def)
qed (simp_all add: sendDeferredNotification_def Let_def split: if_splits)

lemma renotify_inv:
  assumes inv: "kq_inv s" and pc: "reader s = RdNotify"
  shows "kq_inv (outbox_push Notification (s\<lparr>reader := RdIdle\<rparr>))" (is "kq_inv ?s")
proof (rule kq_invI [OF inv])
  have str: "stream ?s = stream s @ [Notification]" by (simp add: stream_def outbox_push_def)
  show "kq_single ?s" if "kq_single s" using that pc unfolding kq_single_def str by (simp add: outbox_push_def)
  show "kq_deferral ?s" if "kq_deferral s"
    using that pc unfolding kq_deferral_def str by (auto simp: outbox_push_def rd_defers_def)
  show "kq_answers ?s" if "kq_answers s"
    using that pc unfolding kq_answers_def str by (simp add: outbox_push_def reply_first_append)
  show "kq_announced ?s" if "kq_announced s" using that pc by (auto simp: outbox_push_def kq_announced_def)
qed (simp_all add: outbox_push_def)

lemma reader_inv:
  assumes "kq_inv s" and "Process_processMessages (reader s) sock s = Some s'"
  shows "kq_inv s'"
proof (cases "reader s")
  case RdIdle
  with idle_inv [OF assms(1)] assms(2) show ?thesis by metis
qed (use assms modify_inv [OF assms(1)] ack_inv [OF assms(1)] pop_inv [OF assms(1)] reply_inv [OF assms(1)]
    deferred_inv [OF assms(1)] renotify_inv [OF assms(1)] in auto)

lemma receive_inv:
  assumes inv: "kq_inv s" and run: "peer_receive s = Some s'"
  shows "kq_inv s'"
proof (rule kq_invI [OF inv])
  obtain m where str: "stream s = m # stream s'" and
    notes': "peer_notes s' = peer_notes s + of_bool (m = Notification)" and
    wait': "peer_wait s' = (if m = Notification then peer_wait s else NotWaiting)"
    using run by (auto simp: peer_receive_def stream_def Let_def split: list.splits if_splits)
  have same: "canSendNotification s' = canSendNotification s" "at_push s' = at_push s"
    "deferredNotification s' = deferredNotification s" "deferNotification s' = deferNotification s"
    "kq_inbox s' = kq_inbox s" "reader s' = reader s" "kq_events s' = kq_events s" "setup_at s' = setup_at s"
    "kq_socket s' = kq_socket s" "at_send s' = at_send s" "at_check s' = at_check s" "kq_outbox s' = kq_outbox s"
    using run by (auto simp: peer_receive_def Let_def split: list.splits if_splits)
  show "kq_single s'" if "kq_single s" using that unfolding kq_single_def same str notes' by simp
  show "kq_deferral s'" if "kq_deferral s" using that unfolding kq_deferral_def same str by auto
  show "kq_answers s'" if "kq_answers s"
    using that unfolding kq_answers_def same str wait' by (cases m; cases "peer_wait s") simp_all
  show "kq_announced s'" if "kq_announced s" using that unfolding kq_announced_def same .
qed (use run in \<open>auto simp: peer_receive_def Let_def split: list.splits if_splits\<close>)

lemma peer_read_inv:
  assumes inv: "kq_inv s" and run: "peer_read s = Some s'"
  shows "kq_inv s'"
proof (rule kq_invI [OF inv])
  have pre: "peer_notes s > 0" "peer_wait s = NotWaiting"
    and s': "s' = s\<lparr>peer_notes := peer_notes s - 1, peer_wait := WaitRead, kq_inbox := kq_inbox s @ [CallRead]\<rparr>"
    using run by (auto simp: peer_read_def split: if_splits)
  have str: "stream s' = stream s" by (simp add: stream_def s')
  show "kq_single s'" if "kq_single s" using that pre unfolding kq_single_def str by (simp add: s')
  show "kq_deferral s'" if "kq_deferral s" using that unfolding kq_deferral_def str by (auto simp: s')
  show "kq_answers s'" if "kq_answers s" using that pre unfolding kq_answers_def str by (simp add: s')
  show "kq_announced s'" if "kq_announced s" using that by (simp add: kq_announced_def s')
qed (use run in \<open>auto simp: peer_read_def split: if_splits\<close>)

lemma peer_modify_inv:
  assumes inv: "kq_inv s" and run: "peer_modify f s = Some s'"
  shows "kq_inv s'"
proof (rule kq_invI [OF inv])
  have pre: "peer_wait s = NotWaiting"
    and s': "s' = s\<lparr>peer_wait := WaitModify, kq_inbox := kq_inbox s @ [CallModify f]\<rparr>"
    using run by (auto simp: peer_modify_def split: if_splits)
  have str: "stream s' = stream s" by (simp add: stream_def s')
  show "kq_single s'" if "kq_single s" using that pre unfolding kq_single_def str by (simp add: s')
  show "kq_deferral s'" if "kq_deferral s" using that unfolding kq_deferral_def str by (auto simp: s')
  show "kq_answers s'" if "kq_answers s" using that pre unfolding kq_answers_def str by (simp add: s')
  show "kq_announced s'" if "kq_announced s" using that by (simp add: kq_announced_def s')
qed (use run in \<open>auto simp: peer_modify_def split: if_splits\<close>)

lemma kq_step_inv:
  assumes "kq_inv s" and "kq_step s s'"
  shows "kq_inv s'"
  using assms(2)
proof cases
  case (do a)
  note inv = assms(1)
  show ?thesis
  proof (cases a)
    case (ActNotify event data child)
    with do notify_inv [OF inv, of event data child] show ?thesis by simp
  next
    case ActSend
    with do send_inv [OF inv, of "at_send s - 1"] show ?thesis by (simp split: if_splits)
  next
    case ActPush
    with do push_inv [OF inv] show ?thesis by (auto split: if_splits)
  next
    case ActCheck
    with do check_inv [OF inv, of "at_check s - 1"] show ?thesis by (simp split: if_splits)
  next
    case ActListenerDies
    with do inv show ?thesis by (auto simp: kq_inv_def)
  next
    case (ActReader sock)
    with do reader_inv [OF inv] show ?thesis by simp
  next
    case ActSetup
    with do setup_inv [OF inv] show ?thesis by simp
  next
    case ActTransmit
    with do transmit_inv [OF inv] show ?thesis by simp
  next
    case ActPeerReceive
    with do receive_inv [OF inv] show ?thesis by simp
  next
    case ActPeerRead
    with do peer_read_inv [OF inv] show ?thesis by simp
  next
    case (ActPeerModify f)
    with do peer_modify_inv [OF inv] show ?thesis by simp
  qed
qed

lemma Kqchan_init_inv: "kq_inv (Kqchan_init flags)"
  by (simp add: kq_inv_def kq_parts Kqchan_init_def stream_def rd_defers_def)

interpretation kq: inductive_invariant "\<lambda>s. s = Kqchan_init flags" kq_step kq_inv for flags
  by unfold_locales (auto intro: Kqchan_init_inv kq_step_inv)

section \<open>Reading\<close>

text \<open>What a read answers for the events in the list: the first one of interest, if there is one.\<close>

definition read_answer :: "u32 \<Rightarrow> int option \<Rightarrow> proc_event list \<Rightarrow> proc_reply \<Rightarrow> proc_reply" where
  "read_answer flags sock evs reply =
     (case dropWhile (\<lambda>ev. ev_events ev AND flags = 0) evs of
        [] \<Rightarrow> reply\<lparr>re_code := 57005, re_data := (if evs = [] then re_data reply else ev_data (last evs)),
                re_fflags := (if evs = [] then re_fflags reply else 0)\<rparr>
      | ev # _ \<Rightarrow> proc_event_reply flags sock ev)"

lemma read_loop:
  assumes "reader s = RdPop r"
  shows "\<exists>s'. kq_step\<^sup>*\<^sup>* s s' \<and> reader s' = RdReply (read_answer (kq_flags s) sock (kq_events s) r) \<and>
    kq_events s' = tl (dropWhile (\<lambda>ev. ev_events ev AND kq_flags s = 0) (kq_events s)) \<and> kq_outbox s' = kq_outbox s \<and> socketpair s' = socketpair s"
  using assms
proof (induction "kq_events s" arbitrary: s r)
  case Nil
  have "kq_step s (Process_read_pop sock r s)" by (rule kq_step.do [where a = "ActReader sock"]) (simp add: Nil.prems)
  from r_into_rtranclp [of kq_step, OF this] Nil.hyps show ?case
    by (intro exI [where x = "Process_read_pop sock r s"] conjI) (simp_all add: Process_read_pop_def read_answer_def)
next
  case (Cons ev evs)
  let ?s = "Process_read_pop sock r s"
  have step: "kq_step s ?s" by (rule kq_step.do [where a = "ActReader sock"]) (simp add: Cons.prems)
  have evs: "kq_events s = ev # evs" using Cons.hyps(2) by simp
  show ?case
  proof (cases "ev_events ev AND kq_flags s = 0")
    case False
    show ?thesis
      by (rule exI [where x = ?s], rule conjI [OF r_into_rtranclp [of kq_step, OF step]])
        (use False in \<open>simp add: evs Process_read_pop_def read_answer_def Let_def\<close>)
  next
    case True
    let ?r = "r\<lparr>re_data := ev_data ev, re_fflags := 0\<rparr>"
    have s': "reader ?s = RdPop ?r" "kq_events ?s = evs" "kq_flags ?s = kq_flags s" "kq_outbox ?s = kq_outbox s" "socketpair ?s = socketpair s"
      using True by (simp_all add: Process_read_pop_def evs Let_def)
    from Cons.hyps(1) [of ?s ?r] s' obtain s2 where
      s2: "kq_step\<^sup>*\<^sup>* ?s s2" "reader s2 = RdReply (read_answer (kq_flags s) sock evs ?r)"
        "kq_events s2 = tl (dropWhile (\<lambda>ev. ev_events ev AND kq_flags s = 0) evs)" "kq_outbox s2 = kq_outbox s" "socketpair s2 = socketpair s"
      by auto
    moreover have "read_answer (kq_flags s) sock evs ?r = read_answer (kq_flags s) sock (ev # evs) r"
      using True by (cases "dropWhile (\<lambda>ev. ev_events ev AND kq_flags s = 0) evs") (simp_all add: read_answer_def del: dropWhile_eq_Nil_conv)
    ultimately show ?thesis using step True evs by (auto intro: converse_rtranclp_into_rtranclp)
  qed
qed

text \<open>Nothing is on the way and no thread of the server is in the channel.\<close>

definition kq_quiet :: "kqchan \<Rightarrow> bool" where
  "kq_quiet s \<longleftrightarrow> at_send s = 0 \<and> at_push s = 0 \<and> at_check s = 0 \<and> reader s = RdIdle \<and> kq_inbox s = [] \<and>
     kq_outbox s = [] \<and> socketpair s = [] \<and> setup_at s = SetupDone"

lemma quiet_read:
  assumes quiet: "kq_quiet s" and peer: "peer_notes s = 1" "peer_wait s = NotWaiting" and alive: "kq_listener s"
  shows "\<exists>s' r. kq_step\<^sup>*\<^sup>* s s' \<and> socketpair s' = [ReadReply r] \<and>
    r = read_answer (kq_flags s) sock (kq_events s) \<lparr>re_code = 0, re_data = 0, re_fflags = 0, re_fd = None\<rparr> \<and>
    kq_events s' = tl (dropWhile (\<lambda>ev. ev_events ev AND kq_flags s = 0) (kq_events s))"
proof -
  let ?r = "\<lparr>re_code = 0, re_data = 0, re_fflags = 0, re_fd = None\<rparr>"
  have "\<exists>s1. kq_run [ActPeerRead, ActReader sock, ActReader sock] s = Some s1 \<and> reader s1 = RdPop ?r \<and> kq_flags s1 = kq_flags s \<and>
      kq_events s1 = kq_events s \<and> kq_outbox s1 = [] \<and> socketpair s1 = []"
    using quiet peer alive by (simp add: kq_quiet_def peer_read_def)
  then obtain s1 where s1: "kq_step\<^sup>*\<^sup>* s s1" "reader s1 = RdPop ?r" "kq_flags s1 = kq_flags s" "kq_events s1 = kq_events s"
      "kq_outbox s1 = []" "socketpair s1 = []"
    using kq_run_steps by blast
  from read_loop [OF s1(2), of sock] s1 obtain s2 where
    s2: "kq_step\<^sup>*\<^sup>* s1 s2" "reader s2 = RdReply (read_answer (kq_flags s) sock (kq_events s) ?r)"
      "kq_events s2 = tl (dropWhile (\<lambda>ev. ev_events ev AND kq_flags s = 0) (kq_events s))" "kq_outbox s2 = []" "socketpair s2 = []"
    by auto
  have "\<exists>s3. kq_run [ActReader sock, ActTransmit] s2 = Some s3 \<and> kq_events s3 = kq_events s2 \<and>
      socketpair s3 = [ReadReply (read_answer (kq_flags s) sock (kq_events s) ?r)]"
    using s2 by (simp add: outbox_push_def kq_transmit_def)
  then obtain s3 where "kq_step\<^sup>*\<^sup>* s2 s3" "kq_events s3 = kq_events s2"
      "socketpair s3 = [ReadReply (read_answer (kq_flags s) sock (kq_events s) ?r)]"
    using kq_run_steps by blast
  with s1(1) s2(1,3) show ?thesis by (metis rtranclp_trans)
qed

section \<open>Properties\<close>

text \<open>C7. Messages of a channel stay in order while any number of threads report events: a peer that waits
  for the reply to a read never gets a notification before it (it would abort). There is never more
  than one notification that the peer has not answered, anywhere. No event is lost, read twice or read
  out of order: those that happened are those taken from the list, in order, followed by those in it.\<close>
theorem kqchan_messages_in_order:
  assumes "kq_step\<^sup>*\<^sup>* (Kqchan_init flags) s" and "kq_listener s"
  shows "(peer_wait s = WaitRead \<longrightarrow> (\<forall>ms. socketpair s \<noteq> Notification # ms)) \<and>
    peer_notes s + note_count (socketpair s @ kq_outbox s) + at_push s \<le> 1 \<and> notified s = popped s @ kq_events s"
proof -
  have inv: "kq_inv s" using kq.reachable_inv assms(1) by blast
  then have parts: "kq_single s" "kq_deferral s" "kq_answers s" using assms(2) by (auto simp: kq_inv_def)
  have one: "peer_notes s + note_count (stream s) + at_push s + of_bool (reader s = RdAck) + read_calls (kq_inbox s) \<le> 1"
    using parts(1) by (cases "canSendNotification s") (simp_all add: kq_single_def)
  have "False" if wait: "peer_wait s = WaitRead" and head: "socketpair s = Notification # ms" for ms
  proof -
    have str: "stream s = Notification # (ms @ kq_outbox s)" by (simp add: stream_def head)
    have "reply_count (stream s) = 0" using parts(3) unfolding kq_answers_def str by simp
    then have "read_calls (kq_inbox s) > 0 \<or> rd_open (reader s)" using parts(3) wait by (auto simp: kq_answers_def)
    moreover have "\<not> rd_looks (reader s)" using parts(2) unfolding kq_deferral_def str by auto
    ultimately show False using one unfolding str by (cases "reader s") auto
  qed
  with inv one show ?thesis by (auto simp: kq_inv_def stream_def)
qed

definition kq_example :: "kq_act list" where
  "kq_example = [ActSetup, ActSetup, ActNotify 0x80000000 0 False, ActSend, ActPush, ActTransmit, ActPeerReceive]"

theorem kqchan_messages_in_order_witness:
  "\<exists>s. kq_run (kq_example @ [ActPeerRead, ActReader None, ActReader None, ActNotify 0x20000000 0 False, ActSend, ActReader None,
       ActReader None, ActReader None, ActReader None, ActTransmit]) (Kqchan_init 0xA0000000) = Some s \<and>
     peer_wait s = WaitRead \<and> kq_outbox s = [Notification] \<and> (\<forall>ms. socketpair s \<noteq> Notification # ms)"
proof -
  have "\<exists>s. kq_run (kq_example @ [ActPeerRead, ActReader None, ActReader None, ActNotify 0x20000000 0 False, ActSend, ActReader None,
       ActReader None, ActReader None, ActReader None, ActTransmit]) (Kqchan_init 0xA0000000) = Some s \<and>
     kq_listener s \<and> peer_wait s = WaitRead \<and> kq_outbox s = [Notification]"
    by (simp add: kq_example_def Kqchan_init_def kq_ops NOTE_FORK_def NOTE_TRACK_def)
  then obtain s where s: "kq_run (kq_example @ [ActPeerRead, ActReader None, ActReader None, ActNotify 0x20000000 0 False, ActSend,
       ActReader None, ActReader None, ActReader None, ActReader None, ActTransmit]) (Kqchan_init 0xA0000000) = Some s"
     "kq_listener s" "peer_wait s = WaitRead" "kq_outbox s = [Notification]" by blast
  with kqchan_messages_in_order [OF kq_run_steps [OF s(1)] s(2)] show ?thesis by blast
qed

text \<open>C16. No notification is missed: once the channel is set up and nothing is on the way, a list with events
  means that the peer has a notification to answer, and its read then gets the first event of
  interest (with the flags that are of interest, and with the socket for a new child or an error flag
  when children are tracked), while uninteresting events before it are dropped.\<close>
theorem kqchan_no_missed_notification:
  assumes "kq_step\<^sup>*\<^sup>* (Kqchan_init flags) s" and "kq_listener s" and "kq_quiet s" and "kq_events s \<noteq> []"
  shows "peer_notes s = 1 \<and> peer_wait s = NotWaiting \<and>
    (\<exists>s' r. kq_step\<^sup>*\<^sup>* s s' \<and> socketpair s' = [ReadReply r] \<and>
      r = read_answer (kq_flags s) sock (kq_events s) \<lparr>re_code = 0, re_data = 0, re_fflags = 0, re_fd = None\<rparr> \<and>
      kq_events s' = tl (dropWhile (\<lambda>ev. ev_events ev AND kq_flags s = 0) (kq_events s)))"
proof -
  have "kq_inv s" using kq.reachable_inv assms(1) by blast
  then have parts: "kq_single s" "kq_answers s" "kq_announced s" "kq_deferral s" using assms(2) by (auto simp: kq_inv_def)
  have "\<not> canSendNotification s" using parts(3) assms(3,4) by (simp add: kq_announced_def kq_quiet_def)
  then have peer: "peer_notes s = 1" using parts(1,4) assms(3)
    by (cases "deferredNotification s") (simp_all add: kq_single_def kq_quiet_def kq_deferral_def rd_defers_def stream_def)
  have "peer_wait s = NotWaiting" using parts(2) assms(3)
    by (cases "peer_wait s") (simp_all add: kq_answers_def kq_quiet_def stream_def)
  with peer quiet_read [OF assms(3) peer _ assms(2)] show ?thesis by blast
qed

theorem kqchan_no_missed_notification_witness:
  "\<exists>s s'. kq_run kq_example (Kqchan_init 0xA0000000) = Some s \<and> kq_step\<^sup>*\<^sup>* s s' \<and>
     socketpair s' = [ReadReply \<lparr>re_code = 0, re_data = 0, re_fflags = 0x80000000, re_fd = None\<rparr>] \<and> kq_events s' = []"
proof -
  let ?ev = "\<lparr>ev_events = 0x80000000, ev_data = 0, ev_newKqchan = False\<rparr>"
  have "\<exists>s. kq_run kq_example (Kqchan_init 0xA0000000) = Some s \<and> kq_listener s \<and> kq_quiet s \<and> kq_events s = [?ev] \<and> kq_flags s = 0xA0000000"
    by (simp add: kq_example_def Kqchan_init_def kq_ops kq_quiet_def NOTE_FORK_def)
  then obtain s where s: "kq_run kq_example (Kqchan_init 0xA0000000) = Some s" "kq_listener s" "kq_quiet s" "kq_events s = [?ev]"
      "kq_flags s = 0xA0000000" by blast
  have "read_answer 0xA0000000 None [?ev] r = \<lparr>re_code = 0, re_data = 0, re_fflags = 0x80000000, re_fd = None\<rparr>" for r
    by (simp add: read_answer_def proc_event_reply_def NOTE_TRACK_def)
  with kqchan_no_missed_notification [OF kq_run_steps [OF s(1)] s(2,3), of None] s(1,4,5) show ?thesis by auto
qed

end
