(* ===== verification/Server_Message.thy ===== *)
theory Server_Message
  imports Osxie_Prelude "HOL-Library.Multiset"
begin

text \<open>
  Messages of the server with descriptors and credentials (the class Message of
  src/external/osxieserver/src/message.cpp). The control data of a message is the list of its
  control headers. A message owns the descriptors in its slots, where -1 marks a free slot.
  Memory is taken to be available: where \<open>malloc\<close> fails an exception is thrown before
  anything is changed. Buffers are lists of bytes, and of the pointers into them only the
  lengths that go with them are kept.
\<close>

section \<open>State\<close>

record ucred =
  cr_pid :: int
  cr_uid :: int
  cr_gid :: int

text \<open>A control header: credentials, descriptors, or one that the code does not look for.\<close>

datatype cmsg = SCM_CREDENTIALS ucred | SCM_RIGHTS "int list" | SCM_OTHER

record message =
  msg_buffer :: "char list"
  msg_iov_len :: nat
  msg_address :: "char list \<times> nat"
  msg_namelen :: nat
  msg_control :: "cmsg list option"
  msg_callback :: bool

text \<open>The null pointer of a message that was moved from, or that has no control data at all, is None.\<close>

definition control_headers :: "message \<Rightarrow> cmsg list" where
  "control_headers m = (case msg_control m of None \<Rightarrow> [] | Some hs \<Rightarrow> hs)"

fun find_credentials :: "cmsg list \<Rightarrow> ucred option" where
  "find_credentials [] = None"
| "find_credentials (SCM_CREDENTIALS c # hs) = Some c"
| "find_credentials (_ # hs) = find_credentials hs"

fun find_rights :: "cmsg list \<Rightarrow> int list option" where
  "find_rights [] = None"
| "find_rights (SCM_RIGHTS fds # hs) = Some fds"
| "find_rights (_ # hs) = find_rights hs"

definition credentialsHeader :: "message \<Rightarrow> ucred option" where
  "credentialsHeader m = find_credentials (control_headers m)"

definition descriptorHeader :: "message \<Rightarrow> int list option" where
  "descriptorHeader m = find_rights (control_headers m)"

definition descriptorSpace :: "message \<Rightarrow> nat" where
  "descriptorSpace m = (case descriptorHeader m of None \<Rightarrow> 0 | Some fds \<Rightarrow> length fds)"

text \<open>Copying into the data of a header.\<close>

fun put_rights :: "int list \<Rightarrow> cmsg list \<Rightarrow> cmsg list" where
  "put_rights fds [] = []"
| "put_rights fds (SCM_RIGHTS _ # hs) = SCM_RIGHTS fds # hs"
| "put_rights fds (h # hs) = h # put_rights fds hs"

fun put_credentials :: "ucred \<Rightarrow> cmsg list \<Rightarrow> cmsg list" where
  "put_credentials c [] = []"
| "put_credentials c (SCM_CREDENTIALS _ # hs) = SCM_CREDENTIALS c # hs"
| "put_credentials c (h # hs) = h # put_credentials c hs"

definition write_rights :: "int list \<Rightarrow> message \<Rightarrow> message" where
  "write_rights fds m = m\<lparr>msg_control := map_option (put_rights fds) (msg_control m)\<rparr>"

section \<open>Life of a message\<close>

text \<open>The constructor; \<open>ours\<close> are the credentials of the server.\<close>

definition Message_new :: "ucred \<Rightarrow> nat \<Rightarrow> nat \<Rightarrow> bool \<Rightarrow> message" where
  "Message_new ours bufferSpace descSpace callback =
     \<lparr>msg_buffer = replicate bufferSpace (CHR 0x00), msg_iov_len = bufferSpace, msg_address = (replicate 108 (CHR 0x00), 110), msg_namelen = 110,
      msg_control = Some (SCM_CREDENTIALS ours # (if descSpace > 0 then [SCM_RIGHTS (replicate descSpace (-1))] else [])),
      msg_callback = callback\<rparr>"

definition descriptors :: "message \<Rightarrow> int list" where
  "descriptors m = (case descriptorHeader m of None \<Rightarrow> [] | Some fds \<Rightarrow> filter (\<lambda>fd. fd \<noteq> -1) fds)"

text \<open>\<open>_cleanupSelf\<close> answers the descriptors that it closes.\<close>

definition cleanupSelf :: "message \<Rightarrow> int list \<times> message" where
  "cleanupSelf m = (if msg_control m = None then [] else descriptors m, m\<lparr>msg_control := None\<rparr>)"

text \<open>\<open>_initWithOther\<close> answers the new message and what is left of the other one.\<close>

definition initWithOther :: "message \<Rightarrow> message \<times> message" where
  "initWithOther other =
     (other\<lparr>msg_iov_len := length (msg_buffer other)\<rparr>, other\<lparr>msg_buffer := [], msg_control := None, msg_callback := False\<rparr>)"

definition setAddress :: "char list \<times> nat \<Rightarrow> message \<Rightarrow> message" where
  "setAddress address m = m\<lparr>msg_address := address, msg_namelen := snd address\<rparr>"

section \<open>Descriptors\<close>

text \<open>
  A new block of control data with room for \<open>newSpace\<close> descriptors; \<open>junk\<close> is what the memory
  of the new block happens to hold.
\<close>

definition ensureDescriptorHeader :: "(nat \<Rightarrow> int) \<Rightarrow> nat \<Rightarrow> message \<Rightarrow> message" where
  "ensureDescriptorHeader junk newSpace m =
     (if descriptorSpace m = newSpace then m
      else
        let oldSpace = descriptorSpace m;
            creds = (case credentialsHeader m of None \<Rightarrow> [] | Some c \<Rightarrow> [SCM_CREDENTIALS c]);
            rights = (if newSpace > 0
                      then [SCM_RIGHTS (map (\<lambda>i. if oldSpace \<le> i then -1 else junk i) [0 ..< newSpace])] else [])
        in if creds = [] \<and> newSpace = 0 then m\<lparr>msg_control := None\<rparr> else m\<lparr>msg_control := Some (creds @ rights)\<rparr>)"

text \<open>The index of the first slot with a value.\<close>

fun slot_of :: "int \<Rightarrow> int list \<Rightarrow> nat option" where
  "slot_of fd [] = None"
| "slot_of fd (x # xs) = (if x = fd then Some 0 else map_option Suc (slot_of fd xs))"

definition pushDescriptor :: "(nat \<Rightarrow> int) \<Rightarrow> int \<Rightarrow> message \<Rightarrow> message" where
  "pushDescriptor junk fd m =
     (let grow = (let oldSpace = descriptorSpace m; m' = ensureDescriptorHeader junk (oldSpace + 1) m
                  in write_rights ((case descriptorHeader m' of None \<Rightarrow> [] | Some fds \<Rightarrow> fds)[oldSpace := fd]) m')
      in case descriptorHeader m of
           None \<Rightarrow> grow
         | Some fds \<Rightarrow> (case slot_of (-1) fds of None \<Rightarrow> grow | Some i \<Rightarrow> write_rights (fds[i := fd]) m))"

definition extractDescriptor :: "int \<Rightarrow> message \<Rightarrow> int \<times> message" where
  "extractDescriptor fd m =
     (case descriptorHeader m of
        None \<Rightarrow> (-1, m)
      | Some fds \<Rightarrow> (case slot_of fd fds of None \<Rightarrow> (-1, m) | Some i \<Rightarrow> (fd, write_rights (fds[i := -1]) m)))"

text \<open>The loop of \<open>extractDescriptorAtIndex\<close>: what it takes out and what is left in the slots.\<close>

fun extract_at :: "nat \<Rightarrow> int list \<Rightarrow> (int \<times> int list) option" where
  "extract_at index [] = None"
| "extract_at index (fd # fds) =
     (if fd = -1 then map_option (\<lambda>(x, r). (x, fd # r)) (extract_at index fds)
      else if index = 0 then Some (fd, -1 # fds)
      else map_option (\<lambda>(x, r). (x, fd # r)) (extract_at (index - 1) fds))"

definition extractDescriptorAtIndex :: "nat \<Rightarrow> message \<Rightarrow> int \<times> message" where
  "extractDescriptorAtIndex index m =
     (case descriptorHeader m of
        None \<Rightarrow> (-1, m)
      | Some fds \<Rightarrow> (case extract_at index fds of None \<Rightarrow> (-1, m) | Some (fd, fds') \<Rightarrow> (fd, write_rights fds' m)))"

definition replaceDescriptors :: "(nat \<Rightarrow> int) \<Rightarrow> int list \<Rightarrow> message \<Rightarrow> message" where
  "replaceDescriptors junk newDescriptors m =
     (let m = ensureDescriptorHeader junk (length newDescriptors) m
      in if newDescriptors = [] then m else write_rights newDescriptors m)"

section \<open>Credentials\<close>

definition copyCredentialsOut :: "message \<Rightarrow> ucred option" where
  "copyCredentialsOut m = credentialsHeader m"

definition ensureCredentialsHeader :: "ucred \<Rightarrow> message \<Rightarrow> message" where
  "ensureCredentialsHeader ours m =
     (if credentialsHeader m \<noteq> None then m
      else m\<lparr>msg_control := Some (SCM_CREDENTIALS ours #
               (case descriptorHeader m of None \<Rightarrow> [] | Some fds \<Rightarrow> if fds = [] then [] else [SCM_RIGHTS fds]))\<rparr>)"

definition copyCredentialsIn :: "ucred \<Rightarrow> ucred \<Rightarrow> message \<Rightarrow> message" where
  "copyCredentialsIn ours c m =
     (let m = ensureCredentialsHeader ours m in m\<lparr>msg_control := map_option (put_credentials c) (msg_control m)\<rparr>)"

definition message_pid :: "message \<Rightarrow> int" where
  "message_pid m = (case copyCredentialsOut m of Some c \<Rightarrow> cr_pid c | None \<Rightarrow> -1)"

definition message_uid :: "message \<Rightarrow> int" where
  "message_uid m = (case copyCredentialsOut m of Some c \<Rightarrow> cr_uid c | None \<Rightarrow> -1)"

definition message_gid :: "message \<Rightarrow> int" where
  "message_gid m = (case copyCredentialsOut m of Some c \<Rightarrow> cr_gid c | None \<Rightarrow> -1)"

definition with_credentials :: "(ucred \<Rightarrow> ucred) \<Rightarrow> ucred \<Rightarrow> message \<Rightarrow> message" where
  "with_credentials f ours m =
     (let m = ensureCredentialsHeader ours m
      in case copyCredentialsOut m of Some c \<Rightarrow> copyCredentialsIn ours (f c) m | None \<Rightarrow> m)"

definition setPID :: "ucred \<Rightarrow> int \<Rightarrow> message \<Rightarrow> message" where
  "setPID ours pid = with_credentials (\<lambda>c. c\<lparr>cr_pid := pid\<rparr>) ours"

definition setUID :: "ucred \<Rightarrow> int \<Rightarrow> message \<Rightarrow> message" where
  "setUID ours uid = with_credentials (\<lambda>c. c\<lparr>cr_uid := uid\<rparr>) ours"

definition setGID :: "ucred \<Rightarrow> int \<Rightarrow> message \<Rightarrow> message" where
  "setGID ours gid = with_credentials (\<lambda>c. c\<lparr>cr_gid := gid\<rparr>) ours"

section \<open>Headers\<close>

lemma find_put_rights [simp]:
  "find_rights (put_rights fds hs) = map_option (\<lambda>_. fds) (find_rights hs)"
  "find_credentials (put_rights fds hs) = find_credentials hs"
  by (induction hs rule: find_rights.induct) (auto split: cmsg.splits)

lemma find_put_credentials [simp]:
  "find_credentials (put_credentials c hs) = map_option (\<lambda>_. c) (find_credentials hs)"
  "find_rights (put_credentials c hs) = find_rights hs"
  by (induction hs rule: find_credentials.induct) auto

lemma write_rights_headers [simp]:
  "descriptorHeader (write_rights fds m) = map_option (\<lambda>_. fds) (descriptorHeader m)"
  "credentialsHeader (write_rights fds m) = credentialsHeader m"
  by (auto simp: descriptorHeader_def credentialsHeader_def control_headers_def write_rights_def split: option.splits)

lemma ensureDescriptorHeader_header:
  "0 < n \<Longrightarrow> descriptorHeader (ensureDescriptorHeader junk n m) =
     (if descriptorSpace m = n then descriptorHeader m
      else Some (map (\<lambda>i. if descriptorSpace m \<le> i then -1 else junk i) [0 ..< n]))"
  "descriptorHeader (ensureDescriptorHeader junk 0 m) = (if descriptorSpace m = 0 then descriptorHeader m else None)"
  "credentialsHeader (ensureDescriptorHeader junk n m) = credentialsHeader m"
  by (auto simp: ensureDescriptorHeader_def Let_def descriptorHeader_def credentialsHeader_def control_headers_def
      split: option.splits)

section \<open>What the operations do to the descriptors\<close>

lemma slot_of_None: "slot_of fd fds = None \<longleftrightarrow> fd \<notin> set fds"
  by (induction fds) auto

lemma slot_of_Some: "slot_of fd fds = Some i \<Longrightarrow> i < length fds \<and> fds ! i = fd"
  by (induction fds arbitrary: i) (auto split: if_splits)

lemma slot_of_mem: "slot_of fd fds = Some i \<Longrightarrow> fd \<in> set fds"
  using slot_of_Some nth_mem by metis

lemma slot_of_free: "slot_of fd fds = Some i \<Longrightarrow> fd \<noteq> -1 \<Longrightarrow> filter (\<lambda>x. x \<noteq> -1) (fds[i := -1]) = remove1 fd (filter (\<lambda>x. x \<noteq> -1) fds)"
  by (induction fds arbitrary: i) (auto split: if_splits)

lemma extract_at_None: "extract_at index fds = None \<longleftrightarrow> length (filter (\<lambda>x. x \<noteq> -1) fds) \<le> index"
  by (induction index fds rule: extract_at.induct) auto

lemma extract_at_Some:
  "extract_at index fds = Some (fd, fds') \<Longrightarrow>
     fd = filter (\<lambda>x. x \<noteq> -1) fds ! index \<and>
     filter (\<lambda>x. x \<noteq> -1) fds' = take index (filter (\<lambda>x. x \<noteq> -1) fds) @ drop (Suc index) (filter (\<lambda>x. x \<noteq> -1) fds)"
proof (induction index fds arbitrary: fd fds' rule: extract_at.induct)
  case (2 index x fds)
  then show ?case by (cases index) (auto split: if_splits)
qed simp

text \<open>There is a free slot, or no slot at all.\<close>

definition has_room :: "message \<Rightarrow> bool" where
  "has_room m \<longleftrightarrow> (case descriptorHeader m of None \<Rightarrow> True | Some fds \<Rightarrow> fds = [] \<or> -1 \<in> set fds)"

definition live_fds :: "int list \<Rightarrow> int multiset" where
  "live_fds fds = mset (filter (\<lambda>fd. fd \<noteq> -1) fds)"

lemma live_fds_simps [simp]:
  "live_fds [] = {#}" "live_fds (fd # fds) = (if fd = -1 then {#} else {#fd#}) + live_fds fds"
  "live_fds (fds @ fds') = live_fds fds + live_fds fds'" "live_fds (replicate n (-1)) = {#}"
  by (simp_all add: live_fds_def)

lemma live_fds_update:
  "i < length fds \<Longrightarrow> fds ! i = -1 \<Longrightarrow> live_fds (fds[i := fd]) = live_fds [fd] + live_fds fds"
  by (induction fds arbitrary: i) (auto simp: nth_Cons' split: nat.splits if_splits)

lemma pushDescriptor_header:
  assumes "descriptorHeader m = None \<or> descriptorHeader m = Some fds \<and> -1 \<notin> set fds"
  shows "descriptorHeader (pushDescriptor junk fd m) = Some (map junk [0 ..< descriptorSpace m] @ [fd])"
proof -
  let ?n = "descriptorSpace m"
  have "pushDescriptor junk fd m =
      write_rights ((case descriptorHeader (ensureDescriptorHeader junk (?n + 1) m) of None \<Rightarrow> [] | Some fds \<Rightarrow> fds)[?n := fd])
        (ensureDescriptorHeader junk (?n + 1) m)"
    using assms slot_of_None [of "-1" fds] by (auto simp: pushDescriptor_def Let_def)
  moreover have "map (\<lambda>i. if ?n \<le> i then -1 else junk i) [0 ..< ?n + 1] = map junk [0 ..< ?n] @ [-1]" by simp
  then have "(map (\<lambda>i. if ?n \<le> i then -1 else junk i) [0 ..< ?n + 1])[?n := fd] = map junk [0 ..< ?n] @ [fd]"
    by (simp only:) (simp add: list_update_append)
  ultimately show ?thesis by (simp add: ensureDescriptorHeader_header)
qed

lemma push_room:
  assumes "has_room m"
  shows "mset (descriptors (pushDescriptor junk fd m)) = mset (descriptors m) + live_fds [fd]"
proof (cases "descriptorHeader m")
  case None
  with pushDescriptor_header [of m "[]" junk fd] show ?thesis
    by (simp add: descriptors_def descriptorSpace_def)
next
  case (Some fds)
  show ?thesis
  proof (cases "slot_of (-1) fds")
    case None
    then have full: "-1 \<notin> set fds" by (simp add: slot_of_None)
    with assms Some have "fds = []" by (simp add: has_room_def)
    with pushDescriptor_header [of m fds junk fd] Some show ?thesis by (simp add: descriptors_def descriptorSpace_def)
  next
    case (Some i)
    then have "live_fds (fds[i := fd]) = live_fds [fd] + live_fds fds" using slot_of_Some live_fds_update by blast
    then show ?thesis using Some \<open>descriptorHeader m = Some fds\<close>
      by (simp add: pushDescriptor_def descriptors_def live_fds_def del: live_fds_simps)
  qed
qed

lemma extract_result:
  assumes "fd \<noteq> -1"
  shows "fst (extractDescriptor fd m) = (if fd \<in> set (descriptors m) then fd else -1)"
    and "descriptors (snd (extractDescriptor fd m)) = remove1 fd (descriptors m)"
  using assms slot_of_None [of fd] slot_of_free [of fd] slot_of_mem [of fd]
  by (auto simp: extractDescriptor_def descriptors_def remove1_idem split: option.splits)

lemma extract_at_result:
  "fst (extractDescriptorAtIndex index m) = (if index < length (descriptors m) then descriptors m ! index else -1)"
  "descriptors (snd (extractDescriptorAtIndex index m)) = take index (descriptors m) @ drop (Suc index) (descriptors m)"
proof (atomize (full), cases "descriptorHeader m")
  case (Some fds)
  let ?ds = "filter (\<lambda>x. x \<noteq> -1) fds"
  have ds: "descriptors m = ?ds" using Some by (simp add: descriptors_def)
  show "fst (extractDescriptorAtIndex index m) = (if index < length (descriptors m) then descriptors m ! index else -1) \<and>
    descriptors (snd (extractDescriptorAtIndex index m)) = take index (descriptors m) @ drop (Suc index) (descriptors m)"
  proof (cases "extract_at index fds")
    case None
    then have "length ?ds \<le> index" by (simp add: extract_at_None)
    then show ?thesis using None Some ds by (simp add: extractDescriptorAtIndex_def)
  next
    case (Some p)
    then obtain fd fds' where p: "extract_at index fds = Some (fd, fds')" by (cases p) auto
    then have "index < length ?ds" using extract_at_None [of index fds] by (metis leI option.distinct(1))
    then show ?thesis using p extract_at_Some [OF p] \<open>descriptorHeader m = Some fds\<close> ds
      by (simp add: extractDescriptorAtIndex_def descriptors_def)
  qed
qed (simp add: extractDescriptorAtIndex_def descriptors_def)

lemma replace_result: "descriptors (replaceDescriptors junk fds m) = filter (\<lambda>fd. fd \<noteq> -1) fds"
proof (cases "fds = []")
  case True
  then show ?thesis
    by (auto simp: replaceDescriptors_def descriptors_def ensureDescriptorHeader_header descriptorSpace_def split: option.splits)
next
  case False
  then have "descriptorHeader (ensureDescriptorHeader junk (length fds) m) \<noteq> None"
    by (auto simp: ensureDescriptorHeader_header descriptorSpace_def split: option.splits)
  then show ?thesis using False by (auto simp: replaceDescriptors_def descriptors_def Let_def)
qed

section \<open>What the operations do to the credentials\<close>

lemma ensureCredentialsHeader_result:
  "credentialsHeader (ensureCredentialsHeader ours m) = Some (case credentialsHeader m of Some c \<Rightarrow> c | None \<Rightarrow> ours)"
  "descriptors (ensureCredentialsHeader ours m) = descriptors m"
  by (auto simp: ensureCredentialsHeader_def credentialsHeader_def descriptors_def descriptorHeader_def control_headers_def
      split: option.splits)

lemma copyCredentialsIn_result:
  "copyCredentialsOut (copyCredentialsIn ours c m) = Some c"
  "descriptors (copyCredentialsIn ours c m) = descriptors m"
proof -
  let ?m = "ensureCredentialsHeader ours m"
  have "credentialsHeader ?m \<noteq> None" by (simp add: ensureCredentialsHeader_result)
  then obtain hs where hs: "msg_control ?m = Some hs" "find_credentials hs \<noteq> None"
    by (auto simp: credentialsHeader_def control_headers_def split: option.splits)
  then show "copyCredentialsOut (copyCredentialsIn ours c m) = Some c"
    by (auto simp: copyCredentialsOut_def copyCredentialsIn_def credentialsHeader_def control_headers_def Let_def)
  have "descriptors (copyCredentialsIn ours c m) = descriptors ?m"
    using hs by (simp add: copyCredentialsIn_def descriptors_def descriptorHeader_def control_headers_def Let_def)
  then show "descriptors (copyCredentialsIn ours c m) = descriptors m" by (simp add: ensureCredentialsHeader_result)
qed

text \<open>Setting one of the credentials keeps the others and the descriptors.\<close>

lemma with_credentials_result:
  "copyCredentialsOut (with_credentials f ours m) = Some (f (case credentialsHeader m of Some c \<Rightarrow> c | None \<Rightarrow> ours))"
  "descriptors (with_credentials f ours m) = descriptors m"
  using copyCredentialsIn_result [of ours _ "ensureCredentialsHeader ours m"]
  by (simp_all add: with_credentials_def Let_def ensureCredentialsHeader_result copyCredentialsOut_def)

lemma set_credentials_roundtrip:
  "message_pid (setPID ours pid m) = pid" "message_uid (setUID ours uid m) = uid" "message_gid (setGID ours gid m) = gid"
  "credentialsHeader m \<noteq> None \<Longrightarrow> message_uid (setPID ours pid m) = message_uid m"
  by (auto simp: message_pid_def message_uid_def message_gid_def setPID_def setUID_def setGID_def with_credentials_result
      copyCredentialsOut_def [of m])

section \<open>Messages and their owners\<close>

text \<open>
  The messages that exist, the descriptors handed to them, those that were closed, and
  those taken out or given up. Operations are used as the code uses them: on messages that
  exist, and one that was moved from is only assigned to or destroyed.
\<close>

record msg_store =
  st_msgs :: "(nat \<times> message) list"
  st_in :: "int list"
  st_closed :: "int list"
  st_out :: "int list"

datatype msg_op =
    OpNew nat nat nat bool | OpMove nat nat | OpAssign nat nat | OpDestroy nat
  | OpPush nat int | OpExtract nat int | OpExtractAt nat nat | OpReplace nat "int list"

definition drop_msg :: "nat \<Rightarrow> (nat \<times> message) list \<Rightarrow> (nat \<times> message) list" where
  "drop_msg i ms = filter (\<lambda>p. fst p \<noteq> i) ms"

definition set_msg :: "nat \<Rightarrow> message \<Rightarrow> (nat \<times> message) list \<Rightarrow> (nat \<times> message) list" where
  "set_msg i m ms = (i, m) # drop_msg i ms"

definition on_msg :: "nat \<Rightarrow> (message \<Rightarrow> msg_store option) \<Rightarrow> msg_store \<Rightarrow> msg_store option" where
  "on_msg i f st = (case map_of (st_msgs st) i of None \<Rightarrow> None | Some m \<Rightarrow> f m)"

fun msg_exec :: "ucred \<Rightarrow> (nat \<Rightarrow> int) \<Rightarrow> msg_op \<Rightarrow> msg_store \<Rightarrow> msg_store option" where
  "msg_exec ours junk (OpNew i len space cb) st =
     (if map_of (st_msgs st) i = None then Some (st\<lparr>st_msgs := set_msg i (Message_new ours len space cb) (st_msgs st)\<rparr>) else None)"
| "msg_exec ours junk (OpMove i j) st =
     on_msg j (\<lambda>other.
       if map_of (st_msgs st) i = None
       then (case initWithOther other of (m, rest) \<Rightarrow> Some (st\<lparr>st_msgs := set_msg i m (set_msg j rest (st_msgs st))\<rparr>))
       else None) st"
| "msg_exec ours junk (OpAssign i j) st =
     on_msg i (\<lambda>m. on_msg j (\<lambda>other.
       if i = j then None
       else
         (case initWithOther other of (m', rest) \<Rightarrow>
            Some (st\<lparr>st_msgs := set_msg i m' (set_msg j rest (st_msgs st)), st_closed := st_closed st @ fst (cleanupSelf m)\<rparr>))) st) st"
| "msg_exec ours junk (OpDestroy i) st =
     on_msg i (\<lambda>m. Some (st\<lparr>st_msgs := drop_msg i (st_msgs st), st_closed := st_closed st @ fst (cleanupSelf m)\<rparr>)) st"
| "msg_exec ours junk (OpPush i fd) st =
     on_msg i (\<lambda>m. if has_room m
       then Some (st\<lparr>st_msgs := set_msg i (pushDescriptor junk fd m) (st_msgs st), st_in := st_in st @ [fd]\<rparr>) else None) st"
| "msg_exec ours junk (OpExtract i fd) st =
     on_msg i (\<lambda>m. if fd = -1 then None
       else (case extractDescriptor fd m of (x, m') \<Rightarrow> Some (st\<lparr>st_msgs := set_msg i m' (st_msgs st), st_out := st_out st @ [x]\<rparr>))) st"
| "msg_exec ours junk (OpExtractAt i k) st =
     on_msg i (\<lambda>m. case extractDescriptorAtIndex k m of (x, m') \<Rightarrow>
       Some (st\<lparr>st_msgs := set_msg i m' (st_msgs st), st_out := st_out st @ [x]\<rparr>)) st"
| "msg_exec ours junk (OpReplace i fds) st =
     on_msg i (\<lambda>m. Some (st\<lparr>st_msgs := set_msg i (replaceDescriptors junk fds m) (st_msgs st), st_in := st_in st @ fds,
       st_out := st_out st @ descriptors m\<rparr>)) st"

fun msg_run :: "ucred \<Rightarrow> (nat \<Rightarrow> int) \<Rightarrow> msg_op list \<Rightarrow> msg_store \<Rightarrow> msg_store option" where
  "msg_run ours junk [] st = Some st"
| "msg_run ours junk (opn # ops) st = (case msg_exec ours junk opn st of None \<Rightarrow> None | Some st' \<Rightarrow> msg_run ours junk ops st')"

definition owned :: "(nat \<times> message) list \<Rightarrow> int multiset" where
  "owned ms = mset (concat (map (\<lambda>p. descriptors (snd p)) ms))"

definition st_inv :: "msg_store \<Rightarrow> bool" where
  "st_inv st \<longleftrightarrow> distinct (map fst (st_msgs st)) \<and>
     live_fds (st_in st) = owned (st_msgs st) + mset (st_closed st) + live_fds (st_out st)"

lemma owned_simps [simp]: "owned [] = {#}" "owned (p # ms) = mset (descriptors (snd p)) + owned ms"
  by (simp_all add: owned_def)

lemma drop_msg_keys:
  "i \<notin> fst ` set (drop_msg i ms)" "distinct (map fst ms) \<Longrightarrow> distinct (map fst (drop_msg i ms))"
  "map_of (drop_msg i ms) j = (if i = j then None else map_of ms j)"
  by (induction ms) (auto simp: drop_msg_def)

lemma set_msg_keys:
  "distinct (map fst ms) \<Longrightarrow> distinct (map fst (set_msg i m ms))"
  "map_of (set_msg i m ms) j = (if i = j then Some m else map_of ms j)"
  using drop_msg_keys(1) [of i ms] drop_msg_keys(2) [of ms i] drop_msg_keys(3) [of i ms] by (auto simp: set_msg_def)

lemma drop_msg_fresh: "map_of ms i = None \<Longrightarrow> drop_msg i ms = ms"
  by (induction ms) (auto simp: drop_msg_def split: if_splits)

lemma owned_drop:
  "distinct (map fst ms) \<Longrightarrow> map_of ms i = Some m \<Longrightarrow> mset (descriptors m) + owned (drop_msg i ms) = owned ms"
proof (induction ms)
  case (Cons p ms)
  show ?case
  proof (cases "fst p = i")
    case True
    then have "drop_msg i ms = ms" using Cons.prems(1) by (intro drop_msg_fresh) (auto simp: map_of_eq_None_iff)
    then have "drop_msg i (p # ms) = ms" using True by (simp add: drop_msg_def)
    with Cons.prems True show ?thesis by (cases p) auto
  next
    case False
    then have "drop_msg i (p # ms) = p # drop_msg i ms" by (simp add: drop_msg_def)
    with Cons False show ?thesis by (cases p) (auto simp: ac_simps)
  qed
qed simp

lemma owned_set:
  "distinct (map fst ms) \<Longrightarrow> map_of ms i = Some m \<Longrightarrow> mset (descriptors m) + owned (set_msg i m' ms) = mset (descriptors m') + owned ms"
  "map_of ms i = None \<Longrightarrow> owned (set_msg i m' ms) = mset (descriptors m') + owned ms"
  using owned_drop [of ms i m] by (simp_all add: set_msg_def drop_msg_fresh ac_simps)

lemma moved_descriptors [simp]:
  "descriptors (fst (initWithOther m)) = descriptors m" "descriptors (snd (initWithOther m)) = []"
  by (simp_all add: initWithOther_def descriptors_def descriptorHeader_def control_headers_def)

lemma cleanup_descriptors [simp]: "fst (cleanupSelf m) = descriptors m"
  by (simp add: cleanupSelf_def descriptors_def descriptorHeader_def control_headers_def)

lemma new_descriptors [simp]: "descriptors (Message_new ours len space cb) = []"
  by (simp add: Message_new_def descriptors_def descriptorHeader_def control_headers_def)

lemma descriptors_live: "live_fds (descriptors m) = mset (descriptors m)"
  by (cases "descriptorHeader m") (simp_all add: live_fds_def descriptors_def del: mset_filter)

lemma live_singleton: "fd \<noteq> -1 \<Longrightarrow> live_fds [fd] = {#fd#}" "live_fds [-1] = {#}"
  by simp_all

lemma extract_mset:
  "fd \<noteq> -1 \<Longrightarrow> mset (descriptors m) = mset (descriptors (snd (extractDescriptor fd m))) + live_fds [fst (extractDescriptor fd m)]"
  by (cases "fd \<in> set (descriptors m)") (auto simp: extract_result remove1_idem insert_DiffM2)

lemma descriptors_nth: "k < length (descriptors m) \<Longrightarrow> descriptors m ! k \<noteq> -1"
proof -
  assume "k < length (descriptors m)"
  then have "descriptors m ! k \<in> set (descriptors m)" by simp
  then show ?thesis by (auto simp: descriptors_def split: option.splits)
qed

lemma extract_at_mset:
  "mset (descriptors m) = mset (descriptors (snd (extractDescriptorAtIndex k m))) + live_fds [fst (extractDescriptorAtIndex k m)]"
proof (cases "k < length (descriptors m)")
  case True
  have "mset (descriptors m) = mset (take k (descriptors m) @ descriptors m ! k # drop (Suc k) (descriptors m))"
    using id_take_nth_drop [OF True] by simp
  with True descriptors_nth [OF True] show ?thesis by (simp add: extract_at_result)
qed (simp add: extract_at_result)

lemma on_msg_Some: "on_msg i f st = Some st' \<longleftrightarrow> (\<exists>m. map_of (st_msgs st) i = Some m \<and> f m = Some st')"
  by (auto simp: on_msg_def split: option.splits)

lemma mset_exchange:
  fixes D D' :: "'a multiset"
  assumes "D + N' = D' + N" and "X + D = D' + Y" and "I = N + C + U"
  shows "I + X = N' + C + (U + Y)"
proof (rule multiset_eqI)
  fix x
  have "count D x + count N' x = count D' x + count N x" "count X x + count D x = count D' x + count Y x"
    using assms(1,2) by (metis count_union)+
  then show "count (I + X) x = count (N' + C + (U + Y)) x" by (simp add: assms(3))
qed

lemma st_inv_set:
  assumes "st_inv st" and "map_of (st_msgs st) i = Some m"
    and "live_fds xs + mset (descriptors m) = mset (descriptors m') + live_fds ys"
  shows "st_inv (st\<lparr>st_msgs := set_msg i m' (st_msgs st), st_in := st_in st @ xs, st_out := st_out st @ ys\<rparr>)"
proof -
  have inv: "distinct (map fst (st_msgs st))" "live_fds (st_in st) = owned (st_msgs st) + mset (st_closed st) + live_fds (st_out st)"
    using assms(1) by (simp_all add: st_inv_def)
  from mset_exchange [OF owned_set(1) [OF inv(1) assms(2)] assms(3) inv(2)] set_msg_keys(1) [OF inv(1)] show ?thesis
    by (simp add: st_inv_def)
qed

lemma st_inv_init: "st_inv \<lparr>st_msgs = [], st_in = [], st_closed = [], st_out = []\<rparr>"
  by (simp add: st_inv_def)

lemma st_inv_move:
  assumes inv: "distinct (map fst ms)" and j: "map_of ms j = Some other" and "i \<noteq> j" and res: "initWithOther other = (m', rest)"
  shows "distinct (map fst (set_msg i m' (set_msg j rest ms)))"
    and "map_of ms i = None \<Longrightarrow> owned (set_msg i m' (set_msg j rest ms)) = owned ms"
    and "map_of ms i = Some m \<Longrightarrow> mset (descriptors m) + owned (set_msg i m' (set_msg j rest ms)) = owned ms"
proof -
  have d: "descriptors m' = descriptors other" "descriptors rest = []"
    using moved_descriptors [of other] res by simp_all
  have ds: "distinct (map fst (set_msg j rest ms))" using inv by (rule set_msg_keys)
  then show "distinct (map fst (set_msg i m' (set_msg j rest ms)))" by (rule set_msg_keys)
  have one: "mset (descriptors other) + owned (set_msg j rest ms) = owned ms" using owned_set(1) [OF inv j, of rest] d by simp
  show "owned (set_msg i m' (set_msg j rest ms)) = owned ms" if "map_of ms i = None"
    using owned_set(2) [of "set_msg j rest ms" i m'] that one d \<open>i \<noteq> j\<close> by (simp add: set_msg_keys)
  show "mset (descriptors m) + owned (set_msg i m' (set_msg j rest ms)) = owned ms" if "map_of ms i = Some m"
    using owned_set(1) [OF ds, of i m m'] that one d \<open>i \<noteq> j\<close> by (simp add: set_msg_keys)
qed

lemma msg_exec_inv:
  assumes inv: "st_inv st" and run: "msg_exec ours junk opn st = Some st'"
  shows "st_inv st'"
proof (cases opn)
  case (OpNew i len space cb)
  then show ?thesis using inv run
    by (auto simp: st_inv_def owned_set set_msg_keys split: if_splits)
next
  case (OpMove i j)
  then obtain other m' rest where o: "map_of (st_msgs st) j = Some other" "map_of (st_msgs st) i = None" "initWithOther other = (m', rest)"
      "st' = st\<lparr>st_msgs := set_msg i m' (set_msg j rest (st_msgs st))\<rparr>"
    using run by (auto simp: on_msg_Some split: if_splits prod.splits)
  then have "i \<noteq> j" by auto
  with st_inv_move [OF _ o(1) this o(3)] o inv show ?thesis by (simp add: st_inv_def)
next
  case (OpAssign i j)
  then obtain m other m' rest where o: "map_of (st_msgs st) i = Some m" "map_of (st_msgs st) j = Some other" "i \<noteq> j"
      "initWithOther other = (m', rest)"
      "st' = st\<lparr>st_msgs := set_msg i m' (set_msg j rest (st_msgs st)), st_closed := st_closed st @ descriptors m\<rparr>"
    using run by (auto simp: on_msg_Some split: if_splits prod.splits)
  have d: "distinct (map fst (st_msgs st))" using inv by (simp add: st_inv_def)
  from st_inv_move(1,3) [OF d o(2,3,4)] o(1) have "distinct (map fst (set_msg i m' (set_msg j rest (st_msgs st))))"
    "owned (st_msgs st) = mset (descriptors m) + owned (set_msg i m' (set_msg j rest (st_msgs st)))" by simp_all
  with inv show ?thesis unfolding o(5) by (simp add: st_inv_def ac_simps)
next
  case (OpDestroy i)
  then obtain m where o: "map_of (st_msgs st) i = Some m"
      "st' = st\<lparr>st_msgs := drop_msg i (st_msgs st), st_closed := st_closed st @ descriptors m\<rparr>"
    using run by (auto simp: on_msg_Some)
  have d: "distinct (map fst (st_msgs st))" using inv by (simp add: st_inv_def)
  from owned_drop [OF d o(1)] drop_msg_keys(2) [OF d, of i] have "distinct (map fst (drop_msg i (st_msgs st)))"
    "owned (st_msgs st) = mset (descriptors m) + owned (drop_msg i (st_msgs st))" by simp_all
  with inv show ?thesis unfolding o(2) by (simp add: st_inv_def ac_simps)
next
  case (OpPush i fd)
  then obtain m where m: "map_of (st_msgs st) i = Some m" "has_room m"
      "st' = st\<lparr>st_msgs := set_msg i (pushDescriptor junk fd m) (st_msgs st), st_in := st_in st @ [fd], st_out := st_out st @ []\<rparr>"
    using run by (auto simp: on_msg_Some split: if_splits)
  show ?thesis unfolding m(3) by (rule st_inv_set [OF inv m(1)]) (simp add: push_room [OF m(2)] ac_simps)
next
  case (OpExtract i fd)
  then obtain m where m: "map_of (st_msgs st) i = Some m" "fd \<noteq> -1"
      "st' = st\<lparr>st_msgs := set_msg i (snd (extractDescriptor fd m)) (st_msgs st), st_in := st_in st @ [],
        st_out := st_out st @ [fst (extractDescriptor fd m)]\<rparr>"
    using run by (auto simp: on_msg_Some split: if_splits prod.splits)
  show ?thesis unfolding m(3) by (rule st_inv_set [OF inv m(1)]) (simp only: live_fds_simps(1) add_0_left, rule extract_mset [OF m(2)])
next
  case (OpExtractAt i k)
  then obtain m where m: "map_of (st_msgs st) i = Some m"
      "st' = st\<lparr>st_msgs := set_msg i (snd (extractDescriptorAtIndex k m)) (st_msgs st), st_in := st_in st @ [],
        st_out := st_out st @ [fst (extractDescriptorAtIndex k m)]\<rparr>"
    using run by (auto simp: on_msg_Some split_beta)
  show ?thesis unfolding m(2) by (rule st_inv_set [OF inv m(1)]) (simp only: live_fds_simps(1) add_0_left, rule extract_at_mset)
next
  case (OpReplace i fds)
  then obtain m where m: "map_of (st_msgs st) i = Some m"
      "st' = st\<lparr>st_msgs := set_msg i (replaceDescriptors junk fds m) (st_msgs st), st_in := st_in st @ fds, st_out := st_out st @ descriptors m\<rparr>"
    using run by (auto simp: on_msg_Some)
  show ?thesis unfolding m(2) by (rule st_inv_set [OF inv m(1)]) (simp only: replace_result descriptors_live, simp add: live_fds_def)
qed

lemma msg_run_inv: "st_inv st \<Longrightarrow> msg_run ours junk ops st = Some st' \<Longrightarrow> st_inv st'"
  by (induction ops arbitrary: st) (auto split: option.splits dest: msg_exec_inv)

section \<open>Properties\<close>



text \<open>C37. Adding a descriptor to a message whose slots are all taken makes a new block of control data without
  copying the old descriptors into it: what the memory of the block happened to hold takes their place,
  and the descriptors that the message owned are lost, whatever they were.\<close>
theorem pushDescriptor_loses_descriptors:
  assumes "descriptorHeader m = Some fds" and "-1 \<notin> set fds" and "fds \<noteq> []"
  shows "descriptorHeader (pushDescriptor junk fd m) = Some (map junk [0 ..< length fds] @ [fd])"
  using pushDescriptor_header [of m fds junk fd] assms by (simp add: descriptorSpace_def)

theorem pushDescriptor_loses_descriptors_witness:
  "descriptors (pushDescriptor (\<lambda>_. 77) 6 (pushDescriptor (\<lambda>_. 77) 5 (Message_new \<lparr>cr_pid = 1, cr_uid = 0, cr_gid = 0\<rparr> 16 0 False))) = [77, 6]"
proof -
  let ?m = "pushDescriptor (\<lambda>_. 77) 5 (Message_new \<lparr>cr_pid = 1, cr_uid = 0, cr_gid = 0\<rparr> 16 0 False)"
  have "descriptorHeader ?m = Some [5]" by code_simp
  from pushDescriptor_loses_descriptors [OF this, of "\<lambda>_. 77" 6] show ?thesis by (simp add: descriptors_def)
qed

end
