(* ===== verification/Server_Queue.thy ===== *)
theory Server_Queue
  imports Server_Message
begin

text \<open>
  Queues of messages (the class MessageQueue of src/external/osxieserver/src/message.cpp). Each
  operation holds the mutex of the queue from start to end and is one step. The answers of
  the system to \<open>sendmmsg\<close> and \<open>recvmmsg\<close> are arguments, used up one per call; the loops end
  when the system says so, so that running out of answers is not returning.
\<close>

section \<open>Queues\<close>

record message_queue =
  mq_messages :: "message list"
  mq_notify :: bool

text \<open>The second component says whether the callback for arrivals is called at the end.\<close>

definition MessageQueue_push :: "message \<Rightarrow> message_queue \<Rightarrow> message_queue \<times> bool" where
  "MessageQueue_push m q = (q\<lparr>mq_messages := mq_messages q @ [fst (initWithOther m)]\<rparr>, mq_notify q)"

definition MessageQueue_pop :: "message_queue \<Rightarrow> message option \<times> message_queue" where
  "MessageQueue_pop q =
     (case mq_messages q of [] \<Rightarrow> (None, q) | m # ms \<Rightarrow> (Some (fst (initWithOther m)), q\<lparr>mq_messages := ms\<rparr>))"

definition MessageQueue_empty :: "message_queue \<Rightarrow> bool" where
  "MessageQueue_empty q = (mq_messages q = [])"

definition setMessageArrivalNotificationCallback :: "bool \<Rightarrow> message_queue \<Rightarrow> message_queue" where
  "setMessageArrivalNotificationCallback cb q = q\<lparr>mq_notify := cb\<rparr>"

section \<open>Sending\<close>

text \<open>
  What \<open>sendmmsg\<close> does with the messages it is given: it sends some of the first ones (at least
  one, and not more than there are), or fails.
\<close>

datatype send_answer = Sent nat | SendAgain | SendInterrupted | PeerGone | SendError

text \<open>What happened to a message: it was sent to an address or without one, or dropped.\<close>

datatype sent = SentTo "char list option" message | Dropped message

datatype send_result = SendDone bool | SendThrows

definition sent_name :: "message \<Rightarrow> char list option" where
  "sent_name m = (let path = fst (msg_address m) in if list_all (\<lambda>c. c = CHR 0x00) path then None else Some path)"

text \<open>
  \<open>sendMany\<close>: the result, the messages left, what happened to the others, and how many of the
  callbacks of messages were called.
\<close>

fun sendMany :: "send_answer list \<Rightarrow> message list \<Rightarrow> (send_result \<times> message list \<times> sent list \<times> nat) option" where
  "sendMany as [] = Some (SendDone True, [], [], 0)"
| "sendMany [] (m # ms) = None"
| "sendMany (Sent n # as) (m # ms) =
     map_option (\<lambda>(r, rest, log, cbs).
         (r, rest, map (\<lambda>m. SentTo (sent_name m) m) (take n (m # ms)) @ log,
          length (filter msg_callback (take n (m # ms))) + cbs))
       (sendMany as (drop n (m # ms)))"
| "sendMany (SendAgain # as) (m # ms) = Some (SendDone False, m # ms, [], 0)"
| "sendMany (SendInterrupted # as) (m # ms) = sendMany as (m # ms)"
| "sendMany (PeerGone # as) (m # ms) =
     map_option (\<lambda>(r, rest, log, cbs). (r, rest, Dropped m # log, cbs)) (sendMany as ms)"
| "sendMany (SendError # as) (m # ms) = Some (SendThrows, m # ms, [], 0)"

section \<open>Receiving\<close>

text \<open>
  What \<open>recvmmsg\<close> fills the messages with: the bytes (at most the 256 of the buffer), the
  address and the control headers; at most 16 messages at a time.
\<close>

record received =
  rv_data :: "char list"
  rv_address :: "char list \<times> nat"
  rv_control :: "cmsg list"

datatype recv_answer = Received "received list" | RecvAgain | RecvInterrupted | RecvError

definition fill_message :: "ucred \<Rightarrow> received \<Rightarrow> message" where
  "fill_message ours r =
     fst (initWithOther (setAddress (rv_address r)
       ((Message_new ours 256 4 False)\<lparr>msg_buffer := rv_data r, msg_control := Some (rv_control r)\<rparr>)))"

text \<open>The result: False, or an exception; the queue; and whether the callback is called.\<close>

fun receiveMany :: "ucred \<Rightarrow> recv_answer list \<Rightarrow> message_queue \<Rightarrow> (bool option \<times> message_queue \<times> bool) option" where
  "receiveMany ours [] q = None"
| "receiveMany ours (Received rs # as) q = receiveMany ours as (q\<lparr>mq_messages := mq_messages q @ map (fill_message ours) rs\<rparr>)"
| "receiveMany ours (RecvAgain # as) q = Some (Some False, q, mq_messages q \<noteq> [] \<and> mq_notify q)"
| "receiveMany ours (RecvInterrupted # as) q = receiveMany ours as q"
| "receiveMany ours (RecvError # as) q = Some (None, q, False)"

section \<open>Properties\<close>

fun sent_message :: "sent \<Rightarrow> message" where
  "sent_message (SentTo name m) = m" | "sent_message (Dropped m) = m"

text \<open>An answer that the system can give for a batch of the messages: no more than 16 are passed at once.\<close>

fun answers_ok :: "send_answer list \<Rightarrow> message list \<Rightarrow> bool" where
  "answers_ok [] ms \<longleftrightarrow> True"
| "answers_ok (a # as) [] \<longleftrightarrow> True"
| "answers_ok (Sent n # as) (m # ms) \<longleftrightarrow> 0 < n \<and> n \<le> 16 \<and> n \<le> length (m # ms) \<and> answers_ok as (drop n (m # ms))"
| "answers_ok (PeerGone # as) (m # ms) \<longleftrightarrow> answers_ok as ms"
| "answers_ok (a # as) (m # ms) \<longleftrightarrow> answers_ok as (m # ms)"

definition is_dropped :: "sent \<Rightarrow> bool" where
  "is_dropped x \<longleftrightarrow> (\<exists>m. x = Dropped m)"

definition log_ok :: "send_answer list \<Rightarrow> message list \<Rightarrow> send_result \<Rightarrow> message list \<Rightarrow> sent list \<Rightarrow> nat \<Rightarrow> bool" where
  "log_ok as ms r rest log cbs \<longleftrightarrow>
     map sent_message log @ rest = ms \<and> (r = SendDone True \<longleftrightarrow> rest = []) \<and>
     (\<forall>name m. SentTo name m \<in> set log \<longrightarrow> name = sent_name m) \<and>
     length (filter is_dropped log) \<le> length (filter (\<lambda>a. a = PeerGone) as) \<and>
     cbs = length (filter (\<lambda>x. \<not> is_dropped x \<and> msg_callback (sent_message x)) log)"

lemma log_ok_batch:
  assumes "log_ok as ms r rest log cbs"
  shows "log_ok (Sent n # as) (b @ ms) r rest (map (\<lambda>m. SentTo (sent_name m) m) b @ log) (length (filter msg_callback b) + cbs)"
  using assms by (auto simp: log_ok_def filter_map comp_def is_dropped_def)

lemma sendMany_log:
  "sendMany as ms = Some (r, rest, log, cbs) \<Longrightarrow> log_ok as ms r rest log cbs"
proof (induction as ms arbitrary: r rest log cbs rule: sendMany.induct)
  case (3 n as m ms)
  from "3.prems" obtain log' cbs' where s: "sendMany as (drop n (m # ms)) = Some (r, rest, log', cbs')"
    "log = map (\<lambda>m. SentTo (sent_name m) m) (take n (m # ms)) @ log'" "cbs = length (filter msg_callback (take n (m # ms))) + cbs'"
    by auto
  from log_ok_batch [OF "3.IH" [OF s(1)], of n "take n (m # ms)"] show ?case
    unfolding s(2,3) append_take_drop_id .
next
  case (6 as m ms)
  then show ?case by (fastforce simp: log_ok_def is_dropped_def)
qed (auto simp: log_ok_def)

text \<open>Every answer but an interruption gets on, so that there cannot be more of them than messages.\<close>

lemma sendMany_returns:
  "answers_ok as ms \<Longrightarrow> length (filter (\<lambda>a. a \<noteq> SendInterrupted) as) \<ge> length ms \<Longrightarrow> sendMany as ms \<noteq> None"
proof (induction as ms rule: sendMany.induct)
  case (3 n as m ms)
  have "sendMany as (drop n (m # ms)) \<noteq> None"
  proof (rule "3.IH")
    show "answers_ok as (drop n (m # ms))" using "3.prems"(1) by simp
    have "0 < n" using "3.prems"(1) by simp
    with "3.prems"(2) show "length (drop n (m # ms)) \<le> length (filter (\<lambda>a. a \<noteq> SendInterrupted) as)"
      unfolding length_drop by simp
  qed
  then show ?case by auto
qed simp_all

text \<open>Sending a queue. The messages are dealt with in their order, each once, and what is left is the rest
  of the queue in its order: a message is sent to its address (or without one if the address
  is empty), or dropped, and no more are dropped than the system reported a dead peer. Everything was
  dealt with exactly when the answer is that more can be sent; callbacks are called for the messages
  that were sent. And the loop ends: every answer but an interruption removes a message or ends it.\<close>
theorem sendMany_in_order:
  assumes "answers_ok as ms"
  shows "(length ms \<le> length (filter (\<lambda>a. a \<noteq> SendInterrupted) as) \<longrightarrow> sendMany as ms \<noteq> None) \<and>
    (\<forall>r rest log cbs. sendMany as ms = Some (r, rest, log, cbs) \<longrightarrow>
      map sent_message log @ rest = ms \<and> (r = SendDone True \<longleftrightarrow> rest = []) \<and>
      (\<forall>name m. SentTo name m \<in> set log \<longrightarrow> name = sent_name m) \<and>
      length (filter is_dropped log) \<le> length (filter (\<lambda>a. a = PeerGone) as) \<and>
      cbs = length (filter (\<lambda>x. \<not> is_dropped x \<and> msg_callback (sent_message x)) log))"
  using sendMany_returns [OF assms] sendMany_log [of as ms] unfolding log_ok_def by blast

theorem sendMany_in_order_witness:
  "\<exists>log cbs. sendMany [SendInterrupted, PeerGone, Sent 1, SendAgain]
      [Message_new \<lparr>cr_pid = 1, cr_uid = 0, cr_gid = 0\<rparr> 1 0 True, Message_new \<lparr>cr_pid = 1, cr_uid = 0, cr_gid = 0\<rparr> 2 0 True,
       Message_new \<lparr>cr_pid = 1, cr_uid = 0, cr_gid = 0\<rparr> 3 0 True] =
      Some (SendDone False, [Message_new \<lparr>cr_pid = 1, cr_uid = 0, cr_gid = 0\<rparr> 3 0 True], log, cbs) \<and>
    map (msg_iov_len \<circ> sent_message) log = [1, 2] \<and> cbs = 1"
proof -
  let ?m = "\<lambda>n. Message_new \<lparr>cr_pid = 1, cr_uid = 0, cr_gid = 0\<rparr> n 0 True"
  let ?as = "[SendInterrupted, PeerGone, Sent 1, SendAgain]"
  have ok: "answers_ok ?as [?m 1, ?m 2, ?m 3]" by simp
  have run: "sendMany ?as [?m 1, ?m 2, ?m 3] = Some (SendDone False, [?m 3], [Dropped (?m 1), SentTo (sent_name (?m 2)) (?m 2)], 1)"
    by (simp add: Message_new_def)
  from sendMany_in_order [OF ok] run have "map sent_message [Dropped (?m 1), SentTo (sent_name (?m 2)) (?m 2)] @ [?m 3] = [?m 1, ?m 2, ?m 3]"
    by blast
  with run show ?thesis by (simp add: Message_new_def)
qed

text \<open>Receiving appends exactly the messages that arrived to the queue, in their order, each with its bytes,
  address and descriptors. The loop only ends when nothing more is there to be read or with an
  error, so that it never answers that more can be read; and the callback for arrivals is not called
  when an error ends it, although the messages before the error stay in the queue.\<close>
theorem receiveMany_appends:
  "receiveMany ours (map Received rss @ a # as) q =
     (let q' = q\<lparr>mq_messages := mq_messages q @ map (fill_message ours) (concat rss)\<rparr>
      in case a of
           RecvAgain \<Rightarrow> Some (Some False, q', mq_messages q' \<noteq> [] \<and> mq_notify q)
         | RecvError \<Rightarrow> Some (None, q', False)
         | RecvInterrupted \<Rightarrow> receiveMany ours as q'
         | Received rs \<Rightarrow> receiveMany ours (a # as) q') \<and>
   msg_buffer (fill_message ours r) = rv_data r \<and> msg_iov_len (fill_message ours r) = length (rv_data r) \<and>
   msg_address (fill_message ours r) = rv_address r \<and>
   descriptors (fill_message ours r) = (case find_rights (rv_control r) of None \<Rightarrow> [] | Some fds \<Rightarrow> filter (\<lambda>fd. fd \<noteq> -1) fds)"
proof -
  have "receiveMany ours (map Received rss @ a # as) q =
      receiveMany ours (a # as) (q\<lparr>mq_messages := mq_messages q @ map (fill_message ours) (concat rss)\<rparr>)"
    by (induction rss arbitrary: q) simp_all
  then show ?thesis
    by (simp add: fill_message_def initWithOther_def setAddress_def Message_new_def descriptors_def descriptorHeader_def
        control_headers_def Let_def split: recv_answer.split)
qed

end
