(* ===== verification/Server_Loop.thy ===== *)
theory Server_Loop
  imports Server_Queue
begin

text \<open>
  The event loop of the server (Server::start, Server::sendMessage and the callback of the outbox,
  src/external/osxieserver/src/server.cpp) as far as it moves messages: it receives what the socket
  has, resets the event descriptor, sends the outbox, chooses whether the event descriptor may
  wake it, and waits. Any thread may put a message in the outbox at any point of the loop. The
  socket is registered edge-triggered, so an event for it comes only when it changes. The
  timer is in a theory of its own, and monitors are not modelled.
\<close>

section \<open>State\<close>

datatype loop_pc = LRead | LReset | LSend | LArm | LWait | LDead

text \<open>
  \<open>lp_pushing\<close> counts the threads in MessageQueue::push that have appended their message and have
  not called the callback yet. Of the system: \<open>sk_in\<close> are the datagrams to be received, \<open>sk_in_edge\<close>
  and \<open>sk_out_edge\<close> the events of the socket that epoll has not reported yet, \<open>sk_full\<close> that sending
  would block. \<open>lp_calls\<close> are the messages handed to Call::callFromMessage, \<open>lp_sent\<close> and \<open>lp_pushed\<close> histories.
\<close>

record loop =
  lp_pc :: loop_pc
  lp_inbox :: message_queue
  lp_outbox :: message_queue
  lp_canRead :: bool
  lp_canWrite :: bool
  lp_wakeup :: nat
  lp_wake_armed :: bool
  lp_pushing :: nat
  lp_calls :: "message list"
  lp_sent :: "sent list"
  lp_pushed :: "message list"
  sk_in :: "received list"
  sk_in_edge :: bool
  sk_full :: bool
  sk_out_edge :: bool
  sk_arrived :: "received list"

definition Server_init :: loop where
  "Server_init =
     \<lparr>lp_pc = LRead, lp_inbox = \<lparr>mq_messages = [], mq_notify = False\<rparr>,
      lp_outbox = setMessageArrivalNotificationCallback True \<lparr>mq_messages = [], mq_notify = False\<rparr>,
      lp_canRead = False, lp_canWrite = True, lp_wakeup = 0, lp_wake_armed = True, lp_pushing = 0, lp_calls = [], lp_sent = [],
      lp_pushed = [], sk_in = [], sk_in_edge = False, sk_full = False, sk_out_edge = True, sk_arrived = []\<rparr>"

section \<open>The threads that send\<close>

definition sendMessage :: "message \<Rightarrow> loop \<Rightarrow> loop" where
  "sendMessage m s =
     (case MessageQueue_push m (lp_outbox s) of (q, notify) \<Rightarrow>
        s\<lparr>lp_outbox := q, lp_pushing := lp_pushing s + of_bool notify, lp_pushed := lp_pushed s @ [fst (initWithOther m)]\<rparr>)"

text \<open>The callback of the outbox, which writes to the event descriptor.\<close>

definition outbox_callback :: "loop \<Rightarrow> loop option" where
  "outbox_callback s =
     (if lp_pushing s = 0 then None else Some (s\<lparr>lp_pushing := lp_pushing s - 1, lp_wakeup := lp_wakeup s + 1\<rparr>))"

section \<open>The loop\<close>

text \<open>\<open>while (auto msg = _inbox.pop())\<close>: every message is taken out and handed to Call::callFromMessage.\<close>

function drain_inbox :: "message_queue \<Rightarrow> message list \<times> message_queue" where
  "drain_inbox q =
     (case MessageQueue_pop q of
        (None, q') \<Rightarrow> ([], q')
      | (Some m, q') \<Rightarrow> (case drain_inbox q' of (ms, q'') \<Rightarrow> (m # ms, q'')))"
  by pat_completeness auto
termination
  by (relation "measure (\<lambda>q. length (mq_messages q))") (auto simp: MessageQueue_pop_def split: list.splits)

declare drain_inbox.simps [simp del]

text \<open>
  The answers of \<open>recvmmsg\<close> are those of a socket: it gives the datagrams that are there, and
  that there are none only when there are none.
\<close>

fun recv_all :: "recv_answer list \<Rightarrow> received list option" where
  "recv_all [RecvAgain] = Some []"
| "recv_all (Received rs # as) = map_option ((@) rs) (recv_all as)"
| "recv_all (RecvInterrupted # as) = recv_all as"
| "recv_all _ = None"

definition loop_read :: "ucred \<Rightarrow> recv_answer list \<Rightarrow> loop \<Rightarrow> loop option" where
  "loop_read ours as s =
     (if lp_pc s \<noteq> LRead then None
      else if \<not> lp_canRead s then Some (s\<lparr>lp_pc := LReset\<rparr>)
      else case receiveMany ours as (lp_inbox s) of
             None \<Rightarrow> None
           | Some (None, q, _) \<Rightarrow> Some (s\<lparr>lp_pc := LDead, lp_inbox := q\<rparr>)
           | Some (Some again, q, _) \<Rightarrow>
               if recv_all as \<noteq> Some (sk_in s) then None
               else case drain_inbox q of (ms, q') \<Rightarrow>
                 Some (s\<lparr>lp_pc := LReset, lp_canRead := again, lp_inbox := q', lp_calls := lp_calls s @ ms, sk_in := []\<rparr>))"

definition loop_reset :: "loop \<Rightarrow> loop option" where
  "loop_reset s = (if lp_pc s \<noteq> LReset then None else Some (s\<lparr>lp_pc := LSend, lp_wakeup := 0\<rparr>))"

definition loop_send :: "send_answer list \<Rightarrow> loop \<Rightarrow> loop option" where
  "loop_send as s =
     (if lp_pc s \<noteq> LSend then None
      else if \<not> lp_canWrite s then Some (s\<lparr>lp_pc := LArm\<rparr>)
      else case sendMany as (mq_messages (lp_outbox s)) of
             None \<Rightarrow> None
           | Some (r, rest, log, _) \<Rightarrow>
               let s = s\<lparr>lp_outbox := (lp_outbox s)\<lparr>mq_messages := rest\<rparr>, lp_sent := lp_sent s @ log\<rparr>
               in case r of
                    SendThrows \<Rightarrow> Some (s\<lparr>lp_pc := LDead\<rparr>)
                  | SendDone again \<Rightarrow> Some (s\<lparr>lp_pc := LArm, lp_canWrite := again, sk_full := (if again then sk_full s else True)\<rparr>))"

definition loop_arm :: "loop \<Rightarrow> loop option" where
  "loop_arm s = (if lp_pc s \<noteq> LArm then None else Some (s\<lparr>lp_pc := LWait, lp_wake_armed := lp_canWrite s\<rparr>))"

text \<open>
  epoll_wait returns: with the events of the socket (\<open>rd\<close>, \<open>wr\<close>), which it may report when they are
  pending or hold, and with or without other events, or after its timeout.
\<close>

definition loop_wait :: "bool \<Rightarrow> bool \<Rightarrow> loop \<Rightarrow> loop option" where
  "loop_wait rd wr s =
     (if lp_pc s \<noteq> LWait \<or> rd \<and> \<not> sk_in_edge s \<and> sk_in s = [] \<or> wr \<and> \<not> sk_out_edge s \<and> sk_full s then None
      else Some (s\<lparr>lp_pc := LRead, lp_canRead := (if rd then True else lp_canRead s), lp_canWrite := (if wr then True else lp_canWrite s),
                   sk_in_edge := sk_in_edge s \<and> \<not> rd, sk_out_edge := sk_out_edge s \<and> \<not> wr\<rparr>))"

section \<open>The system\<close>

definition datagram_arrives :: "received \<Rightarrow> loop \<Rightarrow> loop" where
  "datagram_arrives d s = s\<lparr>sk_in := sk_in s @ [d], sk_in_edge := True, sk_arrived := sk_arrived s @ [d]\<rparr>"

definition socket_drains :: "loop \<Rightarrow> loop" where
  "socket_drains s = (if sk_full s then s\<lparr>sk_full := False, sk_out_edge := True\<rparr> else s)"

datatype loop_act =
    Push message | Callback | Read "recv_answer list" | Reset | SendAll "send_answer list" | Arm | Wait bool bool
  | Arrive received | Drain

fun loop_do :: "ucred \<Rightarrow> loop_act \<Rightarrow> loop \<Rightarrow> loop option" where
  "loop_do ours (Push m) s = Some (sendMessage m s)"
| "loop_do ours Callback s = outbox_callback s"
| "loop_do ours (Read as) s = loop_read ours as s"
| "loop_do ours Reset s = loop_reset s"
| "loop_do ours (SendAll as) s = loop_send as s"
| "loop_do ours Arm s = loop_arm s"
| "loop_do ours (Wait rd wr) s = loop_wait rd wr s"
| "loop_do ours (Arrive d) s = Some (datagram_arrives d s)"
| "loop_do ours Drain s = Some (socket_drains s)"

inductive loop_step :: "ucred \<Rightarrow> loop \<Rightarrow> loop \<Rightarrow> bool" for ours where
  do: "loop_do ours a s = Some s' \<Longrightarrow> loop_step ours s s'"

inductive_cases loop_stepE: "loop_step ours s s'"

fun loop_run :: "ucred \<Rightarrow> loop_act list \<Rightarrow> loop \<Rightarrow> loop option" where
  "loop_run ours [] s = Some s"
| "loop_run ours (a # as) s = (case loop_do ours a s of None \<Rightarrow> None | Some s' \<Rightarrow> loop_run ours as s')"

lemma loop_run_steps: "loop_run ours as s = Some s' \<Longrightarrow> (loop_step ours)\<^sup>*\<^sup>* s s'"
  by (induction as arbitrary: s)
    (auto split: option.splits intro: converse_rtranclp_into_rtranclp loop_step.do)

section \<open>Receiving and the inbox\<close>

lemma initWithOther_fill: "fst (initWithOther (fill_message ours r)) = fill_message ours r"
  by (simp add: fill_message_def initWithOther_def)

lemma drain_inbox_all:
  "drain_inbox q = (map (\<lambda>m. fst (initWithOther m)) (mq_messages q), q\<lparr>mq_messages := []\<rparr>)"
proof (induction q rule: drain_inbox.induct)
  case (1 q)
  show ?case
  proof (cases "mq_messages q")
    case Nil
    then show ?thesis by (subst drain_inbox.simps) (simp add: MessageQueue_pop_def)
  next
    case (Cons m ms)
    then have "MessageQueue_pop q = (Some (fst (initWithOther m)), q\<lparr>mq_messages := ms\<rparr>)" by (simp add: MessageQueue_pop_def)
    with 1 [of "Some (fst (initWithOther m))" "q\<lparr>mq_messages := ms\<rparr>"] Cons show ?thesis
      by (subst drain_inbox.simps) (simp add: MessageQueue_pop_def)
  qed
qed

lemma receiveMany_all:
  "recv_all as = Some rs \<Longrightarrow>
     \<exists>cb. receiveMany ours as q = Some (Some False, q\<lparr>mq_messages := mq_messages q @ map (fill_message ours) rs\<rparr>, cb)"
proof (induction as arbitrary: q rs rule: recv_all.induct)
  case (2 bs as)
  from "2.prems" obtain cs where cs: "recv_all as = Some cs" "rs = bs @ cs" by auto
  show ?case using "2.IH" [OF cs(1), of "q\<lparr>mq_messages := mq_messages q @ map (fill_message ours) bs\<rparr>"] cs(2) by simp
qed auto

section \<open>Invariant\<close>

text \<open>
  If the loop is about to wait or waits, and could send, then every message in the outbox has a
  wake-up behind it: in the event descriptor, or in a thread that is about to write it. What the
  loop believes of the socket is wrong only if an event is pending that corrects it.
\<close>

definition loop_wakes :: "loop \<Rightarrow> bool" where
  "loop_wakes s \<longleftrightarrow>
     mq_notify (lp_outbox s) \<and>
     (lp_pc s \<in> {LArm, LWait} \<and> lp_canWrite s \<and> mq_messages (lp_outbox s) \<noteq> [] \<longrightarrow> lp_wakeup s > 0 \<or> lp_pushing s > 0) \<and>
     (lp_pc s = LWait \<and> lp_canWrite s \<longrightarrow> lp_wake_armed s) \<and>
     (\<not> lp_canWrite s \<longrightarrow> sk_full s \<or> sk_out_edge s)"

definition loop_sends :: "loop \<Rightarrow> bool" where
  "loop_sends s \<longleftrightarrow> map sent_message (lp_sent s) @ mq_messages (lp_outbox s) = lp_pushed s"

definition loop_reads :: "ucred \<Rightarrow> loop \<Rightarrow> bool" where
  "loop_reads ours s \<longleftrightarrow>
     (lp_pc s \<noteq> LDead \<longrightarrow>
       lp_calls s @ map (fill_message ours) (sk_in s) = map (fill_message ours) (sk_arrived s) \<and> mq_messages (lp_inbox s) = []) \<and>
     (lp_pc s \<noteq> LDead \<and> sk_in s \<noteq> [] \<longrightarrow> lp_canRead s \<or> sk_in_edge s) \<and> (lp_pc s \<in> {LReset, LSend, LArm, LWait} \<longrightarrow> \<not> lp_canRead s)"

definition loop_inv :: "ucred \<Rightarrow> loop \<Rightarrow> bool" where
  "loop_inv ours s \<longleftrightarrow> loop_wakes s \<and> loop_sends s \<and> loop_reads ours s"

lemmas loop_parts = loop_inv_def loop_wakes_def loop_sends_def loop_reads_def

lemma Server_init_inv: "loop_inv ours Server_init"
  by (simp add: loop_parts Server_init_def setMessageArrivalNotificationCallback_def)

lemma sendMessage_inv: "loop_inv ours s \<Longrightarrow> loop_inv ours (sendMessage m s)"
  by (auto simp: loop_parts sendMessage_def MessageQueue_push_def)

lemma outbox_callback_inv:
  assumes "loop_inv ours s" and "outbox_callback s = Some s'"
  shows "loop_inv ours s'"
proof -
  have "s' = s\<lparr>lp_pushing := lp_pushing s - 1, lp_wakeup := lp_wakeup s + 1\<rparr>"
    using assms(2) by (simp add: outbox_callback_def split: if_splits)
  with assms(1) show ?thesis by (simp add: loop_parts; blast)
qed

lemma loop_read_inv:
  assumes inv: "loop_inv ours s" and step: "loop_read ours as s = Some s'"
  shows "loop_inv ours s'"
proof (cases "lp_canRead s")
  case False
  with assms show ?thesis by (auto simp: loop_parts loop_read_def split: if_splits)
next
  case True
  from step have pc: "lp_pc s = LRead" by (auto simp: loop_read_def split: if_splits)
  with inv have box: "mq_messages (lp_inbox s) = []"
    and calls: "lp_calls s @ map (fill_message ours) (sk_in s) = map (fill_message ours) (sk_arrived s)"
    and rest: "loop_wakes s" "loop_sends s" by (auto simp: loop_parts)
  obtain ans q cb where r: "receiveMany ours as (lp_inbox s) = Some (ans, q, cb)"
    using step pc True by (auto simp: loop_read_def split: option.splits)
  show ?thesis
  proof (cases ans)
    case None
    with step r pc True have "s' = s\<lparr>lp_pc := LDead, lp_inbox := q\<rparr>" by (simp add: loop_read_def)
    with rest show ?thesis by (simp add: loop_parts)
  next
    case (Some again)
    with step r pc True have all: "recv_all as = Some (sk_in s)" by (auto simp: loop_read_def split: if_splits)
    from receiveMany_all [OF all, of ours "lp_inbox s"] r Some box
    have q: "again = False" "mq_messages q = map (fill_message ours) (sk_in s)" by auto
    have "s' = s\<lparr>lp_pc := LReset, lp_canRead := False, lp_inbox := q\<lparr>mq_messages := []\<rparr>,
        lp_calls := lp_calls s @ map (fill_message ours) (sk_in s), sk_in := []\<rparr>"
      using step r pc True Some all q by (simp add: loop_read_def drain_inbox_all initWithOther_fill comp_def)
    with rest calls show ?thesis by (simp add: loop_parts)
  qed
qed

lemma loop_send_inv:
  assumes inv: "loop_inv ours s" and step: "loop_send as s = Some s'"
  shows "loop_inv ours s'"
proof (cases "lp_canWrite s")
  case False
  with assms show ?thesis by (auto simp: loop_parts loop_send_def split: if_splits)
next
  case True
  from step have pc: "lp_pc s = LSend" by (auto simp: loop_send_def split: if_splits)
  obtain r rest log cbs where send: "sendMany as (mq_messages (lp_outbox s)) = Some (r, rest, log, cbs)"
    using step pc True by (auto simp: loop_send_def split: option.splits)
  have log: "map sent_message log @ rest = mq_messages (lp_outbox s)" "r = SendDone True \<Longrightarrow> rest = []"
    using sendMany_log [OF send] by (auto simp: log_ok_def)
  have sends: "map sent_message (lp_sent s @ log) @ rest = lp_pushed s" using inv log(1) by (simp add: loop_parts)
  show ?thesis
  proof (cases r)
    case (SendDone again)
    let ?s = "s\<lparr>lp_outbox := (lp_outbox s)\<lparr>mq_messages := rest\<rparr>, lp_sent := lp_sent s @ log, lp_pc := LArm, lp_canWrite := again\<rparr>"
    have s': "s' = (if again then ?s else ?s\<lparr>sk_full := True\<rparr>)"
      using step pc True send SendDone by (cases again) (simp_all add: loop_send_def Let_def)
    show ?thesis
      using inv pc sends log(2) SendDone unfolding s' by (cases again; simp add: loop_parts; blast)
  next
    case SendThrows
    then have "s' = s\<lparr>lp_outbox := (lp_outbox s)\<lparr>mq_messages := rest\<rparr>, lp_sent := lp_sent s @ log, lp_pc := LDead\<rparr>"
      using step pc True send by (simp add: loop_send_def Let_def)
    with inv sends show ?thesis by (auto simp: loop_parts)
  qed
qed

lemma loop_reset_inv:
  assumes "loop_inv ours s" and "loop_reset s = Some s'"
  shows "loop_inv ours s'"
proof -
  have "lp_pc s = LReset" "s' = s\<lparr>lp_pc := LSend, lp_wakeup := 0\<rparr>"
    using assms(2) by (simp_all add: loop_reset_def split: if_splits)
  with assms(1) show ?thesis by (simp add: loop_parts; blast)
qed

lemma loop_arm_inv:
  assumes "loop_inv ours s" and "loop_arm s = Some s'"
  shows "loop_inv ours s'"
proof -
  have "lp_pc s = LArm" "s' = s\<lparr>lp_pc := LWait, lp_wake_armed := lp_canWrite s\<rparr>"
    using assms(2) by (simp_all add: loop_arm_def split: if_splits)
  with assms(1) show ?thesis by (simp add: loop_parts; blast)
qed

lemma loop_wait_inv:
  assumes "loop_inv ours s" and "loop_wait rd wr s = Some s'"
  shows "loop_inv ours s'"
proof -
  have "lp_pc s = LWait"
    "s' = s\<lparr>lp_pc := LRead, lp_canRead := (if rd then True else lp_canRead s), lp_canWrite := (if wr then True else lp_canWrite s),
       sk_in_edge := sk_in_edge s \<and> \<not> rd, sk_out_edge := sk_out_edge s \<and> \<not> wr\<rparr>"
    using assms(2) unfolding loop_wait_def by (metis option.distinct(1) option.inject)+
  with assms(1) show ?thesis by (cases rd; cases wr; simp add: loop_parts; blast)
qed

lemma system_inv:
  assumes "loop_inv ours s"
  shows "loop_inv ours (datagram_arrives d s)" and "loop_inv ours (socket_drains s)"
  subgoal using assms by (simp add: loop_parts datagram_arrives_def)
  subgoal using assms by (cases "sk_full s"; simp add: loop_parts socket_drains_def; blast)
  done

lemma loop_do_inv:
  assumes "loop_inv ours s" and "loop_do ours a s = Some s'"
  shows "loop_inv ours s'"
  using assms sendMessage_inv [OF assms(1)] outbox_callback_inv [OF assms(1)] loop_read_inv [OF assms(1)]
    loop_reset_inv [OF assms(1)] loop_send_inv [OF assms(1)] loop_arm_inv [OF assms(1)] loop_wait_inv [OF assms(1)]
    system_inv [OF assms(1)]
  by (cases a) auto

interpretation lp: inductive_invariant "\<lambda>s. s = Server_init" "loop_step ours" "loop_inv ours" for ours
proof unfold_locales
  show "loop_inv ours s" if "s = Server_init" for s using that Server_init_inv by simp
  show "loop_inv ours t" if "loop_inv ours s" "loop_step ours s t" for s t
    using that(2) loop_do_inv [OF that(1)] by (rule loop_stepE)
qed

section \<open>Properties\<close>

text \<open>Nothing makes epoll_wait return but its timeout.\<close>

definition loop_blocked :: "loop \<Rightarrow> bool" where
  "loop_blocked s \<longleftrightarrow>
     lp_pc s = LWait \<and> \<not> (lp_wake_armed s \<and> lp_wakeup s > 0) \<and> \<not> sk_in_edge s \<and> \<not> sk_out_edge s"

text \<open>C6. The event loop strands no message, whatever the other threads do in the meantime. Messages leave the outbox in the
  order they were put in, and datagrams are handed to Call::callFromMessage in the order they arrived. And when the loop blocks in
  epoll_wait and no thread is about to notify it, every datagram that arrived has been handed on and every message is out of the outbox, unless
  the socket cannot take more.\<close>
theorem server_loop_strands_nothing:
  assumes "(loop_step ours)\<^sup>*\<^sup>* Server_init s"
  shows "map sent_message (lp_sent s) @ mq_messages (lp_outbox s) = lp_pushed s
    \<and> (lp_pc s \<noteq> LDead \<longrightarrow> lp_calls s @ map (fill_message ours) (sk_in s) = map (fill_message ours) (sk_arrived s))
    \<and> (loop_blocked s \<and> lp_pushing s = 0 \<longrightarrow>
         lp_calls s = map (fill_message ours) (sk_arrived s) \<and> (mq_messages (lp_outbox s) = [] \<or> sk_full s))"
proof -
  have inv: "loop_inv ours s" using lp.reachable_inv [OF refl assms] .
  have out: "mq_messages (lp_outbox s) = [] \<or> sk_full s" if b: "loop_blocked s" and p: "lp_pushing s = 0"
    using inv b p by (cases "lp_canWrite s") (auto simp: loop_inv_def loop_wakes_def loop_blocked_def)
  have "sk_in s = []" if "loop_blocked s"
    using inv that by (auto simp: loop_inv_def loop_reads_def loop_blocked_def)
  with inv out show ?thesis by (auto simp: loop_inv_def loop_sends_def loop_reads_def loop_blocked_def)
qed

definition loop_example :: "loop_act list" where
  "loop_example =
     [Read [], Reset, SendAll [], Arm, Arrive \<lparr>rv_data = ''ab'', rv_address = ([], 2), rv_control = []\<rparr>, Wait True True,
      Read [Received [\<lparr>rv_data = ''ab'', rv_address = ([], 2), rv_control = []\<rparr>], RecvAgain], Reset,
      Push (Message_new \<lparr>cr_pid = 1, cr_uid = 0, cr_gid = 0\<rparr> 4 0 True), SendAll [Sent 1], Callback, Arm, Wait False False,
      Read [], Reset, SendAll [], Arm]"

theorem server_loop_strands_nothing_witness:
  "\<exists>s. loop_run \<lparr>cr_pid = 1, cr_uid = 0, cr_gid = 0\<rparr> loop_example Server_init = Some s \<and> loop_blocked s \<and>
     length (lp_pushed s) = 1 \<and> length (sk_arrived s) = 1 \<and> map sent_message (lp_sent s) = lp_pushed s \<and>
     lp_calls s = map (fill_message \<lparr>cr_pid = 1, cr_uid = 0, cr_gid = 0\<rparr>) (sk_arrived s)"
proof -
  obtain s where s: "loop_run \<lparr>cr_pid = 1, cr_uid = 0, cr_gid = 0\<rparr> loop_example Server_init = Some s" "loop_blocked s"
    "lp_pushing s = 0" "\<not> sk_full s" "length (lp_pushed s) = 1" "length (sk_arrived s) = 1"
    by (simp add: loop_example_def Server_init_def loop_read_def loop_reset_def loop_send_def loop_arm_def loop_wait_def
        datagram_arrives_def sendMessage_def MessageQueue_push_def setMessageArrivalNotificationCallback_def drain_inbox_all
        outbox_callback_def loop_blocked_def Let_def)
  with server_loop_strands_nothing [OF loop_run_steps [OF s(1)]] show ?thesis by auto
qed

end
