(* ===== verification/Server_Registry.thy ===== *)
theory Server_Registry
  imports Osxie_Prelude
begin

text \<open>
  The registries of processes and threads (the template Registry of
  src/external/osxieserver/internal-include/osxieserver/registry.hpp): three maps, by the id of the
  host, the id in the container and an eternal id, from a counter, that is not used again.
  Every operation runs under the registry's lock and is one step. Entries are named by their
  addresses; \<open>pid\<close> and \<open>nsid\<close> give the two ids of an entry, which do not change.
\<close>

section \<open>State\<close>

type_synonym ptr = nat

record registry =
  rg_map :: "int \<rightharpoonup> ptr"
  rg_nsmap :: "int \<rightharpoonup> ptr"
  rg_emap :: "u64 \<rightharpoonup> ptr"
  rg_counter :: u64
  rg_eid :: "ptr \<Rightarrow> u64"

record entry_ids =
  pid :: "ptr \<Rightarrow> int"
  nsid :: "ptr \<Rightarrow> int"

text \<open>A registry is a static object, so its counter starts at 0; the eternal id of an entry is not initialised (\<open>eids\<close>).\<close>

definition registry_empty :: "(ptr \<Rightarrow> u64) \<Rightarrow> registry" where
  "registry_empty eids = \<lparr>rg_map = Map.empty, rg_nsmap = Map.empty, rg_emap = Map.empty, rg_counter = 0, rg_eid = eids\<rparr>"

section \<open>Operations\<close>

definition insert_entry :: "entry_ids \<Rightarrow> ptr \<Rightarrow> registry \<Rightarrow> registry" where
  "insert_entry ids p r =
     (let e = rg_counter r
      in r\<lparr>rg_map := (rg_map r)(pid ids p \<mapsto> p), rg_nsmap := (rg_nsmap r)(nsid ids p \<mapsto> p), rg_emap := (rg_emap r)(e \<mapsto> p),
           rg_counter := e + 1, rg_eid := (rg_eid r)(p := e)\<rparr>)"

definition erase_entry :: "entry_ids \<Rightarrow> ptr \<Rightarrow> registry \<Rightarrow> registry" where
  "erase_entry ids p r =
     r\<lparr>rg_map := (rg_map r)(pid ids p := None), rg_nsmap := (rg_nsmap r)(nsid ids p := None), rg_emap := (rg_emap r)(rg_eid r p := None)\<rparr>"

text \<open>\<open>made\<close> is what the factory returns, which is called under the lock.\<close>

definition registerIfAbsent :: "entry_ids \<Rightarrow> int \<Rightarrow> (registry \<Rightarrow> ptr option) \<Rightarrow> registry \<Rightarrow> ptr option \<times> registry" where
  "registerIfAbsent ids n made r =
     (case rg_nsmap r n of
        Some p \<Rightarrow> (Some p, r)
      | None \<Rightarrow> (case made r of None \<Rightarrow> (None, r) | Some p \<Rightarrow> (Some p, insert_entry ids p r)))"

definition registerEntry :: "entry_ids \<Rightarrow> ptr \<Rightarrow> bool \<Rightarrow> registry \<Rightarrow> bool \<times> registry" where
  "registerEntry ids p replace r =
     (if \<not> replace \<and> (rg_map r (pid ids p) \<noteq> None \<or> rg_nsmap r (nsid ids p) \<noteq> None) then (False, r)
      else (True, insert_entry ids p r))"

definition unregisterEntryByID :: "entry_ids \<Rightarrow> int \<Rightarrow> registry \<Rightarrow> bool \<times> registry" where
  "unregisterEntryByID ids i r =
     (case rg_map r i of
        None \<Rightarrow> (False, r)
      | Some p \<Rightarrow>
          if rg_nsmap r (nsid ids p) = None \<or> rg_emap r (rg_eid r p) = None then (False, r)
          else (True, r\<lparr>rg_map := (rg_map r)(i := None), rg_nsmap := (rg_nsmap r)(nsid ids p := None),
                       rg_emap := (rg_emap r)(rg_eid r p := None)\<rparr>))"

definition unregisterEntryByNSID :: "entry_ids \<Rightarrow> int \<Rightarrow> registry \<Rightarrow> bool \<times> registry" where
  "unregisterEntryByNSID ids n r =
     (case rg_nsmap r n of
        None \<Rightarrow> (False, r)
      | Some p \<Rightarrow>
          if rg_map r (pid ids p) = None \<or> rg_emap r (rg_eid r p) = None then (False, r)
          else (True, r\<lparr>rg_map := (rg_map r)(pid ids p := None), rg_nsmap := (rg_nsmap r)(n := None),
                       rg_emap := (rg_emap r)(rg_eid r p := None)\<rparr>))"

definition unregistryEntryByEternalID :: "entry_ids \<Rightarrow> u64 \<Rightarrow> registry \<Rightarrow> bool \<times> registry" where
  "unregistryEntryByEternalID ids e r =
     (case rg_emap r e of
        None \<Rightarrow> (False, r)
      | Some p \<Rightarrow>
          if rg_nsmap r (nsid ids p) = None \<or> rg_map r (pid ids p) = None then (False, r)
          else (True, r\<lparr>rg_map := (rg_map r)(pid ids p := None), rg_nsmap := (rg_nsmap r)(nsid ids p := None),
                       rg_emap := (rg_emap r)(e := None)\<rparr>))"

definition unregisterEntry :: "entry_ids \<Rightarrow> ptr \<Rightarrow> registry \<Rightarrow> bool \<times> registry" where
  "unregisterEntry ids p r =
     (if rg_map r (pid ids p) = Some p \<and> rg_nsmap r (nsid ids p) = Some p \<and> rg_emap r (rg_eid r p) = Some p
      then (True, erase_entry ids p r) else (False, r))"

definition lookupEntryByID :: "int \<Rightarrow> registry \<Rightarrow> ptr option" where
  "lookupEntryByID i r = rg_map r i"

definition lookupEntryByNSID :: "int \<Rightarrow> registry \<Rightarrow> ptr option" where
  "lookupEntryByNSID n r = rg_nsmap r n"

definition lookupEntryByEternalID :: "u64 \<Rightarrow> registry \<Rightarrow> ptr option" where
  "lookupEntryByEternalID e r = rg_emap r e"

definition copyEntries :: "registry \<Rightarrow> ptr set" where
  "copyEntries r = ran (rg_emap r)"

definition registry_size :: "registry \<Rightarrow> nat" where
  "registry_size r = card (dom (rg_map r))"

section \<open>Consistency\<close>

text \<open>
  The three maps have the same entries, each under its own keys, and the eternal ids in use
  are below the counter.
\<close>

definition reg_ok :: "entry_ids \<Rightarrow> registry \<Rightarrow> bool" where
  "reg_ok ids r \<longleftrightarrow>
     (\<forall>i p. rg_map r i = Some p \<longleftrightarrow> p \<in> copyEntries r \<and> pid ids p = i) \<and>
     (\<forall>n p. rg_nsmap r n = Some p \<longleftrightarrow> p \<in> copyEntries r \<and> nsid ids p = n) \<and>
     (\<forall>e p. rg_emap r e = Some p \<longleftrightarrow> p \<in> copyEntries r \<and> rg_eid r p = e) \<and>
     (\<forall>e p. rg_emap r e = Some p \<longrightarrow> e < rg_counter r)"

lemma reg_okD:
  assumes "reg_ok ids r"
  shows "rg_map r i = Some p \<longleftrightarrow> p \<in> copyEntries r \<and> pid ids p = i"
    and "rg_nsmap r n = Some p \<longleftrightarrow> p \<in> copyEntries r \<and> nsid ids p = n"
    and "rg_emap r e = Some p \<longleftrightarrow> p \<in> copyEntries r \<and> rg_eid r p = e"
    and "p \<in> copyEntries r \<Longrightarrow> rg_eid r p < rg_counter r"
  using assms unfolding reg_ok_def by blast+

lemma copyEntries_iff: "p \<in> copyEntries r \<longleftrightarrow> (\<exists>e. rg_emap r e = Some p)"
  by (auto simp: copyEntries_def ran_def)

text \<open>Operations that a client may ask for.\<close>

datatype reg_op =
    RegIfAbsent int "ptr option" | RegEntry ptr | UnregID int | UnregNSID int | UnregEID u64 | UnregEntry ptr

fun reg_exec :: "entry_ids \<Rightarrow> reg_op \<Rightarrow> registry \<Rightarrow> registry" where
  "reg_exec ids (RegIfAbsent n made) r = snd (registerIfAbsent ids n (\<lambda>_. made) r)"
| "reg_exec ids (RegEntry p) r = snd (registerEntry ids p False r)"
| "reg_exec ids (UnregID i) r = snd (unregisterEntryByID ids i r)"
| "reg_exec ids (UnregNSID n) r = snd (unregisterEntryByNSID ids n r)"
| "reg_exec ids (UnregEID e) r = snd (unregistryEntryByEternalID ids e r)"
| "reg_exec ids (UnregEntry p) r = snd (unregisterEntry ids p r)"

text \<open>
  What the registry relies on: the factory makes an entry with the id in the container that was
  asked for, and whose id of the host is not registered.
\<close>

fun reg_op_ok :: "entry_ids \<Rightarrow> reg_op \<Rightarrow> registry \<Rightarrow> bool" where
  "reg_op_ok ids (RegIfAbsent n (Some p)) r \<longleftrightarrow> nsid ids p = n \<and> (rg_nsmap r n = None \<longrightarrow> rg_map r (pid ids p) = None)"
| "reg_op_ok ids _ r \<longleftrightarrow> True"

text \<open>The abstract registry: the set of the entries.\<close>

fun set_op :: "entry_ids \<Rightarrow> reg_op \<Rightarrow> (ptr \<Rightarrow> u64) \<Rightarrow> ptr set \<Rightarrow> ptr set" where
  "set_op ids (RegIfAbsent n None) ev S = S"
| "set_op ids (RegIfAbsent n (Some p)) ev S = (if \<exists>q \<in> S. nsid ids q = n then S else insert p S)"
| "set_op ids (RegEntry p) ev S = (if \<exists>q \<in> S. pid ids q = pid ids p \<or> nsid ids q = nsid ids p then S else insert p S)"
| "set_op ids (UnregID i) ev S = {q \<in> S. pid ids q \<noteq> i}"
| "set_op ids (UnregNSID n) ev S = {q \<in> S. nsid ids q \<noteq> n}"
| "set_op ids (UnregEID e) ev S = {q \<in> S. ev q \<noteq> e}"
| "set_op ids (UnregEntry p) ev S = S - {p}"

lemma insert_entry_ok:
  assumes ok: "reg_ok ids r" and new: "rg_map r (pid ids p) = None" "rg_nsmap r (nsid ids p) = None" and room: "rg_counter r \<noteq> - 1"
  shows "reg_ok ids (insert_entry ids p r)" and "copyEntries (insert_entry ids p r) = insert p (copyEntries r)"
proof -
  let ?r = "insert_entry ids p r"
  have notin: "p \<notin> copyEntries r" using reg_okD(1) [OF ok, of "pid ids p" p] new(1) by auto
  have fresh: "rg_emap r (rg_counter r) = None"
    using ok unfolding reg_ok_def by (metis less_irrefl not_None_eq)
  have le: "e < rg_counter r + 1" if "e \<le> rg_counter r" for e
  proof -
    have "unat (rg_counter r + 1) = unat (rg_counter r) + 1"
      using room unatSuc [of "rg_counter r"] by (simp add: add.commute eq_neg_iff_add_eq_0)
    then show ?thesis using that by (simp add: word_less_nat_alt word_le_nat_alt)
  qed
  show entries: "copyEntries ?r = insert p (copyEntries r)"
    using fresh by (simp add: copyEntries_def insert_entry_def Let_def ran_map_upd)
  have maps: "rg_map ?r i = (if i = pid ids p then Some p else rg_map r i)"
    "rg_nsmap ?r i = (if i = nsid ids p then Some p else rg_nsmap r i)"
    "rg_emap ?r e = (if e = rg_counter r then Some p else rg_emap r e)"
    "rg_eid ?r q = (if q = p then rg_counter r else rg_eid r q)"
    "rg_counter ?r = rg_counter r + 1" for i e q
    by (simp_all add: insert_entry_def Let_def)
  have below: "rg_eid r q < rg_counter r" if "q \<in> copyEntries r" for q using reg_okD(4) [OF ok that] .
  show "reg_ok ids ?r"
    unfolding reg_ok_def entries maps
    apply (intro conjI allI)
    subgoal for i q using notin new(1) reg_okD(1) [OF ok, of i q] reg_okD(1) [OF ok, of "pid ids p" q] by auto
    subgoal for n q using notin new(2) reg_okD(2) [OF ok, of n q] reg_okD(2) [OF ok, of "nsid ids p" q] by auto
    subgoal for e q using notin below [of q] reg_okD(3) [OF ok, of e q] by auto
    subgoal for e q using le reg_okD(3) [OF ok, of e q] below [of q] by (auto simp: less_imp_le)
    done
qed

lemma erase_entry_ok:
  assumes ok: "reg_ok ids r" and inn: "p \<in> copyEntries r"
  shows "reg_ok ids (erase_entry ids p r)" and "copyEntries (erase_entry ids p r) = copyEntries r - {p}"
proof -
  let ?r = "erase_entry ids p r"
  have maps: "rg_map ?r i = (if i = pid ids p then None else rg_map r i)"
    "rg_nsmap ?r i = (if i = nsid ids p then None else rg_nsmap r i)"
    "rg_emap ?r e = (if e = rg_eid r p then None else rg_emap r e)"
    "rg_eid ?r q = rg_eid r q" "rg_counter ?r = rg_counter r" for i e q
    by (simp_all add: erase_entry_def)
  have same: "q = p" if "q \<in> copyEntries r" "pid ids q = pid ids p \<or> nsid ids q = nsid ids p \<or> rg_eid r q = rg_eid r p" for q
    using that inn reg_okD(1) [OF ok, of "pid ids p"] reg_okD(2) [OF ok, of "nsid ids p"] reg_okD(3) [OF ok, of "rg_eid r p"]
    by (metis option.inject)
  have emap: "rg_emap ?r e = Some q \<longleftrightarrow> q \<in> copyEntries r - {p} \<and> rg_eid r q = e" for e q
    unfolding maps using same [of q] reg_okD(3) [OF ok, of e q] by auto
  show entries: "copyEntries ?r = copyEntries r - {p}"
    unfolding set_eq_iff copyEntries_iff [of _ ?r] emap by blast
  show "reg_ok ids ?r"
    unfolding reg_ok_def entries
    apply (intro conjI allI)
    subgoal for i q unfolding maps using same [of q] reg_okD(1) [OF ok, of i q] by auto
    subgoal for n q unfolding maps using same [of q] reg_okD(2) [OF ok, of n q] by auto
    subgoal for e q unfolding maps(4) using emap .
    subgoal for e q unfolding emap maps(5) using reg_okD(4) [OF ok, of q] by auto
    done
qed

text \<open>On a consistent registry the three ways to remove by a key remove the entry that has it.\<close>

lemma unregister_by_key:
  assumes ok: "reg_ok ids r"
  shows "unregisterEntryByID ids i r = (case rg_map r i of None \<Rightarrow> (False, r) | Some p \<Rightarrow> (True, erase_entry ids p r))"
    and "unregisterEntryByNSID ids i r = (case rg_nsmap r i of None \<Rightarrow> (False, r) | Some p \<Rightarrow> (True, erase_entry ids p r))"
    and "unregistryEntryByEternalID ids e r = (case rg_emap r e of None \<Rightarrow> (False, r) | Some p \<Rightarrow> (True, erase_entry ids p r))"
    and "unregisterEntry ids p r = (if p \<in> copyEntries r then (True, erase_entry ids p r) else (False, r))"
proof -
  have inn: "rg_map r (pid ids q) = Some q" "rg_nsmap r (nsid ids q) = Some q" "rg_emap r (rg_eid r q) = Some q"
    if "q \<in> copyEntries r" for q using that reg_okD [OF ok] by blast+
  show "unregisterEntryByID ids i r = (case rg_map r i of None \<Rightarrow> (False, r) | Some p \<Rightarrow> (True, erase_entry ids p r))"
  proof (cases "rg_map r i")
    case (Some q)
    then show ?thesis using reg_okD(1) [OF ok, of i q] inn [of q] by (simp add: unregisterEntryByID_def erase_entry_def)
  qed (simp add: unregisterEntryByID_def)
  show "unregisterEntryByNSID ids i r = (case rg_nsmap r i of None \<Rightarrow> (False, r) | Some p \<Rightarrow> (True, erase_entry ids p r))"
  proof (cases "rg_nsmap r i")
    case (Some q)
    then show ?thesis using reg_okD(2) [OF ok, of i q] inn [of q] by (simp add: unregisterEntryByNSID_def erase_entry_def)
  qed (simp add: unregisterEntryByNSID_def)
  show "unregistryEntryByEternalID ids e r = (case rg_emap r e of None \<Rightarrow> (False, r) | Some p \<Rightarrow> (True, erase_entry ids p r))"
  proof (cases "rg_emap r e")
    case (Some q)
    then show ?thesis using reg_okD(3) [OF ok, of e q] inn [of q] by (simp add: unregistryEntryByEternalID_def erase_entry_def)
  qed (simp add: unregistryEntryByEternalID_def)
  show "unregisterEntry ids p r = (if p \<in> copyEntries r then (True, erase_entry ids p r) else (False, r))"
    using reg_okD(1) [OF ok, of "pid ids p" p] inn by (auto simp: unregisterEntry_def)
qed

lemma registry_lookup_none:
  assumes ok: "reg_ok ids r"
  shows "rg_map r i = None \<longleftrightarrow> (\<forall>q \<in> copyEntries r. pid ids q \<noteq> i)"
    and "rg_nsmap r n = None \<longleftrightarrow> (\<forall>q \<in> copyEntries r. nsid ids q \<noteq> n)"
    and "rg_emap r e = None \<longleftrightarrow> (\<forall>q \<in> copyEntries r. rg_eid r q \<noteq> e)"
  subgoal using reg_okD(1) [OF ok, of i] by (cases "rg_map r i") auto
  subgoal using reg_okD(2) [OF ok, of n] by (cases "rg_nsmap r n") auto
  subgoal using reg_okD(3) [OF ok, of e] by (cases "rg_emap r e") auto
  done

lemma erase_by_key:
  assumes ok: "reg_ok ids r" and p: "p \<in> copyEntries r" and inj: "inj_on f (copyEntries r)" and k: "f p = k"
  shows "reg_ok ids (erase_entry ids p r) \<and> copyEntries (erase_entry ids p r) = {q \<in> copyEntries r. f q \<noteq> k}"
proof -
  have "{q \<in> copyEntries r. f q \<noteq> k} = copyEntries r - {p}" using p inj k by (auto simp: inj_on_def)
  then show ?thesis using erase_entry_ok [OF ok p] by simp
qed

lemma registry_keys_inj:
  assumes ok: "reg_ok ids r"
  shows "inj_on (pid ids) (copyEntries r)" "inj_on (nsid ids) (copyEntries r)" "inj_on (rg_eid r) (copyEntries r)"
  unfolding inj_on_def
  subgoal using reg_okD(1) [OF ok] by (metis option.inject)
  subgoal using reg_okD(2) [OF ok] by (metis option.inject)
  subgoal using reg_okD(3) [OF ok] by (metis option.inject)
  done

text \<open>Every operation keeps the consistency and does to the entries what the abstract operation does.\<close>

lemma reg_exec_refines:
  assumes ok: "reg_ok ids r" and pre: "reg_op_ok ids x r" and room: "rg_counter r \<noteq> - 1"
  shows "reg_ok ids (reg_exec ids x r) \<and> copyEntries (reg_exec ids x r) = set_op ids x (rg_eid r) (copyEntries r)"
proof (cases x)
  case (RegIfAbsent n made)
  then show ?thesis
    using ok pre insert_entry_ok [OF ok _ _ room] registry_lookup_none(2) [OF ok, of n] reg_okD(2) [OF ok, of n]
    by (cases made; cases "rg_nsmap r n") (auto simp: registerIfAbsent_def)
next
  case (RegEntry p)
  have "rg_map r (pid ids p) = None \<and> rg_nsmap r (nsid ids p) = None \<longleftrightarrow>
      \<not> (\<exists>q \<in> copyEntries r. pid ids q = pid ids p \<or> nsid ids q = nsid ids p)"
    using registry_lookup_none [OF ok] by blast
  with RegEntry show ?thesis using ok insert_entry_ok [OF ok _ _ room] by (auto simp: registerEntry_def)
next
  case (UnregID i)
  show ?thesis
  proof (cases "rg_map r i")
    case None
    then show ?thesis using ok registry_lookup_none(1) [OF ok, of i] UnregID by (auto simp: unregister_by_key [OF ok])
  next
    case (Some q)
    then have "q \<in> copyEntries r" "pid ids q = i" using reg_okD(1) [OF ok, of i q] by simp_all
    then show ?thesis
      using erase_by_key [OF ok _ registry_keys_inj(1) [OF ok]] Some UnregID by (simp add: unregister_by_key [OF ok])
  qed
next
  case (UnregNSID i)
  show ?thesis
  proof (cases "rg_nsmap r i")
    case None
    then show ?thesis using ok registry_lookup_none(2) [OF ok, of i] UnregNSID by (auto simp: unregister_by_key [OF ok])
  next
    case (Some q)
    then have "q \<in> copyEntries r" "nsid ids q = i" using reg_okD(2) [OF ok, of i q] by simp_all
    then show ?thesis
      using erase_by_key [OF ok _ registry_keys_inj(2) [OF ok]] Some UnregNSID by (simp add: unregister_by_key [OF ok])
  qed
next
  case (UnregEID i)
  show ?thesis
  proof (cases "rg_emap r i")
    case None
    then show ?thesis using ok registry_lookup_none(3) [OF ok, of i] UnregEID by (auto simp: unregister_by_key [OF ok])
  next
    case (Some q)
    then have "q \<in> copyEntries r" "rg_eid r q = i" using reg_okD(3) [OF ok, of i q] by simp_all
    then show ?thesis
      using erase_by_key [OF ok _ registry_keys_inj(3) [OF ok]] Some UnregEID by (simp add: unregister_by_key [OF ok])
  qed
next
  case (UnregEntry p)
  then show ?thesis using ok erase_entry_ok [OF ok] by (auto simp: unregister_by_key [OF ok])
qed

lemma insert_entry_counter: "rg_counter (insert_entry ids p r) = rg_counter r + 1"
  by (simp add: insert_entry_def Let_def)

lemma reg_exec_counter: "rg_counter (reg_exec ids x r) = rg_counter r \<or> rg_counter (reg_exec ids x r) = rg_counter r + 1"
  by (cases x) (auto simp: registerIfAbsent_def registerEntry_def unregisterEntryByID_def unregisterEntryByNSID_def
      unregistryEntryByEternalID_def unregisterEntry_def erase_entry_def insert_entry_counter split: option.splits)

lemma registry_size_entries:
  assumes ok: "reg_ok ids r"
  shows "registry_size r = card (copyEntries r)"
proof -
  have "dom (rg_map r) = pid ids ` copyEntries r" using reg_okD(1) [OF ok] by (auto simp: dom_def)
  then show ?thesis by (simp add: registry_size_def card_image [OF registry_keys_inj(1) [OF ok]])
qed

section \<open>Runs\<close>

fun reg_run :: "entry_ids \<Rightarrow> reg_op list \<Rightarrow> registry \<Rightarrow> registry" where
  "reg_run ids [] r = r"
| "reg_run ids (x # xs) r = reg_run ids xs (reg_exec ids x r)"

fun reg_ops_ok :: "entry_ids \<Rightarrow> reg_op list \<Rightarrow> registry \<Rightarrow> bool" where
  "reg_ops_ok ids [] r \<longleftrightarrow> True"
| "reg_ops_ok ids (x # xs) r \<longleftrightarrow> reg_op_ok ids x r \<and> reg_ops_ok ids xs (reg_exec ids x r)"

lemma counter_room:
  fixes c :: u64
  assumes "unat c + 1 < 2 ^ 64"
  shows "c \<noteq> - 1"
  using assms by (auto simp: unsigned_minus_1_eq_mask mask_eq_exp_minus_1)

lemma reg_run_ok:
  assumes "reg_ok ids r" "reg_ops_ok ids xs r" "unat (rg_counter r) + length xs < 2 ^ 64"
  shows "reg_ok ids (reg_run ids xs r) \<and> unat (rg_counter (reg_run ids xs r)) \<le> unat (rg_counter r) + length xs"
  using assms
proof (induction xs arbitrary: r)
  case (Cons x xs)
  have room: "rg_counter r \<noteq> - 1" using Cons.prems(3) counter_room [of "rg_counter r"] by simp
  have ok: "reg_ok ids (reg_exec ids x r)" using reg_exec_refines [OF Cons.prems(1) _ room] Cons.prems(2) by simp
  have "unat (rg_counter r + 1) \<le> unat (rg_counter r) + 1" by (simp add: unat_word_ariths)
  then have le: "unat (rg_counter (reg_exec ids x r)) \<le> unat (rg_counter r) + 1"
    using reg_exec_counter [of ids x r] by auto
  show ?case using Cons.IH [OF ok] Cons.prems(2,3) le by simp
qed simp

lemma registry_empty_ok: "reg_ok ids (registry_empty eids)"
  by (simp add: reg_ok_def registry_empty_def copyEntries_def)

section \<open>Properties\<close>

text \<open>C14. A registry that is used with unique ids (no entry is registered over another one, the factory makes an entry
  with the id that was asked for) is a set of entries, after every sequence of fewer than \<open>2 ^ 64\<close> operations: each of the
  three lookups finds exactly the entry with that key, the size is the number of entries, unregisterEntry succeeds exactly
  on the registered entries, and each further operation changes the set as the abstract operation does, so that the three
  maps never disagree.\<close>
theorem registry_is_entry_set:
  assumes "reg_ops_ok ids xs (registry_empty eids)" and "length xs < 2 ^ 64 - 1"
    and "r = reg_run ids xs (registry_empty eids)" and "reg_op_ok ids x r"
  shows "(lookupEntryByID i r = Some p \<longleftrightarrow> p \<in> copyEntries r \<and> pid ids p = i)
    \<and> (lookupEntryByNSID n r = Some p \<longleftrightarrow> p \<in> copyEntries r \<and> nsid ids p = n)
    \<and> (lookupEntryByEternalID e r = Some p \<longleftrightarrow> p \<in> copyEntries r \<and> rg_eid r p = e)
    \<and> registry_size r = card (copyEntries r)
    \<and> (fst (unregisterEntry ids p r) \<longleftrightarrow> p \<in> copyEntries r)
    \<and> copyEntries (reg_exec ids x r) = set_op ids x (rg_eid r) (copyEntries r)"
proof -
  have run: "reg_ok ids r \<and> unat (rg_counter r) \<le> length xs"
    using reg_run_ok [OF registry_empty_ok assms(1)] assms(2,3) by (simp add: registry_empty_def)
  then have ok: "reg_ok ids r" by simp
  have room: "rg_counter r \<noteq> - 1" using run assms(2) counter_room [of "rg_counter r"] by simp
  show ?thesis
    using reg_okD [OF ok] registry_size_entries [OF ok] unregister_by_key(4) [OF ok] reg_exec_refines [OF ok assms(4) room]
    by (simp add: lookupEntryByID_def lookupEntryByNSID_def lookupEntryByEternalID_def)
qed

definition two_entries :: entry_ids where
  "two_entries = \<lparr>pid = (\<lambda>p. int p + 100), nsid = int\<rparr>"

theorem registry_is_entry_set_witness:
  "let r = reg_run two_entries [RegIfAbsent 5 (Some 5), RegEntry 6, UnregNSID 5] (registry_empty (\<lambda>_. 9))
   in lookupEntryByID 106 r = Some 6 \<and> 6 \<in> copyEntries r \<and> rg_eid r 6 = 1
     \<and> copyEntries (reg_exec two_entries (UnregEID 1) r) = {q \<in> copyEntries r. rg_eid r q \<noteq> 1}"
proof -
  let ?xs = "[RegIfAbsent 5 (Some 5), RegEntry 6, UnregNSID 5]"
  let ?r = "reg_run two_entries ?xs (registry_empty (\<lambda>_. 9))"
  have pre: "reg_ops_ok two_entries ?xs (registry_empty (\<lambda>_. 9))" by (simp add: two_entries_def registry_empty_def)
  have look: "lookupEntryByID 106 ?r = Some 6" "rg_eid ?r 6 = 1"
    by (simp_all add: lookupEntryByID_def two_entries_def registry_empty_def registerIfAbsent_def registerEntry_def
        unregisterEntryByNSID_def insert_entry_def)
  show ?thesis
    using registry_is_entry_set [OF pre _ refl, of "UnregEID 1" 106 6 6 1] look by (simp add: Let_def)
qed

text \<open>C40. Two entries with the same id: the kernel threads of the server all have the id -1 and are registered with
  \<open>replace\<close>. The second one takes over the map by id but not the other two, so the first one can no longer be unregistered,
  even when the second one is gone: unregisterEntry refuses, and the entry stays in the registry, found by its id in the
  container and by copyEntries.\<close>
theorem registry_replaced_entry_stays:
  assumes "p \<noteq> q" "pid ids p = pid ids q" "nsid ids p \<noteq> nsid ids q"
    and "r2 = snd (registerEntry ids q True (snd (registerEntry ids p True r)))"
    and "r3 = snd (unregisterEntry ids q r2)"
  shows "unregisterEntry ids p r2 = (False, r2) \<and> fst (unregisterEntry ids q r2) \<and> unregisterEntry ids p r3 = (False, r3)
    \<and> lookupEntryByID (pid ids p) r3 = None \<and> lookupEntryByNSID (nsid ids p) r3 = Some p \<and> p \<in> copyEntries r3"
proof -
  have "rg_counter r + 1 \<noteq> rg_counter r" by simp
  moreover have "rg_emap r3 (rg_counter r) = Some p"
    using assms by (simp add: registerEntry_def insert_entry_def unregisterEntry_def erase_entry_def Let_def)
  ultimately show ?thesis
    using assms
    by (auto simp: registerEntry_def insert_entry_def unregisterEntry_def erase_entry_def Let_def lookupEntryByID_def
        lookupEntryByNSID_def copyEntries_iff)
qed

definition kernel_threads :: entry_ids where
  "kernel_threads = \<lparr>pid = (\<lambda>_. - 1), nsid = int\<rparr>"

theorem registry_replaced_entry_stays_witness:
  "let r2 = snd (registerEntry kernel_threads 2 True (snd (registerEntry kernel_threads 1 True (registry_empty (\<lambda>_. 0)))));
       r3 = snd (unregisterEntry kernel_threads 2 r2)
   in unregisterEntry kernel_threads 1 r3 = (False, r3) \<and> 1 \<in> copyEntries r3"
  using registry_replaced_entry_stays [of 1 2 kernel_threads, OF _ _ _ refl refl] by (simp add: kernel_threads_def Let_def)

end
