(* ===== verification/Server_Timer.thy ===== *)
theory Server_Timer
  imports Osxie_Prelude
begin

text \<open>
  The timer of the server: dtape_hook_timer_arm and the handling of the timer descriptor in the
  event loop (src/external/osxieserver/src/server.cpp), and the timer functions under the timer
  calls of the kernel code (src/external/osxieserver/duct-tape/src/timer.c). The queue of timer
  calls is the one of XNU; of it the model keeps the deadlines, in \<open>tm_queue\<close>, and the order of
  its calls: timer_call_enter calls timer_queue_assign and then puts the call in the queue,
  timer_call_cancel takes the call out and then calls timer_queue_cancel with the earliest
  deadline left, and timer_queue_expire removes the calls that are due and returns the earliest
  deadline left, or UINT64_MAX.
\<close>

section \<open>State\<close>

text \<open>
  \<open>tm_fd\<close> is the deadline the descriptor is armed with (absolute, in nanoseconds); \<open>tm_fired\<close> is
  the number of expirations that dtape_timer_fired has not handled yet.
\<close>

record timer =
  tm_current :: u64
  tm_fd :: "u64 option"
  tm_fired :: nat
  tm_queue :: "u64 list"

definition timer_init :: timer where
  "timer_init = \<lparr>tm_current = 0, tm_fd = None, tm_fired = 0, tm_queue = []\<rparr>"

section \<open>The hook\<close>

definition timer_spec :: "u64 \<Rightarrow> u64 \<times> u64" where
  "timer_spec deadline = (deadline div 1000000000, deadline mod 1000000000)"

text \<open>
  What timerfd_settime does with an absolute time: it refuses a number of nanoseconds of a second
  or more, a zero disarms the descriptor, and any other time arms it.
\<close>

definition timerfd_settime :: "u64 \<times> u64 \<Rightarrow> u64 option option" where
  "timerfd_settime spec =
     (case spec of (sec, nsec) \<Rightarrow>
        if nsec \<ge> 1000000000 then None
        else if sec = 0 \<and> nsec = 0 then Some None else Some (Some (sec * 1000000000 + nsec)))"

datatype timer_error = SettimeFailed

definition timer_arm :: "u64 \<Rightarrow> bool \<Rightarrow> timer \<Rightarrow> timer_error option \<times> timer" where
  "timer_arm deadline override t =
     (let deadline = (if deadline = - 1 then 0 else deadline); spec = timer_spec deadline
      in if \<not> override \<and> tm_current t \<noteq> 0 \<and> deadline \<ge> tm_current t then (None, t)
         else let t = t\<lparr>tm_current := deadline\<rparr>
              in case timerfd_settime spec of None \<Rightarrow> (Some SettimeFailed, t) | Some fd \<Rightarrow> (None, t\<lparr>tm_fd := fd\<rparr>))"

text \<open>
  The event of the descriptor in the loop: the read gets the number of expirations and stops the
  descriptor from being readable; with none of them the event is spurious, otherwise
  dtape_timer_fired is started in a thread of the kernel process.
\<close>

definition timer_event :: "nat \<Rightarrow> timer \<Rightarrow> timer" where
  "timer_event expirations t = (if expirations < 1 then t else t\<lparr>tm_fired := tm_fired t + 1, tm_fd := None\<rparr>)"

section \<open>The duct-taped timer functions\<close>

definition earliest :: "u64 list \<Rightarrow> u64" where
  "earliest q = (if q = [] then - 1 else Min (set q))"

definition timer_queue_assign :: "u64 \<Rightarrow> timer \<Rightarrow> timer" where
  "timer_queue_assign deadline t = snd (timer_arm deadline False t)"

definition timer_queue_cancel :: "u64 \<Rightarrow> timer \<Rightarrow> timer" where
  "timer_queue_cancel new_deadline t = snd (timer_arm new_deadline True t)"

text \<open>\<open>dtape_timer_fired\<close> in its two parts: the expiry, which gives the next deadline, and the call of the hook.\<close>

definition fired_expire :: "u64 \<Rightarrow> timer \<Rightarrow> u64 \<times> timer" where
  "fired_expire now t = (let q = filter (\<lambda>d. now < d) (tm_queue t) in (earliest q, t\<lparr>tm_queue := q\<rparr>))"

definition fired_arm :: "u64 \<Rightarrow> timer \<Rightarrow> timer" where
  "fired_arm next_deadline t = (snd (timer_arm next_deadline True t))\<lparr>tm_fired := tm_fired t - 1\<rparr>"

definition dtape_timer_fired :: "u64 \<Rightarrow> timer \<Rightarrow> timer" where
  "dtape_timer_fired now t = (case fired_expire now t of (d, t') \<Rightarrow> fired_arm d t')"

section \<open>The timer calls that use them\<close>

definition queue_insert :: "u64 \<Rightarrow> timer \<Rightarrow> timer" where
  "queue_insert d t = t\<lparr>tm_queue := insort d (tm_queue t)\<rparr>"

definition timer_call_enter :: "u64 \<Rightarrow> timer \<Rightarrow> timer" where
  "timer_call_enter d t = queue_insert d (timer_queue_assign d t)"

definition timer_call_cancel :: "u64 \<Rightarrow> timer \<Rightarrow> timer" where
  "timer_call_cancel d t =
     (if d \<in> set (tm_queue t) then let q = remove1 d (tm_queue t) in timer_queue_cancel (earliest q) (t\<lparr>tm_queue := q\<rparr>) else t)"

datatype timer_op = Enter u64 | Cancel u64 | Expire | Fired u64

text \<open>The operations one after the other; a deadline is neither 0 nor UINT64_MAX.\<close>

fun timer_do :: "timer_op \<Rightarrow> timer \<Rightarrow> timer option" where
  "timer_do (Enter d) t = (if d = 0 \<or> d = - 1 then None else Some (timer_call_enter d t))"
| "timer_do (Cancel d) t = Some (timer_call_cancel d t)"
| "timer_do Expire t = (if tm_fd t = None then None else Some (timer_event 1 t))"
| "timer_do (Fired now) t = (if tm_fired t = 0 then None else Some (dtape_timer_fired now t))"

fun timer_run :: "timer_op list \<Rightarrow> timer \<Rightarrow> timer option" where
  "timer_run [] t = Some t"
| "timer_run (x # xs) t = (case timer_do x t of None \<Rightarrow> None | Some t' \<Rightarrow> timer_run xs t')"

inductive timer_step :: "timer \<Rightarrow> timer \<Rightarrow> bool" where
  do: "timer_do x t = Some t' \<Longrightarrow> timer_step t t'"

inductive_cases timer_stepE: "timer_step t t'"

lemma timer_run_steps: "timer_run xs t = Some t' \<Longrightarrow> timer_step\<^sup>*\<^sup>* t t'"
  by (induction xs t rule: timer_run.induct)
    (auto split: option.splits intro: converse_rtranclp_into_rtranclp timer_step.do)

section \<open>Arming\<close>

lemma timer_spec_exact: "timerfd_settime (timer_spec d) = Some (if d = 0 then None else Some d)"
proof -
  have "d mod 1000000000 < 1000000000" by (rule word_mod_less_divisor) simp
  moreover have whole: "d div 1000000000 * 1000000000 + d mod 1000000000 = d" by (rule div_mult_mod_eq)
  moreover have "d = 0" if "d div 1000000000 = 0 \<and> d mod 1000000000 = 0"
    using that whole by (metis add_0 mult_zero_left)
  moreover have "(0 :: u64) div 1000000000 = 0 \<and> (0 :: u64) mod 1000000000 = 0" by simp
  ultimately show ?thesis unfolding timerfd_settime_def timer_spec_def by (simp add: not_le [symmetric])
qed

lemma timer_arm_eq:
  "timer_arm d b t =
     (None, let d = (if d = - 1 then 0 else d)
            in if \<not> b \<and> tm_current t \<noteq> 0 \<and> d \<ge> tm_current t then t else t\<lparr>tm_current := d, tm_fd := (if d = 0 then None else Some d)\<rparr>)"
  by (simp add: timer_arm_def timer_spec_exact Let_def)

text \<open>
  The invariant: every deadline in the queue is covered by an expiration that is still to be
  handled or by a descriptor that is armed no later, and \<open>_currentTimerDeadline\<close> is the deadline of
  the descriptor.
\<close>

definition timer_ok :: "timer \<Rightarrow> bool" where
  "timer_ok t \<longleftrightarrow>
     (\<forall>d \<in> set (tm_queue t). d \<noteq> 0 \<and> d \<noteq> - 1 \<and> (tm_fired t = 0 \<longrightarrow> (\<exists>a. tm_fd t = Some a \<and> a \<le> d))) \<and>
     (\<forall>a. tm_fd t = Some a \<longrightarrow> tm_current t = a \<and> a \<noteq> 0) \<and>
     (tm_current t \<noteq> 0 \<and> tm_fd t = None \<longrightarrow> tm_fired t > 0)"

lemma timer_rearm_ok:
  assumes "\<forall>d \<in> set q. d \<noteq> 0 \<and> d \<noteq> - 1"
  shows "timer_ok ((snd (timer_arm (earliest q) True (t\<lparr>tm_queue := q\<rparr>)))\<lparr>tm_fired := n\<rparr>)"
proof (cases "q = []")
  case True
  then show ?thesis by (simp add: timer_ok_def timer_arm_eq earliest_def)
next
  case False
  then have "Min (set q) \<in> set q" by simp
  with assms False show ?thesis by (auto simp: timer_ok_def timer_arm_eq earliest_def Let_def)
qed

lemma timer_enter_ok:
  assumes "timer_ok t" "d \<noteq> 0" "d \<noteq> - 1"
  shows "timer_ok (timer_call_enter d t)"
proof -
  have old: "e \<noteq> 0 \<and> e \<noteq> - 1" if "e \<in> set (tm_queue t)" for e using that assms(1) by (auto simp: timer_ok_def)
  show ?thesis
  proof (cases "tm_current t \<noteq> 0 \<and> d \<ge> tm_current t")
    case True
    then have "tm_fired t = 0 \<Longrightarrow> \<exists>a. tm_fd t = Some a \<and> a \<le> d" using assms(1) by (cases "tm_fd t") (auto simp: timer_ok_def)
    with True assms show ?thesis
      by (auto simp: timer_ok_def timer_call_enter_def queue_insert_def timer_queue_assign_def timer_arm_eq set_insort_key)
  next
    case False
    have "d \<le> e" if e: "e \<in> set (tm_queue t)" and fired: "tm_fired t = 0" for e
    proof -
      obtain a where "tm_fd t = Some a" "a \<le> e" "tm_current t = a" "a \<noteq> 0" using e fired assms(1) unfolding timer_ok_def by blast
      with False show ?thesis by simp
    qed
    with False assms(2,3) old show ?thesis
      by (auto simp: timer_ok_def timer_call_enter_def queue_insert_def timer_queue_assign_def timer_arm_eq set_insort_key)
  qed
qed

lemma timer_do_ok:
  assumes "timer_ok t" "timer_do x t = Some t'"
  shows "timer_ok t'"
proof (cases x)
  case (Enter d)
  then show ?thesis using assms timer_enter_ok by (auto split: if_splits)
next
  case (Cancel d)
  let ?q = "remove1 d (tm_queue t)"
  have q: "\<forall>d \<in> set ?q. d \<noteq> 0 \<and> d \<noteq> - 1" using assms(1) set_remove1_subset [of d "tm_queue t"] by (auto simp: timer_ok_def)
  have "timer_ok (timer_queue_cancel (earliest ?q) (t\<lparr>tm_queue := ?q\<rparr>))"
    using timer_rearm_ok [OF q, of "tm_fired t" t] by (simp add: timer_queue_cancel_def timer_arm_eq Let_def)
  then show ?thesis using assms Cancel by (auto simp: timer_call_cancel_def Let_def split: if_splits)
next
  case Expire
  then show ?thesis using assms by (auto simp: timer_ok_def timer_event_def split: if_splits)
next
  case (Fired now)
  let ?q = "filter (\<lambda>d. now < d) (tm_queue t)"
  have q: "\<forall>d \<in> set ?q. d \<noteq> 0 \<and> d \<noteq> - 1" using assms(1) by (auto simp: timer_ok_def)
  show ?thesis
    using assms(2) Fired timer_rearm_ok [OF q, of "tm_fired t - 1" t]
    by (auto simp: dtape_timer_fired_def fired_expire_def fired_arm_def Let_def split: if_splits)
qed

interpretation tm: inductive_invariant "\<lambda>t. t = timer_init" timer_step timer_ok
proof unfold_locales
  show "timer_ok t" if "t = timer_init" for t using that by (simp add: timer_ok_def timer_init_def)
  show "timer_ok t'" if "timer_ok t" "timer_step t t'" for t t' using that(2) timer_do_ok [OF that(1)] by (rule timer_stepE)
qed

section \<open>Properties\<close>



text \<open>C39. When they overlap, a deadline is lost: timer_call_enter arms the descriptor before the call is in the queue, and
  dtape_timer_fired arms it, with override, after it has looked at the queue. If the deadline is entered between the two
  halves of dtape_timer_fired while nothing else is queued, the call ends up in the queue with the descriptor disarmed and no
  handler left, so that it never runs.\<close>
theorem timer_fired_loses_deadline:
  assumes "tm_fired t = 1" and "\<forall>e \<in> set (tm_queue t). e \<le> now" and "fired_expire now t = (next_deadline, t1)"
  shows "let t2 = fired_arm next_deadline (timer_call_enter d t1)
    in tm_queue t2 = [d] \<and> tm_fd t2 = None \<and> tm_fired t2 = 0"
proof -
  have none: "filter (\<lambda>d. now < d) (tm_queue t) = []" using assms(2) by (auto simp: filter_empty_conv not_less)
  then have "next_deadline = - 1" "t1 = t\<lparr>tm_queue := []\<rparr>" using assms(3) by (simp_all add: fired_expire_def earliest_def Let_def)
  then show ?thesis
    using assms(1) by (simp add: fired_arm_def timer_call_enter_def queue_insert_def timer_queue_assign_def timer_arm_eq Let_def)
qed

theorem timer_fired_loses_deadline_witness:
  "\<exists>t. timer_run [Enter 20, Expire] timer_init = Some t \<and>
     (let t2 = fired_arm (fst (fired_expire 20 t)) (timer_call_enter 50 (snd (fired_expire 20 t)))
      in tm_queue t2 = [50] \<and> tm_fd t2 = None \<and> tm_fired t2 = 0)"
proof -
  obtain t where t: "timer_run [Enter 20, Expire] timer_init = Some t" "tm_fired t = 1" "tm_queue t = [20]"
    by (simp add: timer_init_def timer_call_enter_def queue_insert_def timer_queue_assign_def timer_arm_eq timer_event_def Let_def)
  with timer_fired_loses_deadline [of t 20 "fst (fired_expire 20 t)" "snd (fired_expire 20 t)" 50] show ?thesis by auto
qed

text \<open>A deadline of UINT64_MAX disarms a descriptor that is armed for another call.\<close>

lemma timer_assign_max_disarms:
  assumes "tm_current t \<noteq> 0"
  shows "tm_fd (timer_queue_assign (- 1) t) = None \<and> tm_current (timer_queue_assign (- 1) t) = 0"
proof -
  have "\<not> tm_current t \<le> 0" using assms by (metis antisym word_zero_le)
  then show ?thesis by (simp add: timer_queue_assign_def timer_arm_eq)
qed

end
