(* ===== verification/Spec2Isabelle.thy ===== *)
theory Spec2Isabelle
  imports
    Futex_Lock
    Futex_Once
    Futex_RWLock
    Futex_Condvar
    Dtape_Mutex
    Socket_Bitmap
    Cgs_Events
    Cgs_Window
    Window_Server
    Shellspawn
    Macho_Loader
    Commpage
    Mldr_Main
    Mldr_Sockets
    Work_Queue
    Kqchan_Process
    Server_Loop
    Server_Registry
    Server_Timer
begin

text \<open>
  Verification of the runtime of Osxie, which runs programs for macOS on Linux. Paths are
  relative to src/ of the repository.

  \<^bold>\<open>The program and its parts.\<close> The launcher (startup/osxie.c) sends the command line of the user
  to the daemon shellspawn inside the container, which starts the loader mldr (startup/mldr).
  The loader maps the program and its dynamic linker, cleans up the arguments, builds the stack
  and the page of processor data, and jumps into the program. The program's kernel calls go to a
  server (external/osxieserver), which runs the vendor's kernel sources over locks of its own; the
  locks of the loader and the server are those of libsimple. Windows of programs are shown by the
  window server (WindowServer) through X.

  \<^bold>\<open>Locks.\<close> \<open>Futex_Lock\<close>, \<open>Futex_Once\<close>, \<open>Futex_RWLock\<close> and \<open>Futex_Condvar\<close> model libsimple/src/lock.c,
  \<open>Dtape_Mutex\<close> models locks.c and condvar.c of external/osxieserver/duct-tape/src. A state is the
  lock word (a 32-bit word) or the owner and queue, with a program counter for each thread; a step is
  one atomic operation or one system call of one thread, and a run is any interleaving. Shown are
  exclusion, that no wake-up is lost, that a thread that runs alone gets the lock, that the futex lock
  refines an abstract lock, which the microthread mutex is built on, and two cases where the code
  fails: a try-lock that breaks the microthread mutex and a notification that is swallowed.

  \<^bold>\<open>Starting programs.\<close> \<open>Shellspawn\<close> models the commands of startup/osxie.c and
  shellspawn/shellspawn.c and shows that the daemon starts what the launcher was asked for, that signals
  and the exit status get through, and that a long value corrupts the stream. \<open>Memory_Block\<close> (bytes and
  strings in memory), \<open>Mldr_Args\<close>, \<open>Mldr_Stack\<close> and \<open>Mldr_Main\<close> model main, unset_special_env and
  process_special_env of mldr.c and stack.c; \<open>Fat_Files\<close> and \<open>Macho_Loader\<close> model load_fat and
  loader.c; \<open>Commpage\<close> models commpage.c. Each is correct for itself (images are mapped where and as the
  file says, the arguments in place are the given ones without those of the loader, the fields of
  the page), and this theory composes them: a program starts with exactly what it was given.
  \<open>Socket_Bitmap\<close> and \<open>Mldr_Sockets\<close> model the descriptors that the loader keeps for itself in mldr.c:
  no number is handed out twice as long as the bitmap does not shrink wrongly, which it can.

  \<^bold>\<open>Server.\<close> All under external/osxieserver.
  \<^item> \<open>Server_Message\<close> and \<open>Server_Queue\<close> model src/message.cpp: descriptors have one owner unless one is
    added to a full message, and the queues send and receive in order, with an answer for every
    system call as an argument.
  \<^item> \<open>Server_Loop\<close> models the part of src/server.cpp that moves messages, on top of these queues: with
    threads that send at any point of the loop, nothing is stranded when it blocks.
  \<^item> \<open>Work_Queue\<close> models internal-include/osxieserver/workers.hpp, the threads that work on the calls:
    items are served in order and no wake-up is lost, but the pool stops growing after a time-out.
  \<^item> \<open>Server_Registry\<close> models internal-include/osxieserver/registry.hpp: with unique ids the three maps
    are one set of entries; a replaced entry cannot be removed any more.
  \<^item> \<open>Kqchan_Process\<close> models the channels for events of processes of src/kqchan.cpp: a reply is not
    overtaken by a notification, and no notification is missed.
  \<^item> \<open>Server_Timer\<close> models the timer of src/server.cpp and duct-tape/src/timer.c: operations that do not
    overlap keep every deadline covered; ones that overlap can lose a deadline.

  \<^bold>\<open>Window server.\<close> \<open>Window_Server\<close> models OSXWindowServer.c, \<open>Cgs_Window\<close> the table of CGSWindow.c, and
  \<open>Cgs_Events\<close> the events of X11Display.c, X11Keymap.c and CGSEventPipeline.c. They refine a map from
  windows to their properties, with the X requests that belong to it, and a bounded queue.

  \<^bold>\<open>Shared.\<close> \<open>Osxie_Prelude\<close> has the machine types, fallible operations (a sum with the error on the
  left) and the interfaces as locales: \<open>inductive_invariant\<close>, \<open>mutex_contract\<close>, \<open>step_simulation\<close>,
  \<open>number_pool\<close>, \<open>bounded_fifo\<close> and \<open>keyed_table\<close>. Each is interpreted on the definitions of the
  components above, and the properties use the facts of these interpretations.

  \<^bold>\<open>Bounds.\<close> Loops of the code are total functions. Where a loop ends only because of what the system
  answers (sending, receiving, waiting), the answers are a list; that enough answers end the loop is
  part of the statements (\<open>sendMany_in_order\<close>). The loop over the variables in \<open>Mldr_Args\<close> runs for a number of
  rounds that is shown to be enough. The readers-writer lock has at most \<open>2 ^ 22\<close> threads, more than
  Linux allows, so that its count of readers does not overflow; the counter of the condition variable is
  taken modulo \<open>2 ^ 30\<close>, and its property allows for fewer notifications than that between two
  operations of a waiter. A registry sees fewer than \<open>2 ^ 64\<close> registrations. C's integers are words
  wherever they can wrap around.

  \<^bold>\<open>Not modelled.\<close> Assembly (the jump into a program, changes of stacks), microthreads over
  user contexts (thread.cpp, process.cpp) and the calls that the build generates (call.cpp); the list of
  monitors of the event loop, channels for Mach ports, and the hooks that only pass a call on; mounts
  and namespaces of the launcher; the vendor's kernel sources and the third-party packages of
  external/, kept as they are; the frameworks and libraries of generated functions; and commands
  that are a few system calls. System calls, Xlib and the processor's answers are arguments with their
  documented behaviour. Weak memory is not modelled: atomic operations and critical sections are
  taken to be sequentially consistent.
\<close>

section \<open>Starting a program\<close>

text \<open>C3. The loader from its own start to the start of the program. When the files can be loaded, the
  configuration is well-formed and the stack has room, the loader gets through, and the words at
  the top of the stack that the program starts with are the address of the header of the program,
  the number of its arguments, pointers to exactly the arguments that were given to it, pointers
  to exactly the given variables without those for the loader, and the strings for the dynamic
  linker. The choice of the program, the configuration, loading, the work on the arguments in
  place and the stack are composed as in the code, each over the memory that the one before left.\<close>
theorem mldr_main_starts_program:
  assumes lay: "exec_layout a c (s # ss) d es" and ss: "ss \<noteq> []"
    and choice: "(marked, filename) = (case marked_name s of Some f \<Rightarrow> (True, f) | None \<Rightarrow> (False, hd ss))"
    and conf: "process_special_env a initial_results = Inr (lr, sockpath)"
    and load: "load_program (w_os w) (w_space w) (w_files w) filename lr v = Inr (lr1, v1)"
    and buf: "buffer_ok a (root_path lr1) (w_unexpanded w) (hd ss)"
    and path: "executable_path filename (root_path lr1) = Inr path"
    and vars: "vs = map env_renamed (filter (\<lambda>v. \<not> special_variable v) es)"
    and ready: "start_ready w a lr1 ss vs path"
  shows "\<exists>a' lr' m' ps qs x k e. mldr_main w a v = Inr (a', lr', v1, m') \<and>
    entry_point lr' = entry_point lr1 \<and> stack_top lr' mod 8 = 0 \<and> stack_top lr' < stack_top lr1 \<and>
    get_words m' (stack_top lr') (8 + length ss + length vs) = [lr_mh lr1, length ss] @ ps @ [0] @ qs @ [0, x, k, e, 0] \<and>
    list_all2 (string_at m') ps (program_args marked (root_path lr1) ss) \<and> list_all2 (string_at m') qs vs \<and>
    string_at m' x (''executable_path='' @ path) \<and> string_at m' k (take 11 (''kernfd='' @ dec (kernfd lr1))) \<and>
    string_at m' e (''elf_calls='' @ hex (w_elfcalls w))"
proof -
  let ?u = "w_unexpanded w" and ?ptrs = "program_ptrs marked (root_path lr1) (w_unexpanded w) (offsets c ss)"
  have choose: "choose_program a = Inr (marked, filename)" using choose_program_layout [OF lay ss] choice by simp
  have name: "c_string filename"
    using exec_layout_c_string [OF lay] choice ss marked_name_c_string [of s] by (cases ss) (auto split: option.splits)
  have d: "area_start a \<le> d" "d \<le> area_end a" using lay placed_le unfolding exec_layout_def by fastforce+
  from handover_result [OF lay ss buf, of marked] obtain b where
    b: "main_handover marked (root_path lr1) ?u a = Inr b" "argc b = length ss" "argv b = map Some ?ptrs @ [None, None]"
      "strings_in (am b) (area_start a) d ?u ?ptrs (program_args marked (root_path lr1) ss)" "envc b = length vs"
      "env_array b d vs" "area_end b = area_end a"
    unfolding vars by auto
  then obtain qs zs where qs: "envp b = map Some qs @ None # zs" "placed (am b) d (area_end a) qs vs"
    unfolding env_array_def by auto
  note inq = placed_strings [OF qs(2) d(1), of ?u]
  have len: "length ?ptrs = length ss" "length qs = length vs"
    using b(4) placed_length [OF qs(2)] ss
    by (auto simp: strings_in_def list_all2_conv_all_nth program_args_def split: bool.splits option.splits)
  have small: "\<forall>p \<in> set ?ptrs. p < 2 ^ 64" "\<forall>q \<in> set qs. q < 2 ^ 64"
    using strings_in_bound [OF b(4)] strings_in_bound [OF inq] ready d(2) by (auto simp: start_ready_def)
  have room: "8 * (8 + length ?ptrs + length qs + user_long_count (length path + 56)) + 8 \<le> stack_top lr1"
    using ready len by (simp add: start_ready_def stack_need_def)
  from setup_stack_result [OF name path _ b(3) small(1) _ qs(1) small(2) _ _ _ _ _ _ room, of "w_elfcalls w" "w_kbuf w" "w_ebuf w" "am b"]
  obtain lr' m' where st: "setup_stack filename (w_elfcalls w) (w_kbuf w) (w_ebuf w) b lr1 (am b) = Inr (b, lr', m')"
      "lr' = lr1\<lparr>stack_top := stack_top lr'\<rparr>" "stack_top lr' mod 8 = 0"
      "stack_top lr1 \<le> stack_top lr' + stack_need ss vs path - 1"
      "get_words m' (stack_top lr') (8 + length ss + length vs) = [lr_mh lr1, length ss] @ ?ptrs @ [0] @ qs @ [0,
        stack_top lr1 - length path - 17, stack_top lr1 - length path - 29, stack_top lr1 - length path - 56, 0]"
      "string_at m' (stack_top lr1 - length path - 17) (''executable_path='' @ path)"
      "string_at m' (stack_top lr1 - length path - 29) (take 11 (''kernfd='' @ dec (kernfd lr1)))"
      "string_at m' (stack_top lr1 - length path - 56) (''elf_calls='' @ hex (w_elfcalls w))"
      "stack_top lr' + 8 * (8 + length ss + length vs) \<le> stack_top lr1 - length path - 56"
      "\<forall>i. i < stack_top lr' \<or> stack_top lr1 \<le> i \<longrightarrow> m' i = am b i"
    using ready b(2,5) len unfolding start_ready_def stack_need_def by auto
  have same: "m' i = am b i" if "i < stack_top lr1 - stack_need ss vs path \<or> stack_top lr1 \<le> i" for i
    using that st(4,10) by (auto simp: stack_need_def)
  note keep = strings_in_keep [where m' = m' and low = "stack_top lr1 - stack_need ss vs path" and top_addr = "stack_top lr1"]
  have "list_all2 (string_at m') ?ptrs (program_args marked (root_path lr1) ss)"
    by (rule keep [OF b(4)]) (use ready d(2) same in \<open>auto simp: start_ready_def\<close>)
  moreover have "list_all2 (string_at m') qs vs"
    by (rule keep [OF inq]) (use ready same in \<open>auto simp: start_ready_def\<close>)
  moreover have "mldr_main w a v = Inr (b, lr', v1, m')"
    using choose conf load b(1) st(1) ready by (simp add: mldr_main_def in_stop_def start_ready_def)
  moreover have "entry_point lr' = entry_point lr1" by (subst st(2)) simp
  moreover have "stack_top lr' < stack_top lr1" using st(9) by simp
  ultimately show ?thesis using st(3,5-8) by (intro exI conjI) assumption+
qed

theorem mldr_main_starts_program_witness:
  "\<exists>a' lr' v' m' ps qs x k e. mldr_main main_example (area_example [''mldr'', ''/r/p'', ''x''] [''A=1'', ''__mldr_bprefs=1,2,3,4'']) (\<lambda>_. None) =
       Inr (a', lr', v', m') \<and> entry_point lr' = 65600 \<and>
     get_words m' (stack_top lr') 11 = [65536, 2] @ ps @ [0] @ qs @ [0, x, k, e, 0] \<and>
     list_all2 (string_at m') ps [''/p'', ''x''] \<and> list_all2 (string_at m') qs [''A=1''] \<and>
     string_at m' x ''executable_path=/p''"
proof -
  let ?a = "area_example [''mldr'', ''/r/p'', ''x''] [''A=1'', ''__mldr_bprefs=1,2,3,4'']"
  let ?lr = "lr_example\<lparr>lr_mh := 65536, entry_point := 65600, bprefs := [1, 2, 3, 4], root_path := Some ''/r'', stack_top := 409600,
       stack_top_aligned := 409600, kernfd := 1023, vm_addr_max := 69632\<rparr>"
  obtain s where load: "load_program (w_os main_example) (w_space main_example) (w_files main_example) ''/r/p''
      (lr_example\<lparr>bprefs := [1, 2, 3, 4]\<rparr>) (\<lambda>_. None) = Inr (?lr, s)"
    using load_example [of "[1, 2, 3, 4]"] by (auto simp: main_example_def)
  have lay: "exec_layout ?a 64 [''mldr'', ''/r/p'', ''x''] 76 [''A=1'', ''__mldr_bprefs=1,2,3,4'']"
    using area_example_layout [of "[''mldr'', ''/r/p'', ''x'']" "[''A=1'', ''__mldr_bprefs=1,2,3,4'']"] by simp
  have choice: "(False, ''/r/p'') = (case marked_name ''mldr'' of Some f \<Rightarrow> (True, f) | None \<Rightarrow> (False, hd [''/r/p'', ''x'']))"
    by (simp add: marked_name_def)
  have buf: "buffer_ok ?a (root_path ?lr) (w_unexpanded main_example) (hd [''/r/p'', ''x''])"
    by (simp add: buffer_ok_def area_example_def unexpand_path_def main_example_def SYSTEM_ROOT_def)
  have path: "executable_path ''/r/p'' (root_path ?lr) = Inr ''/p''"
    by (simp add: executable_path_def unexpand_path_def SYSTEM_ROOT_def)
  have vars: "[''A=1''] = map env_renamed (filter (\<lambda>v. \<not> special_variable v) [''A=1'', ''__mldr_bprefs=1,2,3,4''])"
    by (simp add: special_variable_def names_var_def env_renamed_def env_var_matches_def)
  have ready: "start_ready main_example ?a ?lr [''/r/p'', ''x''] [''A=1''] ''/p''"
    by (simp add: start_ready_def stack_need_def main_example_def area_example_def user_long_count_def)
  have "program_args False (root_path ?lr) [''/r/p'', ''x''] = [''/p'', ''x'']"
    by (simp add: program_args_def unexpand_path_def SYSTEM_ROOT_def)
  then obtain a' lr' m' ps qs x k e where res: "mldr_main main_example ?a (\<lambda>_. None) = Inr (a', lr', s, m')" "entry_point lr' = 65600"
      "get_words m' (stack_top lr') 11 = 65536 # Suc (Suc 0) # ps @ 0 # qs @ [0, x, k, e, 0]"
      "list_all2 (string_at m') ps [''/p'', ''x'']" "list_all2 (string_at m') qs [''A=1'']" "string_at m' x ''executable_path=/p''"
    using mldr_main_starts_program [OF lay _ choice conf_example load buf path vars ready] by auto
  moreover have "65536 # Suc (Suc 0) # ps @ 0 # qs @ [0, x, k, e, 0] = [65536, 2] @ ps @ [0] @ qs @ [0, x, k, e, 0]" by simp
  ultimately show ?thesis by metis
qed

end
